(* ===== verification/Prelude.thy ===== *)
theory Prelude
  imports Main "HOL-Library.Word"
begin

text \<open>
  Shared ground of the development: the C integer types as words, the result type in which
  every kernel operation is written (a value, a \<open>panic\<close>, or a call that has to sleep), loops over
  index ranges, the constants of \<^verbatim>\<open>param.h\<close>, \<^verbatim>\<open>mmu.h\<close> and \<^verbatim>\<open>memlayout.h\<close>, and the facts on
  pages, flags and lists that the component theories use.
\<close>

unbundle bit_operations_syntax

named_theorems page_simps
named_theorems flag_simps


section \<open>C integer types\<close>

type_synonym uchar = "8 word"
type_synonym ushort = "16 word"
type_synonym uint = "32 word"


section \<open>Results of kernel code\<close>

text \<open>
  A kernel function returns, panics (\<open>panic\<close> in \<^verbatim>\<open>console.c\<close> never returns), reaches a call of
  \<open>sleep\<close> that it cannot pass in the current state (the outcome names the wait channel), loops for
  ever, or makes an access that C leaves undefined (a null pointer, an index out of its array).
\<close>

datatype wchan =
    ChLog              \<comment> \<open>\<open>&log\<close>\<close>
  | ChBuf nat          \<comment> \<open>the sleep lock of buffer \<open>n\<close> of \<open>bcache\<close>\<close>
  | ChDisk nat         \<comment> \<open>buffer \<open>n\<close> itself, in \<^verbatim>\<open>ide.c\<close>\<close>
  | ChInode nat        \<comment> \<open>the sleep lock of entry \<open>n\<close> of \<open>icache\<close>\<close>
  | ChPipeRead uint    \<comment> \<open>\<open>&p->nread\<close>\<close>
  | ChPipeWrite uint   \<comment> \<open>\<open>&p->nwrite\<close>\<close>
  | ChInput            \<comment> \<open>\<open>&input.r\<close>\<close>
  | ChTicks            \<comment> \<open>\<open>&ticks\<close>\<close>
  | ChProc nat         \<comment> \<open>slot \<open>n\<close> of the process table\<close>

datatype kerror = Panic string | Sleep wchan | Hang | Fault string

definition bindE :: "'e + 'a \<Rightarrow> ('a \<Rightarrow> 'e + 'b) \<Rightarrow> 'e + 'b" where
  "bindE m f = (case m of Inl e \<Rightarrow> Inl e | Inr x \<Rightarrow> f x)"

lemma bindE_simps [simp]:
  "bindE (Inl e) f = Inl e"
  "bindE (Inr x) f = f x"
  by (simp_all add: bindE_def)

lemma bindE_eq_Inr: "bindE m f = Inr y \<longleftrightarrow> (\<exists>x. m = Inr x \<and> f x = Inr y)"
  by (cases m) simp_all

lemma bindE_eq_Inl: "bindE m f = Inl e \<longleftrightarrow> m = Inl e \<or> (\<exists>x. m = Inr x \<and> f x = Inl e)"
  by (cases m) simp_all

lemma bindE_cong [fundef_cong]:
  "m = n \<Longrightarrow> (\<And>x. n = Inr x \<Longrightarrow> f x = g x) \<Longrightarrow> bindE m f = bindE n g"
  by (cases n) simp_all

lemma bindE_assoc: "bindE (bindE m f) g = bindE m (\<lambda>x. bindE (f x) g)"
  by (cases m) simp_all

text \<open>Run an operation of a component on the part of a larger state that holds its record.\<close>

definition lift :: "('s \<Rightarrow> 't) \<Rightarrow> ('t \<Rightarrow> 's \<Rightarrow> 's) \<Rightarrow> ('t \<Rightarrow> 'e + 'a \<times> 't) \<Rightarrow> 's \<Rightarrow> 'e + 'a \<times> 's"
  where "lift part put f s = bindE (f (part s)) (\<lambda>(x, t). Inr (x, put t s))"

lemma lift_Inr: "f (part s) = Inr (x, t) \<Longrightarrow> lift part put f s = Inr (x, put t s)"
  by (simp add: lift_def)

lemma lift_eq_Inr:
  "lift part put f s = Inr (x, s') \<longleftrightarrow> (\<exists>t. f (part s) = Inr (x, t) \<and> s' = put t s)"
  by (auto simp: lift_def bindE_eq_Inr)

lemma lift_eq_Inl: "lift part put f s = Inl e \<longleftrightarrow> f (part s) = Inl e"
  by (auto simp: lift_def bindE_eq_Inl)

text \<open>\<open>assertE\<close> is the macro \<open>AssertPanic\<close> of \<^verbatim>\<open>defs.h\<close>.\<close>

definition assertE :: "bool \<Rightarrow> string \<Rightarrow> kerror + unit" where
  "assertE b msg = (if b then Inr () else Inl (Panic msg))"

lemma assertE_True [simp]: "assertE True msg = Inr ()"
  by (simp add: assertE_def)

lemma assertE_eq_Inr [simp]: "assertE b msg = Inr u \<longleftrightarrow> b"
  by (simp add: assertE_def)

lemma assertE_eq_Inl [simp]: "assertE b msg = Inl e \<longleftrightarrow> \<not> b \<and> e = Panic msg"
  by (auto simp: assertE_def)


section \<open>Loops over index ranges\<close>

text \<open>\<open>foldE body [a..<b] s\<close> is \<open>for(i = a; i < b; i++) body(i)\<close> over a state \<open>s\<close>.\<close>

fun foldE :: "('a \<Rightarrow> 's \<Rightarrow> 'e + 's) \<Rightarrow> 'a list \<Rightarrow> 's \<Rightarrow> 'e + 's" where
  "foldE f [] s = Inr s"
| "foldE f (x # xs) s = bindE (f x s) (foldE f xs)"

lemma foldE_append: "foldE f (xs @ ys) s = bindE (foldE f xs s) (foldE f ys)"
proof (induction xs arbitrary: s)
  case (Cons x xs)
  then show ?case by (cases "f x s") simp_all
qed simp

lemma foldE_invariant:
  assumes "P 0 s"
    and "\<And>i s. i < length xs \<Longrightarrow> P i s \<Longrightarrow> \<exists>s'. f (xs ! i) s = Inr s' \<and> P (Suc i) s'"
  shows "\<exists>s'. foldE f xs s = Inr s' \<and> P (length xs) s'"
  using assms
proof (induction xs arbitrary: s P)
  case (Cons x xs)
  from Cons.prems(2) [of 0] Cons.prems(1) obtain s1 where s1: "f x s = Inr s1" "P 1 s1"
    by auto
  have "\<exists>s'. foldE f xs s1 = Inr s' \<and> P (Suc (length xs)) s'"
  proof (rule Cons.IH [where P = "\<lambda>i. P (Suc i)"])
    show "P (Suc 0) s1" using s1 by simp
  next
    fix i t assume "i < length xs" "P (Suc i) t"
    then show "\<exists>s'. f (xs ! i) t = Inr s' \<and> P (Suc (Suc i)) s'"
      using Cons.prems(2) [of "Suc i" t] by simp
  qed
  with s1 show ?case by simp
qed simp

lemma foldE_upt_invariant:
  assumes "a \<le> b" and "P a s"
    and "\<And>i s. a \<le> i \<Longrightarrow> i < b \<Longrightarrow> P i s \<Longrightarrow> \<exists>s'. f i s = Inr s' \<and> P (Suc i) s'"
  shows "\<exists>s'. foldE f [a..<b] s = Inr s' \<and> P b s'"
proof -
  have "\<exists>s'. foldE f [a..<b] s = Inr s' \<and> P (a + length [a..<b]) s'"
  proof (rule foldE_invariant [where P = "\<lambda>i. P (a + i)"])
    show "P (a + 0) s" using assms(2) by simp
  next
    fix i t assume "i < length [a..<b]" "P (a + i) t"
    then show "\<exists>s'. f ([a..<b] ! i) t = Inr s' \<and> P (a + Suc i) s'"
      using assms(3) [of "a + i" t] by simp
  qed
  with assms(1) show ?thesis by simp
qed

lemma foldE_preserves:
  assumes "foldE f xs s = Inr s'" and "P s"
    and "\<And>x t t'. x \<in> set xs \<Longrightarrow> P t \<Longrightarrow> f x t = Inr t' \<Longrightarrow> P t'"
  shows "P s'"
  using assms
proof (induction xs arbitrary: s)
  case (Cons x xs)
  from Cons.prems(1) obtain t where t: "f x s = Inr t" "foldE f xs t = Inr s'"
    by (auto simp: bindE_eq_Inr)
  have "P t" using Cons.prems(2,3) t(1) by auto
  from Cons.IH [OF t(2) this] Cons.prems(3) show ?case by auto
qed simp


section \<open>Multiples\<close>

lemma aligned_unique:
  fixes a b :: nat
  assumes "a mod n = 0" and "b mod n = 0" and "a + i = b + j" and "i < n" and "j < n"
  shows "a = b"
proof -
  obtain q r where "a = n * q" "b = n * r" using assms(1,2) by (metis dvd_def mod_eq_0_iff_dvd)
  moreover have "(n * q + i) div n = q" "(n * r + j) div n = r" using assms(4,5) by simp_all
  ultimately show ?thesis using assms(3) by simp
qed

lemma aligned_add_less:
  fixes a :: nat
  assumes "a mod n = 0" and "a < m" and "m mod n = 0" and "i < n"
  shows "a + i < m"
proof -
  obtain q r where q: "a = n * q" "m = n * r" using assms(1,3) by (metis dvd_def mod_eq_0_iff_dvd)
  with assms(2) have "n * Suc q \<le> n * r" by (simp del: mult_Suc_right)
  with q assms(4) show ?thesis by simp
qed


section \<open>First index with a property\<close>

text \<open>
  The scans \<open>for(i = 0; i < n; i++) if(P(i)) return i;\<close> that the kernel uses to find a free slot.
\<close>

definition find_index :: "('a \<Rightarrow> bool) \<Rightarrow> 'a list \<Rightarrow> nat option" where
  "find_index P xs = find (\<lambda>i. P (xs ! i)) [0..<length xs]"

lemma find_index_Some:
  "find_index P xs = Some i \<longleftrightarrow> i < length xs \<and> P (xs ! i) \<and> (\<forall>j < i. \<not> P (xs ! j))"
  by (auto simp: find_index_def find_Some_iff)

lemma find_index_None: "find_index P xs = None \<longleftrightarrow> (\<forall>x \<in> set xs. \<not> P x)"
  by (auto simp: find_index_def find_None_iff) (metis in_set_conv_nth)


section \<open>Constants of param.h, mmu.h and memlayout.h\<close>

abbreviation (input) NPROC :: nat where "NPROC \<equiv> 64"
abbreviation (input) KSTACKSIZE :: "'a::numeral" where "KSTACKSIZE \<equiv> 4096"
abbreviation (input) NCPU :: nat where "NCPU \<equiv> 8"
abbreviation (input) NOFILE :: nat where "NOFILE \<equiv> 16"
abbreviation (input) NFILE :: nat where "NFILE \<equiv> 100"
abbreviation (input) NINODE :: nat where "NINODE \<equiv> 50"
abbreviation (input) NDEV :: nat where "NDEV \<equiv> 10"
abbreviation (input) ROOTDEV :: uint where "ROOTDEV \<equiv> 1"
abbreviation (input) MAXARG :: nat where "MAXARG \<equiv> 32"
abbreviation (input) MAXOPBLOCKS :: nat where "MAXOPBLOCKS \<equiv> 10"
abbreviation (input) LOGSIZE :: nat where "LOGSIZE \<equiv> 30"
abbreviation (input) NBUF :: nat where "NBUF \<equiv> 30"
abbreviation (input) FSSIZE :: nat where "FSSIZE \<equiv> 5000"

abbreviation (input) PGSIZE :: "'a::numeral" where "PGSIZE \<equiv> 4096"
abbreviation (input) NPDENTRIES :: nat where "NPDENTRIES \<equiv> 1024"
abbreviation (input) NPTENTRIES :: nat where "NPTENTRIES \<equiv> 1024"

abbreviation (input) PTE_P :: uint where "PTE_P \<equiv> 0x001"
abbreviation (input) PTE_W :: uint where "PTE_W \<equiv> 0x002"
abbreviation (input) PTE_U :: uint where "PTE_U \<equiv> 0x004"
abbreviation (input) PTE_A :: uint where "PTE_A \<equiv> 0x020"
abbreviation (input) PTE_D :: uint where "PTE_D \<equiv> 0x040"
abbreviation (input) PTE_PG :: uint where "PTE_PG \<equiv> 0x200"

abbreviation (input) MAX_PSYC_PAGES :: nat where "MAX_PSYC_PAGES \<equiv> 15"
abbreviation (input) MAX_SWAP_PAGES :: nat where "MAX_SWAP_PAGES \<equiv> 15"

abbreviation (input) EXTMEM :: uint where "EXTMEM \<equiv> 0x100000"
abbreviation (input) PHYSTOP :: uint where "PHYSTOP \<equiv> 0xE000000"
abbreviation (input) DEVSPACE :: uint where "DEVSPACE \<equiv> 0xFE000000"
abbreviation (input) KERNBASE :: uint where "KERNBASE \<equiv> 0x80000000"
abbreviation (input) KERNLINK :: uint where "KERNLINK \<equiv> 0x80100000"

definition V2P :: "uint \<Rightarrow> uint" where "V2P a = a - KERNBASE"
definition P2V :: "uint \<Rightarrow> uint" where "P2V a = a + KERNBASE"

definition PDX :: "uint \<Rightarrow> uint" where "PDX va = drop_bit 22 va AND 0x3FF"
definition PTX :: "uint \<Rightarrow> uint" where "PTX va = drop_bit 12 va AND 0x3FF"

definition PGADDR :: "uint \<Rightarrow> uint \<Rightarrow> uint \<Rightarrow> uint" where
  "PGADDR d t off = push_bit 22 d OR push_bit 12 t OR off"

definition PGROUNDUP :: "uint \<Rightarrow> uint" where
  "PGROUNDUP sz = (sz + PGSIZE - 1) AND NOT (PGSIZE - 1)"

definition PGROUNDDOWN :: "uint \<Rightarrow> uint" where
  "PGROUNDDOWN a = a AND NOT (PGSIZE - 1)"

definition PTE_ADDR :: "uint \<Rightarrow> uint" where "PTE_ADDR pte = pte AND NOT 0xFFF"
definition PTE_FLAGS :: "uint \<Rightarrow> uint" where "PTE_FLAGS pte = pte AND 0xFFF"


section \<open>Pages and flags\<close>

definition pg_aligned :: "uint \<Rightarrow> bool" where
  "pg_aligned a \<longleftrightarrow> a mod PGSIZE = 0"

lemma V2P_P2V [simp]: "V2P (P2V a) = a" "P2V (V2P a) = a"
  by (simp_all add: V2P_def P2V_def)

text \<open>Single-bit masks, read through \<^const>\<open>bit\<close>.\<close>

lemma bit_FFF_int [simp]: "bit (0xFFF :: int) n \<longleftrightarrow> n < 12"
proof -
  have "(0xFFF :: int) = mask 12" by (simp add: mask_numeral)
  then show ?thesis by (simp only: bit_mask_iff) auto
qed

lemma bit_FF_int [simp]: "bit (0xFF :: int) n \<longleftrightarrow> n < 8"
proof -
  have "(0xFF :: int) = mask 8" by (simp add: mask_numeral)
  then show ?thesis by (simp only: bit_mask_iff) auto
qed

lemma bit_exp_int: "bit (2 ^ k :: int) n \<longleftrightarrow> n = k"
  by (simp add: bit_exp_iff)

lemma bit_masks_int [simp]:
  "bit (2 :: int) n \<longleftrightarrow> n = 1"
  "bit (4 :: int) n \<longleftrightarrow> n = 2"
  "bit (0x20 :: int) n \<longleftrightarrow> n = 5"
  "bit (0x40 :: int) n \<longleftrightarrow> n = 6"
  "bit (0x200 :: int) n \<longleftrightarrow> n = 9"
  "bit (0x800 :: int) n \<longleftrightarrow> n = 11"
  using bit_exp_int [of 1 n] bit_exp_int [of 2 n] bit_exp_int [of 5 n] bit_exp_int [of 6 n]
    bit_exp_int [of 9 n] bit_exp_int [of 11 n]
  by simp_all

lemma and_exp_eq_0: "(x AND 2 ^ k = 0) \<longleftrightarrow> \<not> bit x k" if "k < 32" for x :: uint
  using that by (auto simp: bit_and_iff bit_exp_iff intro!: bit_eqI dest: arg_cong [where f = "\<lambda>w. bit w k"])

lemma flag_test [flag_simps]:
  fixes x :: uint
  shows "(x AND 1 = 0) \<longleftrightarrow> \<not> bit x 0" "(x AND 2 = 0) \<longleftrightarrow> \<not> bit x 1"
    "(x AND 4 = 0) \<longleftrightarrow> \<not> bit x 2" "(x AND 0x20 = 0) \<longleftrightarrow> \<not> bit x 5"
    "(x AND 0x200 = 0) \<longleftrightarrow> \<not> bit x 9" "(x AND 0x800 = 0) \<longleftrightarrow> \<not> bit x 11"
  using and_exp_eq_0 [of 0 x] and_exp_eq_0 [of 1 x] and_exp_eq_0 [of 2 x]
    and_exp_eq_0 [of 5 x] and_exp_eq_0 [of 9 x] and_exp_eq_0 [of 11 x]
  by simp_all

lemma unat_uint_less: "unat (a :: uint) < 4294967296"
  using unsigned_less [of a, where ?'a = nat] by simp

lemma unat_of_nat_uint: "n < 4294967296 \<Longrightarrow> unat (of_nat n :: uint) = n"
  by (subst unat_of_nat) simp

lemma unat_inject: "unat a = unat b \<longleftrightarrow> a = b" for a b :: "'a::len word"
  by (simp add: word_eq_iff_unsigned [where ?'a = nat])

text \<open>The low twelve bits.\<close>

lemma mod_4096: "a mod 4096 = take_bit 12 (a :: uint)"
  by (simp add: take_bit_eq_mod)

lemma and_FFF: "x AND 0xFFF = take_bit 12 (x :: uint)"
  by (simp add: take_bit_eq_mask mask_numeral)

lemma unat_and_FFF: "unat (x AND 0xFFF) = unat (x :: uint) mod 4096"
  by (simp add: and_FFF flip: mod_4096) (simp add: unat_mod_distrib)

lemma pg_aligned_bits: "pg_aligned a \<longleftrightarrow> (\<forall>n < 12. \<not> bit a n)"
  unfolding pg_aligned_def mod_4096 by (auto simp: bit_eq_iff bit_take_bit_iff)

lemma take_bit_12_self: "x < 4096 \<longleftrightarrow> take_bit 12 x = x" for x :: uint
proof -
  have "x < 4096 \<longleftrightarrow> unat x < 2 ^ 12" by (simp add: word_less_nat_alt)
  also have "\<dots> \<longleftrightarrow> take_bit 12 (unat x) = unat x" by (simp only: take_bit_nat_eq_self_iff)
  also have "\<dots> \<longleftrightarrow> take_bit 12 x = x"
    unfolding unsigned_take_bit_eq [symmetric]
    by (simp add: word_eq_iff_unsigned [where ?'a = nat, symmetric])
  finally show ?thesis .
qed

lemma less_4096_bits: "x < 4096 \<longleftrightarrow> (\<forall>n \<ge> 12. \<not> bit x n)" for x :: uint
proof
  assume "x < 4096"
  then have "take_bit 12 x = x" by (simp only: take_bit_12_self)
  then show "\<forall>n \<ge> 12. \<not> bit x n" by (metis bit_take_bit_iff not_le)
next
  assume "\<forall>n \<ge> 12. \<not> bit x n"
  then have "take_bit 12 x = x" by (intro bit_eqI) (auto simp: bit_take_bit_iff not_le [symmetric])
  then show "x < 4096" by (simp only: take_bit_12_self)
qed

lemma pg_aligned_unat: "pg_aligned a \<longleftrightarrow> unat a mod 4096 = 0"
  by (metis pg_aligned_def unat_and_FFF and_FFF mod_4096 unat_eq_zero)

lemma unat_and_not_FFF: "unat (x AND NOT 0xFFF) = unat x - unat x mod 4096" for x :: uint
proof -
  have "(x AND NOT 0xFFF) AND (x AND 0xFFF) = 0" "(x AND NOT 0xFFF) OR (x AND 0xFFF) = x"
    by (auto simp: bit_eq_iff bit_simps)
  then have "(x AND NOT 0xFFF) + (x AND 0xFFF) = x"
    by (metis add_0 word_plus_and_or)
  then have *: "x AND NOT 0xFFF = x - (x AND 0xFFF)" by (simp add: eq_diff_eq)
  have "unat (x AND 0xFFF) \<le> unat x" by (simp only: unat_and_FFF mod_less_eq_dividend)
  then have "unat (x - (x AND 0xFFF)) = unat x - unat (x AND 0xFFF)"
    by (metis unat_sub word_le_nat_alt)
  with * show ?thesis by (simp only: unat_and_FFF)
qed

lemma PTE_ADDR_or [page_simps]: "pg_aligned a \<Longrightarrow> f < 4096 \<Longrightarrow> PTE_ADDR (a OR f) = a"
  unfolding PTE_ADDR_def pg_aligned_bits less_4096_bits
  by (rule bit_eqI) (auto simp: bit_simps not_less)

lemma PTE_FLAGS_or [page_simps]: "pg_aligned a \<Longrightarrow> f < 4096 \<Longrightarrow> PTE_FLAGS (a OR f) = f"
  unfolding PTE_FLAGS_def pg_aligned_bits less_4096_bits
  by (rule bit_eqI) (auto simp: bit_simps not_le [symmetric])

lemma PTE_ADDR_or_FLAGS: "PTE_ADDR x OR PTE_FLAGS x = x"
  unfolding PTE_FLAGS_def PTE_ADDR_def by (rule bit_eqI) (auto simp: bit_simps)

lemma pg_aligned_PTE_ADDR [page_simps, simp]: "pg_aligned (PTE_ADDR x)"
  unfolding pg_aligned_bits PTE_ADDR_def by (auto simp: bit_simps)

lemma PTE_FLAGS_less [page_simps, simp]: "PTE_FLAGS x < 4096"
  unfolding less_4096_bits PTE_FLAGS_def by (auto simp: bit_simps)

lemma PTE_FLAGS_eq_0 [page_simps]: "PTE_FLAGS a = 0 \<longleftrightarrow> pg_aligned a"
  unfolding PTE_FLAGS_def pg_aligned_def and_FFF mod_4096 ..

lemma PTE_ADDR_aligned [page_simps]: "pg_aligned a \<Longrightarrow> PTE_ADDR a = a"
  using PTE_ADDR_or [of a 0] by simp

lemma PGROUNDDOWN_eq_PTE_ADDR: "PGROUNDDOWN a = PTE_ADDR a"
  by (simp add: PGROUNDDOWN_def PTE_ADDR_def)

lemma unat_PTE_ADDR: "unat (PTE_ADDR a) = unat a - unat a mod 4096"
  by (simp only: PTE_ADDR_def unat_and_not_FFF)

lemma pg_aligned_dvd: "pg_aligned a \<longleftrightarrow> 4096 dvd unat a"
  by (simp add: pg_aligned_unat mod_eq_0_iff_dvd)

lemma pg_aligned_add [intro]: "pg_aligned a \<Longrightarrow> pg_aligned b \<Longrightarrow> pg_aligned (a + b)"
  by (simp add: pg_aligned_dvd unat_word_ariths dvd_mod)

lemma pg_aligned_diff [intro]: "pg_aligned a \<Longrightarrow> pg_aligned b \<Longrightarrow> pg_aligned (a - b)"
proof -
  assume *: "pg_aligned a" "pg_aligned b"
  have "4096 dvd unat a + 4294967296 - unat b"
    using * unfolding pg_aligned_dvd by (intro dvd_diff_nat dvd_add) simp_all
  with * show "pg_aligned (a - b)"
    by (auto simp: pg_aligned_dvd unat_sub_if' dvd_diff_nat)
qed

lemma pg_aligned_of_nat: "pg_aligned (of_nat (4096 * i))"
  unfolding pg_aligned_dvd unat_of_nat by (rule dvd_mod) simp_all

lemma pg_aligned_consts [simp]:
  "pg_aligned 0" "pg_aligned PGSIZE" "pg_aligned KERNBASE" "pg_aligned KERNLINK"
  "pg_aligned DEVSPACE" "pg_aligned PHYSTOP" "pg_aligned EXTMEM"
  by (simp_all add: pg_aligned_def)

lemma pg_aligned_P2V [page_simps, simp]: "pg_aligned (P2V a) \<longleftrightarrow> pg_aligned a"
  by (metis P2V_def V2P_P2V(1) V2P_def pg_aligned_add pg_aligned_diff pg_aligned_consts(3))

lemma pg_aligned_V2P [page_simps, simp]: "pg_aligned (V2P a) \<longleftrightarrow> pg_aligned a"
  by (metis V2P_P2V(2) pg_aligned_P2V)

text \<open>The three parts of a virtual address.\<close>

lemma unat_PDX: "unat (PDX va) = unat va div 2 ^ 22"
proof -
  have "PDX va = take_bit 10 (drop_bit 22 va)"
    by (simp add: PDX_def take_bit_eq_mask mask_numeral)
  also have "unat \<dots> = unat va div 2 ^ 22 mod 2 ^ 10"
    by (simp add: take_bit_eq_mod drop_bit_eq_div unat_div_distrib unat_mod_distrib)
  also have "\<dots> = unat va div 2 ^ 22"
    using unat_uint_less [of va] by (intro mod_less) simp
  finally show ?thesis .
qed

lemma unat_PTX: "unat (PTX va) = unat va div 2 ^ 12 mod 2 ^ 10"
proof -
  have "PTX va = take_bit 10 (drop_bit 12 va)"
    by (simp add: PTX_def take_bit_eq_mask mask_numeral)
  also have "unat \<dots> = unat va div 2 ^ 12 mod 2 ^ 10"
    by (simp add: take_bit_eq_mod drop_bit_eq_div unat_div_distrib unat_mod_distrib)
  finally show ?thesis .
qed

lemma PDX_less: "unat (PDX va) < 1024" and PTX_less: "unat (PTX va) < 1024"
proof -
  show "unat (PDX va) < 1024" unfolding unat_PDX using unat_uint_less [of va] by simp
  show "unat (PTX va) < 1024" unfolding unat_PTX by simp
qed

text \<open>Two page-aligned addresses with the same two indices are the same page.\<close>

lemma page_index_inject:
  assumes "PDX a = PDX b" and "PTX a = PTX b" and "pg_aligned a" and "pg_aligned b"
  shows "a = b"
proof -
  have "unat a div 2 ^ 22 = unat b div 2 ^ 22" using assms(1) by (metis unat_PDX)
  moreover have "unat a div 2 ^ 12 mod 2 ^ 10 = unat b div 2 ^ 12 mod 2 ^ 10"
    using assms(2) by (metis unat_PTX)
  moreover have "unat x div 2 ^ 22 = unat x div 2 ^ 12 div 2 ^ 10" for x :: uint
    by (simp add: div_mult2_eq [symmetric])
  ultimately have "unat a div 2 ^ 12 = unat b div 2 ^ 12"
    by (metis div_mult_mod_eq)
  moreover have "unat x = unat x div 2 ^ 12 * 2 ^ 12" if "pg_aligned x" for x
  proof -
    have "4096 dvd unat x" using that by (simp only: pg_aligned_unat mod_eq_0_iff_dvd)
    then have "unat x div 4096 * 4096 = unat x" by (rule dvd_div_mult_self)
    then show ?thesis by simp
  qed
  ultimately have "unat a = unat b" using assms(3,4) by metis
  then show ?thesis by (simp only: unat_inject)
qed

end
