(* ===== verification/Memory.thy ===== *)
theory Memory
  imports Prelude
begin

text \<open>
  Byte-addressed memory as the kernel sees it through its direct map, little-endian 32-bit loads
  and stores, and the interface \<open>word_store\<close> that pointer structures in memory (free lists, page
  tables) rely on.
\<close>

type_synonym memory = "uint \<Rightarrow> uchar"

definition ld32 :: "memory \<Rightarrow> uint \<Rightarrow> uint" where
  "ld32 m a = ucast (m a) OR push_bit 8 (ucast (m (a + 1)))
     OR push_bit 16 (ucast (m (a + 2))) OR push_bit 24 (ucast (m (a + 3)))"

definition st32 :: "memory \<Rightarrow> uint \<Rightarrow> uint \<Rightarrow> memory" where
  "st32 m a v = m(a := ucast v, a + 1 := ucast (drop_bit 8 v),
     a + 2 := ucast (drop_bit 16 v), a + 3 := ucast (drop_bit 24 v))"

definition w_aligned :: "uint \<Rightarrow> bool" where
  "w_aligned a \<longleftrightarrow> a mod 4 = 0"

fun mread :: "memory \<Rightarrow> uint \<Rightarrow> nat \<Rightarrow> uchar list" where
  "mread m a 0 = []"
| "mread m a (Suc n) = m a # mread m (a + 1) n"

fun mwrite :: "memory \<Rightarrow> uint \<Rightarrow> uchar list \<Rightarrow> memory" where
  "mwrite m a [] = m"
| "mwrite m a (b # bs) = mwrite (m(a := b)) (a + 1) bs"


section \<open>Loads and stores\<close>

lemma ld32_st32_same: "ld32 (st32 m a v) a = v"
proof -
  have "ld32 (st32 m a v) a = ucast (ucast v :: uchar) OR push_bit 8 (ucast (ucast (drop_bit 8 v) :: uchar))
     OR push_bit 16 (ucast (ucast (drop_bit 16 v) :: uchar))
     OR push_bit 24 (ucast (ucast (drop_bit 24 v) :: uchar))"
    by (simp add: ld32_def st32_def)
  also have "\<dots> = v"
  proof (rule bit_eqI)
    fix n assume "possible_bit TYPE(uint) n"
    then have "n < 32" by (simp add: possible_bit_def)
    then consider "n < 8" | "8 \<le> n" "n < 16" | "16 \<le> n" "n < 24" | "24 \<le> n" "n < 32"
      by linarith
    then show "bit (ucast (ucast v :: uchar) OR push_bit 8 (ucast (ucast (drop_bit 8 v) :: uchar))
        OR push_bit 16 (ucast (ucast (drop_bit 16 v) :: uchar))
        OR push_bit 24 (ucast (ucast (drop_bit 24 v) :: uchar)) :: uint) n = bit v n"
      by cases (auto simp: bit_simps)
  qed
  finally show ?thesis .
qed

lemma w_aligned_unat: "w_aligned a \<longleftrightarrow> unat a mod 4 = 0"
  unfolding w_aligned_def by (simp flip: unat_eq_zero add: unat_mod_distrib)

lemma w_aligned_offset:
  assumes "w_aligned a" and "k < 4"
  shows "unat (a + of_nat k) = unat a + k"
proof -
  have "unat a mod 4 = 0" using assms(1) by (simp only: w_aligned_unat)
  from aligned_add_less [OF this unat_uint_less _ assms(2)] have "unat a + k < 4294967296" by simp
  moreover have "unat (of_nat k :: uint) = k" using assms(2) by (simp add: unat_of_nat)
  ultimately show ?thesis by (simp add: unat_word_ariths)
qed

lemma w_aligned_disjoint:
  assumes "w_aligned a" "w_aligned b" "a \<noteq> b" "i < 4" "j < 4"
  shows "a + of_nat i \<noteq> b + of_nat j"
proof
  assume "a + of_nat i = b + of_nat j"
  then have "unat a + i = unat b + j"
    using w_aligned_offset [OF assms(1,4)] w_aligned_offset [OF assms(2,5)] by simp
  moreover have "unat a mod 4 = 0" "unat b mod 4 = 0"
    using assms(1,2) by (simp_all only: w_aligned_unat)
  ultimately have "unat a = unat b" using aligned_unique [of "unat a" 4 "unat b" i j] assms(4,5) by simp
  with assms(3) show False by (simp only: unat_inject)
qed

lemma ld32_cong:
  "(\<And>k. k < 4 \<Longrightarrow> m (a + of_nat k) = m' (a + of_nat k)) \<Longrightarrow> ld32 m a = ld32 m' a"
proof -
  assume *: "\<And>k. k < 4 \<Longrightarrow> m (a + of_nat k) = m' (a + of_nat k)"
  have "m a = m' a" "m (a + 1) = m' (a + 1)" "m (a + 2) = m' (a + 2)" "m (a + 3) = m' (a + 3)"
    using * [of 0] * [of 1] * [of 2] * [of 3] by simp_all
  then show ?thesis by (simp add: ld32_def)
qed

lemma st32_other:
  assumes "\<And>k. k < 4 \<Longrightarrow> b \<noteq> a + of_nat k"
  shows "st32 m a v b = m b"
proof -
  have "b \<noteq> a" "b \<noteq> a + 1" "b \<noteq> a + 2" "b \<noteq> a + 3"
    using assms [of 0] assms [of 1] assms [of 2] assms [of 3] by simp_all
  then show ?thesis by (simp add: st32_def)
qed

lemma ld32_st32_other:
  assumes "w_aligned a" "w_aligned b" "a \<noteq> b"
  shows "ld32 (st32 m a v) b = ld32 m b"
proof (rule ld32_cong)
  fix k :: nat assume k: "k < 4"
  show "st32 m a v (b + of_nat k) = m (b + of_nat k)"
    by (rule st32_other) (use w_aligned_disjoint [OF assms(2,1) assms(3) [symmetric] k] in blast)
qed


section \<open>The interface of word-sized cells\<close>

text \<open>
  What pointer structures need from memory: a load after a store to the same cell gives the value
  stored, a load from another cell is not changed.
\<close>

locale word_store =
  fixes ld :: "'m \<Rightarrow> uint \<Rightarrow> uint"
    and st :: "'m \<Rightarrow> uint \<Rightarrow> uint \<Rightarrow> 'm"
    and cell :: "uint \<Rightarrow> bool"
  assumes ld_st_same: "cell a \<Longrightarrow> ld (st m a v) a = v"
    and ld_st_other: "cell a \<Longrightarrow> cell b \<Longrightarrow> a \<noteq> b \<Longrightarrow> ld (st m a v) b = ld m b"

text \<open>
  \<open>chain ld m p xs\<close>: the null-terminated list that starts at \<open>p\<close> and continues through the first
  word of each node consists of the nodes \<open>xs\<close>.
\<close>

primrec chain :: "('m \<Rightarrow> uint \<Rightarrow> uint) \<Rightarrow> 'm \<Rightarrow> uint \<Rightarrow> uint list \<Rightarrow> bool" where
  "chain ld m p [] \<longleftrightarrow> p = 0"
| "chain ld m p (x # xs) \<longleftrightarrow> p = x \<and> x \<noteq> 0 \<and> chain ld m (ld m x) xs"

lemma chain_unique: "chain ld m p xs \<Longrightarrow> chain ld m p ys \<Longrightarrow> xs = ys"
proof (induction xs arbitrary: p ys)
  case Nil
  then show ?case by (cases ys) auto
next
  case (Cons x xs)
  then show ?case by (cases ys) auto
qed

lemma chain_null [simp]: "chain ld m 0 xs \<longleftrightarrow> xs = []"
  by (cases xs) auto

lemma chain_cong:
  "(\<And>x. x \<in> set xs \<Longrightarrow> ld m x = ld m' x) \<Longrightarrow> chain ld m p xs = chain ld m' p xs"
  by (induction xs arbitrary: p) auto

context word_store
begin

lemma chain_frame:
  assumes "cell a" and "\<forall>x \<in> set xs. cell x" and "a \<notin> set xs"
  shows "chain ld (st m a v) p xs = chain ld m p xs"
  by (rule chain_cong) (metis assms ld_st_other)

lemma chain_push:
  assumes "chain ld m p xs" "cell a" "a \<noteq> 0" "\<forall>x \<in> set xs. cell x" "a \<notin> set xs"
  shows "chain ld (st m a p) a (a # xs)"
  using assms by (simp add: chain_frame ld_st_same)

lemma chain_pop:
  assumes "chain ld m p xs" "p \<noteq> 0"
  shows "\<exists>ys. xs = p # ys \<and> chain ld m (ld m p) ys"
  using assms by (cases xs) auto

end

interpretation w32: word_store ld32 st32 w_aligned
  by unfold_locales (simp_all add: ld32_st32_same ld32_st32_other)


section \<open>Byte ranges\<close>

lemma length_mread [simp]: "length (mread m a n) = n"
  by (induction n arbitrary: a) simp_all

lemma mread_nth: "i < n \<Longrightarrow> mread m a n ! i = m (a + of_nat i)"
proof (induction n arbitrary: a i)
  case (Suc n)
  then show ?case by (cases i) (simp_all add: add.assoc)
qed simp

text \<open>\<open>in_range a n x\<close>: \<open>x\<close> is one of the \<open>n\<close> addresses from \<open>a\<close> on, with wrap-around.\<close>

definition in_range :: "uint \<Rightarrow> nat \<Rightarrow> uint \<Rightarrow> bool" where
  "in_range a n x \<longleftrightarrow> unat (x - a) < n"

lemma in_range_0 [simp]: "\<not> in_range a 0 x"
  by (simp add: in_range_def)

lemma in_range_Suc: "in_range a (Suc n) x \<longleftrightarrow> x = a \<or> in_range (a + 1) n x"
proof (cases "x = a")
  case False
  then have "x - a \<noteq> 0" by simp
  then have "unat (x - a) = Suc (unat (x - a - 1))"
    by (metis Suc_pred' unat_gt_0 unat_minus_one)
  with False show ?thesis by (simp add: in_range_def diff_diff_eq)
qed (simp add: in_range_def)

lemma in_range_self_succ: "n < 4294967296 \<Longrightarrow> \<not> in_range (a + 1) n a"
proof -
  assume "n < 4294967296"
  moreover have "a - (a + 1) = (- 1 :: uint)" by simp
  ultimately show ?thesis
    by (simp add: in_range_def unsigned_minus_1_eq_mask mask_eq_exp_minus_1)
qed

lemma in_range_pred: "in_range (a + 1) n x \<Longrightarrow> x \<noteq> a \<Longrightarrow> unat (x - a) = Suc (unat (x - (a + 1)))"
proof -
  assume "x \<noteq> a"
  then have "x - a \<noteq> 0" by simp
  then have "unat (x - a) = Suc (unat (x - a - 1))"
    by (metis Suc_pred' unat_gt_0 unat_minus_one)
  then show ?thesis by (simp add: diff_diff_eq)
qed

lemma mwrite_apply:
  "length bs \<le> 4294967296 \<Longrightarrow>
    mwrite m a bs x = (if in_range a (length bs) x then bs ! unat (x - a) else m x)"
proof (induction bs arbitrary: m a)
  case (Cons b bs)
  have "\<not> in_range (a + 1) (length bs) a"
    by (rule in_range_self_succ) (use Cons.prems in simp)
  moreover have "mwrite (m(a := b)) (a + 1) bs x =
      (if in_range (a + 1) (length bs) x then bs ! unat (x - (a + 1)) else (m(a := b)) x)"
    by (rule Cons.IH) (use Cons.prems in simp)
  ultimately show ?case
    using in_range_pred [of a "length bs" x] by (cases "x = a") (auto simp: in_range_Suc)
qed simp

lemma mread_mwrite:
  assumes "length bs \<le> 4294967296"
  shows "mread (mwrite m a bs) a (length bs) = bs"
proof (rule nth_equalityI)
  fix i assume "i < length (mread (mwrite m a bs) a (length bs))"
  then have "i < length bs" by simp
  moreover from this have "unat (of_nat i :: uint) = i"
    using assms by (simp add: unat_of_nat)
  ultimately show "mread (mwrite m a bs) a (length bs) ! i = bs ! i"
    using assms by (simp add: mread_nth mwrite_apply in_range_def)
qed simp

end
