(* ===== verification/Strings.thy ===== *)
theory Strings
  imports Memory
begin

text \<open>
  \<^verbatim>\<open>string.c\<close>, the kernel's memory and string routines, with the string instructions of \<^verbatim>\<open>x86.h\<close>
  they use. Block routines work on byte memory. C strings are byte lists: the list holds the bytes of the array from the pointer on, and
  reading at the end of the list gives the terminating zero byte.
\<close>

section \<open>Memory routines\<close>

fun stosb :: "memory \<Rightarrow> uint \<Rightarrow> uchar \<Rightarrow> nat \<Rightarrow> memory" where
  "stosb m addr data 0 = m"
| "stosb m addr data (Suc cnt) = stosb (m(addr := data)) (addr + 1) data cnt"

fun stosl :: "memory \<Rightarrow> uint \<Rightarrow> uint \<Rightarrow> nat \<Rightarrow> memory" where
  "stosl m addr data 0 = m"
| "stosl m addr data (Suc cnt) = stosl (st32 m addr data) (addr + 4) data cnt"

definition memset :: "memory \<Rightarrow> uint \<Rightarrow> uint \<Rightarrow> uint \<Rightarrow> memory" where
  "memset m dst c n =
    (if dst mod 4 = 0 \<and> n mod 4 = 0 then
       (let c = c AND 0xFF in
        stosl m dst (push_bit 24 c OR push_bit 16 c OR push_bit 8 c OR c) (unat (n div 4)))
     else stosb m dst (ucast c) (unat n))"

fun memcmp :: "memory \<Rightarrow> uint \<Rightarrow> uint \<Rightarrow> nat \<Rightarrow> int" where
  "memcmp m s1 s2 0 = 0"
| "memcmp m s1 s2 (Suc n) =
    (if m s1 \<noteq> m s2 then Word.uint (m s1) - Word.uint (m s2) else memcmp m (s1 + 1) (s2 + 1) n)"

fun copy_forward :: "memory \<Rightarrow> uint \<Rightarrow> uint \<Rightarrow> nat \<Rightarrow> memory" where
  "copy_forward m d s 0 = m"
| "copy_forward m d s (Suc n) = copy_forward (m(d := m s)) (d + 1) (s + 1) n"

fun copy_backward :: "memory \<Rightarrow> uint \<Rightarrow> uint \<Rightarrow> nat \<Rightarrow> memory" where
  "copy_backward m d s 0 = m"
| "copy_backward m d s (Suc n) = copy_backward (m(d - 1 := m (s - 1))) (d - 1) (s - 1) n"

definition memmove :: "memory \<Rightarrow> uint \<Rightarrow> uint \<Rightarrow> uint \<Rightarrow> memory" where
  "memmove m dst src n =
    (if src < dst \<and> src + n > dst then copy_backward m (dst + n) (src + n) (unat n)
     else copy_forward m dst src (unat n))"


section \<open>C strings\<close>

definition hd0 :: "uchar list \<Rightarrow> uchar" where
  "hd0 s = (case s of [] \<Rightarrow> 0 | c # _ \<Rightarrow> c)"

lemma hd0_simps [simp]: "hd0 [] = 0" "hd0 (c # s) = c"
  by (simp_all add: hd0_def)

fun strncmp :: "uchar list \<Rightarrow> uchar list \<Rightarrow> nat \<Rightarrow> int" where
  "strncmp p q 0 = 0"
| "strncmp p q (Suc n) =
    (if hd0 p \<noteq> 0 \<and> hd0 p = hd0 q then strncmp (tl p) (tl q) n
     else Word.uint (hd0 p) - Word.uint (hd0 q))"

text \<open>The bytes that \<open>strncpy(s, t, n)\<close> stores from \<open>s\<close> on.\<close>

fun strncpy :: "uchar list \<Rightarrow> nat \<Rightarrow> uchar list" where
  "strncpy t 0 = []"
| "strncpy t (Suc n) = hd0 t # (if hd0 t \<noteq> 0 then strncpy (tl t) n else replicate n 0)"

fun safestrcpy_loop :: "uchar list \<Rightarrow> nat \<Rightarrow> uchar list" where
  "safestrcpy_loop t 0 = []"
| "safestrcpy_loop t (Suc n) = hd0 t # (if hd0 t \<noteq> 0 then safestrcpy_loop (tl t) n else [])"

text \<open>The bytes that \<open>safestrcpy(s, t, n)\<close> stores from \<open>s\<close> on.\<close>

definition safestrcpy :: "uchar list \<Rightarrow> int \<Rightarrow> uchar list" where
  "safestrcpy t n = (if n \<le> 0 then [] else safestrcpy_loop t (nat (n - 1)) @ [0])"

fun strlen :: "uchar list \<Rightarrow> nat" where
  "strlen [] = 0"
| "strlen (c # s) = (if c \<noteq> 0 then Suc (strlen s) else 0)"

text \<open>The string a byte array holds.\<close>

definition cstr :: "uchar list \<Rightarrow> uchar list" where
  "cstr s = takeWhile (\<lambda>c. c \<noteq> 0) s"


section \<open>Block routines compute the obvious function\<close>

lemma stosb_eq: "stosb m a c n = mwrite m a (replicate n c)"
  by (induction n arbitrary: m a) simp_all

lemma st32_bytes: "st32 m a v = mwrite m a
    [ucast v, ucast (drop_bit 8 v), ucast (drop_bit 16 v), ucast (drop_bit 24 v)]"
  by (simp add: st32_def add.assoc)

lemma mwrite_append: "mwrite m a (xs @ ys) = mwrite (mwrite m a xs) (a + of_nat (length xs)) ys"
  by (induction xs arbitrary: m a) (simp_all add: add.assoc)

lemma stosl_eq:
  assumes "\<And>k. k \<in> {0, 8, 16, 24} \<Longrightarrow> ucast (drop_bit k v) = (c :: uchar)"
  shows "stosl m a v n = mwrite m a (replicate (4 * n) c)"
proof (induction n arbitrary: m a)
  case (Suc n)
  have "ucast v = c" "ucast (drop_bit 8 v) = c" "ucast (drop_bit 16 v) = c"
    "ucast (drop_bit 24 v) = c"
    using assms [of 0] assms [of 8] assms [of 16] assms [of 24] by simp_all
  then have "st32 m a v = mwrite m a (replicate 4 c)"
    by (simp only: st32_bytes) (simp add: numeral_eq_Suc)
  moreover have "replicate (4 * Suc n) c = replicate 4 c @ replicate (4 * n) c"
    by (simp flip: replicate_add)
  ultimately show ?case by (simp only: stosl.simps Suc.IH mwrite_append length_replicate) simp
qed simp

lemma word_fill_byte:
  fixes x :: uchar
  assumes "k \<in> {0, 8, 16, 24}"
  shows "ucast (drop_bit k (push_bit 24 (ucast x) OR push_bit 16 (ucast x)
    OR push_bit 8 (ucast x) OR ucast x :: uint)) = x"
proof -
  from assms consider "k = 0" | "k = 8" | "k = 16" | "k = 24" by auto
  then show ?thesis
  proof cases
    case 1 then show ?thesis by (intro bit_eqI) (simp add: bit_simps)
  next
    case 2 then show ?thesis by (intro bit_eqI) (auto simp: bit_simps dest: bit_imp_le_length)
  next
    case 3 then show ?thesis by (intro bit_eqI) (auto simp: bit_simps dest: bit_imp_le_length)
  next
    case 4 then show ?thesis by (intro bit_eqI) (auto simp: bit_simps dest: bit_imp_le_length)
  qed
qed

lemma and_FF: "c AND 0xFF = ucast (ucast c :: uchar)" for c :: uint
  by (rule bit_eqI) (auto simp: bit_simps)

lemma memset_eq:
  assumes "unat n \<le> 4294967295"
  shows "memset m dst c n = mwrite m dst (replicate (unat n) (ucast c))"
proof (cases "dst mod 4 = 0 \<and> n mod 4 = 0")
  case True
  have "4 * unat (n div 4) = unat n"
    using True by (simp add: unat_div_distrib flip: unat_eq_zero) (simp add: unat_mod_distrib, presburger)
  moreover have "memset m dst c n = mwrite m dst (replicate (4 * unat (n div 4)) (ucast c))"
    unfolding memset_def and_FF Let_def if_P [OF True] by (intro stosl_eq word_fill_byte)
  ultimately show ?thesis by simp
next
  case False
  then show ?thesis unfolding memset_def by (auto simp: stosb_eq)
qed

lemma copy_forward_apply:
  assumes "n \<le> 4294967296" and "\<And>k. 0 < k \<Longrightarrow> k < n \<Longrightarrow> d \<noteq> s + of_nat k"
  shows "copy_forward m d s n x = (if in_range d n x then m (s + (x - d)) else m x)"
  using assms
proof (induction n arbitrary: m d s)
  case (Suc n)
  let ?m = "m(d := m s)"
  have IH: "copy_forward ?m (d + 1) (s + 1) n x =
      (if in_range (d + 1) n x then ?m (s + 1 + (x - (d + 1))) else ?m x)"
  proof (rule Suc.IH)
    fix k assume "0 < k" "k < n"
    then show "d + 1 \<noteq> s + 1 + of_nat k" using Suc.prems(2) [of k] by (simp add: algebra_simps)
  qed (use Suc.prems in simp)
  have d: "\<not> in_range (d + 1) n d" by (rule in_range_self_succ) (use Suc.prems in simp)
  have "?m (s + 1 + (x - (d + 1))) = m (s + (x - d))" if r: "in_range (d + 1) n x"
  proof -
    from r d have "x \<noteq> d" by auto
    with in_range_pred [OF r] r have k: "0 < unat (x - d)" "unat (x - d) < Suc n"
      by (auto simp: in_range_def)
    from Suc.prems(2) [OF k] have "d \<noteq> s + (x - d)" by simp
    moreover have "s + 1 + (x - (d + 1)) = s + (x - d)" by (simp add: algebra_simps)
    ultimately show ?thesis by (metis fun_upd_apply)
  qed
  with IH d show ?case by (cases "x = d") (auto simp: in_range_Suc)
qed simp

lemma in_range_last:
  assumes "n < 4294967296"
  shows "in_range d (Suc n) x \<longleftrightarrow> in_range d n x \<or> x = d + of_nat n"
proof -
  have "unat (x - d) = n \<longleftrightarrow> x = d + of_nat n"
  proof
    assume "unat (x - d) = n"
    then have "of_nat n = x - d" by auto
    then show "x = d + of_nat n" by simp
  qed (use assms in \<open>simp add: unat_of_nat\<close>)
  then show ?thesis unfolding in_range_def by auto
qed

lemma copy_backward_apply:
  assumes "n \<le> 4294967296" and "\<And>k. 0 < k \<Longrightarrow> k < n \<Longrightarrow> s \<noteq> d + of_nat k"
  shows "copy_backward m (d + of_nat n) (s + of_nat n) n x =
    (if in_range d n x then m (s + (x - d)) else m x)"
  using assms
proof (induction n arbitrary: m)
  case (Suc n)
  let ?m = "m(d + of_nat n := m (s + of_nat n))"
  have n: "n < 4294967296" using Suc.prems(1) by simp
  have IH: "copy_backward ?m (d + of_nat n) (s + of_nat n) n x =
      (if in_range d n x then ?m (s + (x - d)) else ?m x)"
    by (rule Suc.IH) (use Suc.prems in simp_all)
  have un: "unat (of_nat n :: uint) = n" using n by (simp add: unat_of_nat)
  have "?m (s + (x - d)) = m (s + (x - d))" if r: "in_range d n x"
  proof -
    have k: "unat (x - d) < n" using r by (simp add: in_range_def)
    have "s + (x - d) \<noteq> d + of_nat n"
    proof
      assume "s + (x - d) = d + of_nat n"
      then have "s = d + (of_nat n - (x - d))" by (simp add: algebra_simps)
      moreover have "of_nat n - (x - d) = of_nat (n - unat (x - d))"
        using k by (simp add: of_nat_diff)
      moreover have "s \<noteq> d + of_nat (n - unat (x - d))"
        by (rule Suc.prems(2)) (use k in auto)
      ultimately show False by (simp only:)
    qed
    then show ?thesis by simp
  qed
  moreover have "\<not> in_range d n (d + of_nat n)" using un by (simp add: in_range_def)
  moreover have "a + of_nat (Suc n) - 1 = a + of_nat n" for a :: uint by simp
  ultimately show ?case
    using IH by (cases "x = d + of_nat n"; cases "in_range d n x") (simp_all only: copy_backward.simps in_range_last [OF n]
      if_True if_False simp_thms fun_upd_same fun_upd_other add_diff_cancel_left')
qed simp

lemma memmove_apply:
  assumes "unat src + unat n < 4294967296" and "unat dst + unat n \<le> 4294967296"
  shows "memmove m dst src n x = (if in_range dst (unat n) x then m (src + (x - dst)) else m x)"
proof -
  have n: "unat n \<le> 4294967296" using unat_uint_less [of n] by simp
  have sn: "unat (src + n) = unat src + unat n" using assms(1) by (simp add: unat_word_ariths)
  show ?thesis
  proof (cases "src < dst \<and> src + n > dst")
    case True
    have "src \<noteq> dst + of_nat k" if "0 < k" "k < unat n" for k
    proof -
      have "unat (dst + of_nat k) = unat dst + k"
        using that assms(2) by (simp add: unat_word_ariths unat_of_nat)
      with True show ?thesis by (auto simp: word_less_nat_alt)
    qed
    with copy_backward_apply [OF n, of src dst m x] True show ?thesis
      by (simp add: memmove_def)
  next
    case False
    have "dst \<noteq> src + of_nat k" if "0 < k" "k < unat n" for k
    proof -
      have "unat (src + of_nat k) = unat src + k"
        using that assms(1) by (simp add: unat_word_ariths unat_of_nat)
      with False that sn show ?thesis by (auto simp: word_less_nat_alt)
    qed
    with copy_forward_apply [OF n, of dst src m x] False show ?thesis
      unfolding memmove_def by (auto simp only: if_False simp_thms)
  qed
qed


section \<open>Properties\<close>

text \<open>C40. \<open>memmove\<close> copies the source range as it was before the call, also when the ranges overlap.\<close>

theorem memmove_correct:
  assumes "unat src + unat n < 4294967296" and "unat dst + unat n \<le> 4294967296"
  shows "memmove m dst src n x = (if in_range dst (unat n) x then m (src + (x - dst)) else m x)"
  using assms by (rule memmove_apply)

theorem memmove_correct_witness:
  "memmove (\<lambda>a. ucast a) 11 10 4 12 = (11 :: uchar)"
  using memmove_correct [of 10 4 11 "\<lambda>a. ucast a" 12] by (simp add: in_range_def)

text \<open>\<open>memset\<close> with its word-wise fast path writes what the plain byte loop writes.\<close>

lemma memset_bytewise: "memset m dst c n = stosb m dst (ucast c) (unat n)"
proof -
  have "unat n \<le> 4294967295" using unat_uint_less [of n] by simp
  then show ?thesis by (simp add: memset_eq stosb_eq)
qed

lemma cstr_simps [simp]: "cstr [] = []" "cstr (c # s) = (if c = 0 then [] else c # cstr s)"
  by (simp_all add: cstr_def)

lemma strncmp_cstr: "strncmp p q n = 0 \<longleftrightarrow> take n (cstr p) = take n (cstr q)"
proof (induction p q n rule: strncmp.induct)
  case (2 p q n)
  have e: "Word.uint (hd0 p) - Word.uint (hd0 q) = 0 \<longleftrightarrow> hd0 p = hd0 q" by (simp add: word_uint_eq_iff)
  show ?case
  proof (cases "hd0 p \<noteq> 0 \<and> hd0 p = hd0 q")
    case True
    then obtain c p' q' where "p = c # p'" "q = c # q'" "c \<noteq> 0" by (cases p; cases q) auto
    then show ?thesis using 2 True by simp
  next
    case False
    then have "strncmp p q (Suc n) = 0 \<longleftrightarrow> hd0 p = hd0 q" using e by (simp only: strncmp.simps if_False)
    then show ?thesis using False by (cases p; cases q) (auto simp del: strncmp.simps)
  qed
qed simp

text \<open>\<open>strncmp\<close> is zero exactly when the strings agree on their first \<open>n\<close> characters.\<close>

lemma strncmp_zero: "strncmp p q n = 0 \<longleftrightarrow> take n (cstr p) = take n (cstr q)"
  by (rule strncmp_cstr)

lemma safestrcpy_loop_eq: "safestrcpy_loop t n = (if strlen t < n then cstr t @ [0] else take n (cstr t))"
  by (induction t n rule: safestrcpy_loop.induct) (auto split: list.splits simp: hd0_def)

text \<open>
  \<open>safestrcpy\<close> writes at most \<open>n\<close> bytes, always ends them with a zero, and what it leaves is the
  string cut to \<open>n - 1\<close> characters.
\<close>

lemma safestrcpy_terminates:
  assumes "0 < n"
  shows "length (safestrcpy t n) \<le> nat n \<and> last (safestrcpy t n) = 0 \<and> cstr (safestrcpy t n) = take (nat n - 1) (cstr t)"
proof -
  have len: "length (cstr t) = strlen t" by (induction t) auto
  have nz: "0 \<notin> set (cstr t)" by (auto simp: cstr_def dest: set_takeWhileD)
  have app: "0 \<notin> set xs \<Longrightarrow> cstr (xs @ 0 # ys) = xs" for xs ys by (induction xs) auto
  have "nat (n - 1) = nat n - 1" by simp
  then show ?thesis using assms nz len app [of "cstr t" "[0]"] app [of "take (nat n - 1) (cstr t)" "[]"]
    by (auto simp: safestrcpy_def safestrcpy_loop_eq dest: in_set_takeD)
qed

end
