(* ===== verification/Bytes.thy ===== *)
theory Bytes
  imports Strings
begin

text \<open>
  Little-endian 16- and 32-bit fields inside a byte array, as the C code reads and writes them
  through a cast of a buffer's \<open>data\<close> to a structure: the log header, disk inodes, indirect blocks,
  directory entries and the super block.
\<close>

definition le16 :: "ushort \<Rightarrow> uchar list" where
  "le16 w = [ucast w, ucast (drop_bit 8 w)]"

definition le32 :: "uint \<Rightarrow> uchar list" where
  "le32 w = [ucast w, ucast (drop_bit 8 w), ucast (drop_bit 16 w), ucast (drop_bit 24 w)]"

definition get16 :: "uchar list \<Rightarrow> nat \<Rightarrow> ushort" where
  "get16 bs off = ucast (bs ! off) OR push_bit 8 (ucast (bs ! (off + 1)))"

definition get32 :: "uchar list \<Rightarrow> nat \<Rightarrow> uint" where
  "get32 bs off = ucast (bs ! off) OR push_bit 8 (ucast (bs ! (off + 1)))
     OR push_bit 16 (ucast (bs ! (off + 2))) OR push_bit 24 (ucast (bs ! (off + 3)))"

text \<open>\<open>splice bs off xs\<close> is \<open>memmove(bs + off, xs, length xs)\<close> inside an array that keeps its length.\<close>

definition splice :: "'a list \<Rightarrow> nat \<Rightarrow> 'a list \<Rightarrow> 'a list" where
  "splice bs off xs = take off bs @ take (length bs - off) xs @ drop (off + length xs) bs"

definition put16 :: "uchar list \<Rightarrow> nat \<Rightarrow> ushort \<Rightarrow> uchar list" where
  "put16 bs off w = splice bs off (le16 w)"

definition put32 :: "uchar list \<Rightarrow> nat \<Rightarrow> uint \<Rightarrow> uchar list" where
  "put32 bs off w = splice bs off (le32 w)"

definition slice :: "'a list \<Rightarrow> nat \<Rightarrow> nat \<Rightarrow> 'a list" where
  "slice bs off n = take n (drop off bs)"


section \<open>Laws\<close>

lemma length_le [simp]: "length (le16 w) = 2" "length (le32 v) = 4"
  by (simp_all add: le16_def le32_def)

lemma length_splice [simp]: "length (splice bs off xs) = length bs"
  if "off \<le> length bs"
  using that by (auto simp: splice_def min_def)

lemma length_splice_fit [simp]: "off + length xs \<le> length bs \<Longrightarrow> length (splice bs off xs) = length bs"
  by (simp add: splice_def)

lemma splice_nth:
  assumes "off + length xs \<le> length bs" and "i < length bs"
  shows "splice bs off xs ! i = (if off \<le> i \<and> i < off + length xs then xs ! (i - off) else bs ! i)"
  using assms by (auto simp: splice_def nth_append min_def)

lemma slice_splice_same:
  assumes "off + length xs \<le> length bs"
  shows "slice (splice bs off xs) off (length xs) = xs"
  using assms by (simp add: slice_def splice_def)

lemma slice_nth: "off + n \<le> length bs \<Longrightarrow> i < n \<Longrightarrow> slice bs off n ! i = bs ! (off + i)"
  by (simp add: slice_def)

lemma length_slice [simp]: "off + n \<le> length bs \<Longrightarrow> length (slice bs off n) = n"
  by (simp add: slice_def)

lemma slice_splice_other:
  assumes "off + length xs \<le> length bs" and "off' + n \<le> length bs"
    and "off + length xs \<le> off' \<or> off' + n \<le> off"
  shows "slice (splice bs off xs) off' n = slice bs off' n"
proof (rule nth_equalityI)
  show "length (slice (splice bs off xs) off' n) = length (slice bs off' n)"
    using assms by simp
next
  fix i assume "i < length (slice (splice bs off xs) off' n)"
  then have i: "i < n" using assms by simp
  then show "slice (splice bs off xs) off' n ! i = slice bs off' n ! i"
    using assms by (subst slice_nth, simp, simp)+ (auto simp: splice_nth)
qed

lemma w32_of_bytes:
  "(ucast (ucast v :: uchar) OR push_bit 8 (ucast (ucast (drop_bit 8 v) :: uchar))
     OR push_bit 16 (ucast (ucast (drop_bit 16 v) :: uchar))
     OR push_bit 24 (ucast (ucast (drop_bit 24 v) :: uchar))) = (v :: uint)"
  using ld32_st32_same [of "\<lambda>_. 0" 0 v] by (simp add: ld32_def st32_def)

lemma w16_of_bytes:
  "(ucast (ucast v :: uchar) OR push_bit 8 (ucast (ucast (drop_bit 8 v) :: uchar))) = (v :: ushort)"
proof (rule bit_eqI)
  fix n assume "possible_bit TYPE(ushort) n"
  then have "n < 16" by (simp add: possible_bit_def)
  then consider "n < 8" | "8 \<le> n" "n < 16" by linarith
  then show "bit (ucast (ucast v :: uchar) OR push_bit 8 (ucast (ucast (drop_bit 8 v) :: uchar)) :: ushort) n
      = bit v n"
    by cases (auto simp: bit_simps)
qed

lemma get32_put32_same: "off + 4 \<le> length bs \<Longrightarrow> get32 (put32 bs off v) off = v"
  by (simp add: get32_def put32_def splice_nth) (simp add: le32_def w32_of_bytes)

lemma get16_put16_same: "off + 2 \<le> length bs \<Longrightarrow> get16 (put16 bs off v) off = v"
  by (simp add: get16_def put16_def splice_nth) (simp add: le16_def w16_of_bytes)

lemma get32_put32_other:
  "off + 4 \<le> length bs \<Longrightarrow> off' + 4 \<le> length bs \<Longrightarrow> off + 4 \<le> off' \<or> off' + 4 \<le> off \<Longrightarrow>
    get32 (put32 bs off v) off' = get32 bs off'"
  by (auto simp: get32_def put32_def splice_nth)

lemma get32_put16_other:
  "off + 2 \<le> length bs \<Longrightarrow> off' + 4 \<le> length bs \<Longrightarrow> off + 2 \<le> off' \<or> off' + 4 \<le> off \<Longrightarrow>
    get32 (put16 bs off v) off' = get32 bs off'"
  by (auto simp: get32_def put16_def splice_nth)

lemma get16_put32_other:
  "off + 4 \<le> length bs \<Longrightarrow> off' + 2 \<le> length bs \<Longrightarrow> off + 4 \<le> off' \<or> off' + 2 \<le> off \<Longrightarrow>
    get16 (put32 bs off v) off' = get16 bs off'"
  by (auto simp: get16_def put32_def splice_nth)

lemma get16_put16_other:
  "off + 2 \<le> length bs \<Longrightarrow> off' + 2 \<le> length bs \<Longrightarrow> off + 2 \<le> off' \<or> off' + 2 \<le> off \<Longrightarrow>
    get16 (put16 bs off v) off' = get16 bs off'"
  by (auto simp: get16_def put16_def splice_nth)

lemma length_put [simp]:
  "off + 4 \<le> length bs \<Longrightarrow> length (put32 bs off v) = length bs"
  "off + 2 \<le> length bs \<Longrightarrow> length (put16 bs off w) = length bs"
  by (simp_all add: put32_def put16_def)

lemmas field_laws = get32_put32_same get16_put16_same get32_put32_other get32_put16_other
  get16_put32_other get16_put16_other

end
