(* ===== verification/Sleeplock.thy ===== *)
theory Sleeplock
  imports Prelude
begin

text \<open>
  \<^verbatim>\<open>sleeplock.c\<close>: the long-term locks of buffers and inodes. The inner spin lock makes each routine
  one atomic step, so the record keeps the two fields it protects. A call of \<open>acquiresleep\<close> on a lock
  that is taken ends at its \<open>sleep\<close>. The second half of the theory lets processes compete for one
  lock and shows mutual exclusion.
\<close>

record sleeplock =
  sl_locked :: bool
  sl_pid :: int

definition initsleeplock :: sleeplock where
  "initsleeplock = \<lparr>sl_locked = False, sl_pid = 0\<rparr>"

definition acquiresleep :: "wchan \<Rightarrow> int \<Rightarrow> sleeplock \<Rightarrow> kerror + sleeplock" where
  "acquiresleep ch me lk =
    (if sl_locked lk then Inl (Sleep ch) else Inr (lk\<lparr>sl_locked := True, sl_pid := me\<rparr>))"

definition releasesleep :: "wchan \<Rightarrow> sleeplock \<Rightarrow> sleeplock \<times> wchan list" where
  "releasesleep ch lk = (lk\<lparr>sl_locked := False, sl_pid := 0\<rparr>, [ch])"

definition holdingsleep :: "int \<Rightarrow> sleeplock \<Rightarrow> bool" where
  "holdingsleep me lk \<longleftrightarrow> sl_locked lk \<and> sl_pid lk = me"


section \<open>Processes competing for a lock\<close>

text \<open>A process that sleeps does so on a channel.\<close>

datatype waiter = Outside | Blocked wchan | Inside

record lock_sys =
  the_lock :: sleeplock
  where_is :: "int \<Rightarrow> waiter"

definition lock_sys_init :: lock_sys where
  "lock_sys_init = \<lparr>the_lock = initsleeplock, where_is = (\<lambda>_. Outside)\<rparr>"

text \<open>The wakeups on the channels \<open>ws\<close>: a process that sleeps on one of them runs again, the others sleep on.\<close>

fun woken_by :: "wchan list \<Rightarrow> waiter \<Rightarrow> waiter" where
  "woken_by ws (Blocked c) = (if c \<in> set ws then Outside else Blocked c)"
| "woken_by ws w = w"

text \<open>
  One lock with the address \<open>ch\<close>. A process that finds the lock taken sleeps on the channel that \<open>acquiresleep\<close> names. The
  process inside may release the lock, and the wakeups that \<open>releasesleep\<close> asks for take place; a woken process tests the lock
  again (the \<open>while\<close> of \<open>acquiresleep\<close>).
\<close>

inductive lock_step :: "wchan \<Rightarrow> lock_sys \<Rightarrow> lock_sys \<Rightarrow> bool" for ch where
  take: "where_is s p = Outside \<Longrightarrow> acquiresleep ch p (the_lock s) = Inr lk \<Longrightarrow>
    lock_step ch s (s\<lparr>the_lock := lk, where_is := (where_is s)(p := Inside)\<rparr>)"
| block: "where_is s p = Outside \<Longrightarrow> acquiresleep ch p (the_lock s) = Inl (Sleep c) \<Longrightarrow>
    lock_step ch s (s\<lparr>where_is := (where_is s)(p := Blocked c)\<rparr>)"
| leave: "where_is s p = Inside \<Longrightarrow> releasesleep ch (the_lock s) = (lk, ws) \<Longrightarrow>
    lock_step ch s (s\<lparr>the_lock := lk, where_is := (woken_by ws \<circ> where_is s)(p := Outside)\<rparr>)"

inductive lock_reachable :: "wchan \<Rightarrow> lock_sys \<Rightarrow> bool" for ch where
  start: "lock_reachable ch lock_sys_init"
| more: "lock_reachable ch s \<Longrightarrow> lock_step ch s t \<Longrightarrow> lock_reachable ch t"

definition lock_inv :: "wchan \<Rightarrow> lock_sys \<Rightarrow> bool" where
  "lock_inv ch s \<longleftrightarrow> (\<forall>p. where_is s p = Inside \<longleftrightarrow> holdingsleep p (the_lock s))
     \<and> (\<forall>p c. where_is s p = Blocked c \<longrightarrow> c = ch \<and> sl_locked (the_lock s))"

lemma lock_inv_init: "lock_inv ch lock_sys_init"
  by (simp add: lock_inv_def lock_sys_init_def initsleeplock_def holdingsleep_def)

lemma lock_invD: "lock_inv ch s \<Longrightarrow> holdingsleep p (the_lock s) \<longleftrightarrow> where_is s p = Inside"
  by (simp add: lock_inv_def)

lemma woken_by_Blocked: "woken_by ws w = Blocked c \<longleftrightarrow> w = Blocked c \<and> c \<notin> set ws"
  by (cases w) auto

lemma woken_by_Inside: "woken_by ws w = Inside \<longleftrightarrow> w = Inside"
  by (cases w) auto

lemma lock_step_inv: "lock_step ch s t \<Longrightarrow> lock_inv ch s \<Longrightarrow> lock_inv ch t"
proof (induction rule: lock_step.induct)
  case (take s p lk)
  then show ?case by (auto simp: lock_inv_def acquiresleep_def holdingsleep_def split: if_splits)
next
  case (block s p c)
  then have "c = ch" "sl_locked (the_lock s)" by (auto simp: acquiresleep_def split: if_splits)
  moreover have "\<not> holdingsleep p (the_lock s)" using block(1) lock_invD [OF block(3)] by simp
  ultimately show ?case using block(3) by (auto simp: lock_inv_def)
next
  case (leave s p lk ws)
  then have "ws = [ch]" "\<not> sl_locked lk" by (auto simp: releasesleep_def)
  moreover have "where_is s q = Inside \<Longrightarrow> q = p" for q using leave by (auto simp: lock_inv_def holdingsleep_def)
  ultimately show ?case using leave(3) by (auto simp: lock_inv_def holdingsleep_def woken_by_Blocked woken_by_Inside)
qed

lemma lock_reachable_inv: "lock_reachable ch s \<Longrightarrow> lock_inv ch s"
  by (induction rule: lock_reachable.induct) (auto intro: lock_inv_init lock_step_inv)


section \<open>Properties\<close>

text \<open>
  C5. A sleep lock has at most one holder, whatever the order in which processes acquire, sleep, are woken and
  release; and no process sleeps without cause: one that sleeps does so on the channel of the lock and while the lock is held, so
  that the release that wakes it is still to come.
\<close>

theorem sleeplock_mutex:
  assumes "lock_reachable ch s"
  shows "(where_is s p = Inside \<longrightarrow> where_is s q = Inside \<longrightarrow> p = q)
    \<and> (where_is s p = Blocked c \<longrightarrow> c = ch \<and> sl_locked (the_lock s) \<and> (\<exists>h. where_is s h = Inside))"
proof -
  have "lock_inv ch s" using assms by (rule lock_reachable_inv)
  then show ?thesis by (auto simp: lock_inv_def holdingsleep_def)
qed

lemma lock_reachable_example:
  "lock_reachable ch \<lparr>the_lock = \<lparr>sl_locked = True, sl_pid = 1\<rparr>, where_is = (\<lambda>_. Outside)(1 := Inside, 2 := Blocked ch)\<rparr>"
proof -
  let ?lk = "\<lparr>sl_locked = True, sl_pid = 1\<rparr>"
  have "lock_step ch lock_sys_init \<lparr>the_lock = ?lk, where_is = (\<lambda>_. Outside)(1 := Inside)\<rparr>"
    using lock_step.take [of lock_sys_init 1 ch ?lk]
    by (simp add: lock_sys_init_def initsleeplock_def acquiresleep_def)
  from lock_reachable.more [OF lock_reachable.start this]
  have "lock_reachable ch \<lparr>the_lock = ?lk, where_is = (\<lambda>_. Outside)(1 := Inside)\<rparr>" .
  moreover have "lock_step ch \<lparr>the_lock = ?lk, where_is = (\<lambda>_. Outside)(1 := Inside)\<rparr>
      \<lparr>the_lock = ?lk, where_is = (\<lambda>_. Outside)(1 := Inside, 2 := Blocked ch)\<rparr>"
    using lock_step.block [of "\<lparr>the_lock = ?lk, where_is = (\<lambda>_. Outside)(1 := Inside)\<rparr>" 2 ch ch]
    by (simp add: acquiresleep_def)
  ultimately show ?thesis by (rule lock_reachable.more)
qed

theorem sleeplock_mutex_witness:
  "\<exists>s. lock_reachable (ChBuf 7) s \<and> where_is s 1 = Inside \<and> where_is s 2 = Blocked (ChBuf 7) \<and> where_is s 3 \<noteq> Inside \<and> sl_locked (the_lock s)"
proof -
  note r = lock_reachable_example [of "ChBuf 7"]
  show ?thesis
    using sleeplock_mutex [OF r, of 1 3] sleeplock_mutex [OF r, of 2 2 "ChBuf 7"] r by (intro exI conjI) auto
qed

end
