(* ===== verification/Bio.thy ===== *)
theory Bio
  imports Bytes Sleeplock
begin

text \<open>
  \<^verbatim>\<open>bio.c\<close>, the buffer cache, over the disk of \<^verbatim>\<open>memide.c\<close>. Buffers are named by their index in
  \<open>bcache.buf\<close>, the list head \<open>bcache.head\<close> by the index \<open>NBUF\<close>. The doubly linked list is refined to
  the sequence of buffers in most-recently-used order, the cache to the contents of every block.
  \<open>wtrace\<close> is a ghost field: the sequence of writes the disk has received, which the crash analysis
  of the log reads.
\<close>

record buf =
  b_valid :: bool
  b_dirty :: bool
  b_dev :: uint
  b_blockno :: uint
  b_lock :: sleeplock
  b_refcnt :: uint
  b_data :: "uchar list"

record bio =
  mypid :: int
  wakeups :: "wchan list"
  bufs :: "nat \<Rightarrow> buf"
  bnext :: "nat \<Rightarrow> nat"
  bprev :: "nat \<Rightarrow> nat"
  memdisk :: "uint \<Rightarrow> uchar list"
  disksize :: uint
  wtrace :: "(uint \<times> uchar list) list"

definition upd_buf :: "nat \<Rightarrow> (buf \<Rightarrow> buf) \<Rightarrow> bio \<Rightarrow> bio" where
  "upd_buf b f s = s\<lparr>bufs := (bufs s)(b := f (bufs s b))\<rparr>"


section \<open>The disk\<close>

definition ideinit :: "(uint \<Rightarrow> uchar list) \<Rightarrow> uint \<Rightarrow> bio \<Rightarrow> bio" where
  "ideinit fs_img_start fs_img_size s =
    s\<lparr>memdisk := fs_img_start, disksize := fs_img_size div 512\<rparr>"

definition iderw :: "nat \<Rightarrow> bio \<Rightarrow> kerror + bio" where
  "iderw b s =
    (let x = bufs s b; blk = b_blockno x in
     if \<not> holdingsleep (mypid s) (b_lock x) then Inl (Panic ''iderw: buf not locked'')
     else if b_valid x \<and> \<not> b_dirty x then Inl (Panic ''iderw: nothing to do'')
     else if b_dev x \<noteq> 1 then Inl (Panic ''iderw: request not for disk 1'')
     else if b_blockno x \<ge> disksize s then Inl (Panic ''iderw: block out of range'')
     else if b_dirty x then
       Inr (upd_buf b (b_valid_update (\<lambda>_. True))
         (upd_buf b (b_dirty_update (\<lambda>_. False)) s)
           \<lparr>memdisk := (memdisk s)(blk := b_data x), wtrace := wtrace s @ [(blk, b_data x)]\<rparr>)
     else Inr (upd_buf b (\<lambda>x. x\<lparr>b_data := memdisk s blk, b_valid := True\<rparr>) s))"


section \<open>The cache\<close>

definition binit_step :: "nat \<Rightarrow> bio \<Rightarrow> bio" where
  "binit_step b s =
    (let s = s\<lparr>bnext := (bnext s)(b := bnext s NBUF)\<rparr>;
         s = s\<lparr>bprev := (bprev s)(b := NBUF)\<rparr>;
         s = upd_buf b (\<lambda>x. x\<lparr>b_lock := initsleeplock\<rparr>) s;
         s = s\<lparr>bprev := (bprev s)(bnext s NBUF := b)\<rparr>
     in s\<lparr>bnext := (bnext s)(NBUF := b)\<rparr>)"

definition binit :: "bio \<Rightarrow> bio" where
  "binit s = fold binit_step [0..<NBUF]
     (s\<lparr>bprev := (bprev s)(NBUF := NBUF), bnext := (bnext s)(NBUF := NBUF)\<rparr>)"

text \<open>
  The two searches of \<open>bget\<close>: follow the pointers from \<open>b\<close> until the head, stopping at the first
  buffer that satisfies the test. A list that never comes back to the head is a loop that never ends.
\<close>

partial_function (option) bscan :: "(nat \<Rightarrow> nat) \<Rightarrow> (nat \<Rightarrow> bool) \<Rightarrow> nat \<Rightarrow> nat option option" where
  "bscan nxt P b =
    (if b = NBUF then Some None else if P b then Some (Some b) else bscan nxt P (nxt b))"

definition bget :: "uint \<Rightarrow> uint \<Rightarrow> bio \<Rightarrow> kerror + nat \<times> bio" where
  "bget dev blockno s =
    (case bscan (bnext s) (\<lambda>b. b_dev (bufs s b) = dev \<and> b_blockno (bufs s b) = blockno) (bnext s NBUF) of
       None \<Rightarrow> Inl Hang
     | Some (Some b) \<Rightarrow>
         let s = upd_buf b (\<lambda>x. x\<lparr>b_refcnt := b_refcnt x + 1\<rparr>) s in
         bindE (acquiresleep (ChBuf b) (mypid s) (b_lock (bufs s b)))
           (\<lambda>lk. Inr (b, upd_buf b (\<lambda>x. x\<lparr>b_lock := lk\<rparr>) s))
     | Some None \<Rightarrow>
       (case bscan (bprev s) (\<lambda>b. b_refcnt (bufs s b) = 0 \<and> \<not> b_dirty (bufs s b)) (bprev s NBUF) of
          None \<Rightarrow> Inl Hang
        | Some (Some b) \<Rightarrow>
            let s = upd_buf b (\<lambda>x. x\<lparr>b_dev := dev, b_blockno := blockno, b_valid := False,
                                     b_dirty := False, b_refcnt := 1\<rparr>) s in
            bindE (acquiresleep (ChBuf b) (mypid s) (b_lock (bufs s b)))
              (\<lambda>lk. Inr (b, upd_buf b (\<lambda>x. x\<lparr>b_lock := lk\<rparr>) s))
        | Some None \<Rightarrow> Inl (Panic ''bget: no buffers'')))"

definition bread :: "uint \<Rightarrow> uint \<Rightarrow> bio \<Rightarrow> kerror + nat \<times> bio" where
  "bread dev blockno s =
    bindE (bget dev blockno s) (\<lambda>(b, s).
      if \<not> b_valid (bufs s b) then bindE (iderw b s) (\<lambda>s. Inr (b, s)) else Inr (b, s))"

definition bwrite :: "nat \<Rightarrow> bio \<Rightarrow> kerror + bio" where
  "bwrite b s =
    (if \<not> holdingsleep (mypid s) (b_lock (bufs s b)) then Inl (Panic ''bwrite'')
     else iderw b (upd_buf b (b_dirty_update (\<lambda>_. True)) s))"

definition brelse :: "nat \<Rightarrow> bio \<Rightarrow> kerror + bio" where
  "brelse b s =
    (if \<not> holdingsleep (mypid s) (b_lock (bufs s b)) then Inl (Panic ''brelse'')
     else
       let (lk, ws) = releasesleep (ChBuf b) (b_lock (bufs s b));
           s = upd_buf b (\<lambda>x. x\<lparr>b_lock := lk\<rparr>) s\<lparr>wakeups := wakeups s @ ws\<rparr>;
           s = upd_buf b (\<lambda>x. x\<lparr>b_refcnt := b_refcnt x - 1\<rparr>) s
       in Inr (if b_refcnt (bufs s b) = 0 then
           let s = s\<lparr>bprev := (bprev s)(bnext s b := bprev s b)\<rparr>;
               s = s\<lparr>bnext := (bnext s)(bprev s b := bnext s b)\<rparr>;
               s = s\<lparr>bnext := (bnext s)(b := bnext s NBUF)\<rparr>;
               s = s\<lparr>bprev := (bprev s)(b := NBUF)\<rparr>;
               s = s\<lparr>bprev := (bprev s)(bnext s NBUF := b)\<rparr>
           in s\<lparr>bnext := (bnext s)(NBUF := b)\<rparr>
         else s))"


section \<open>The list of buffers\<close>

text \<open>\<open>linked nxt prv a xs b\<close>: from \<open>a\<close>, the pointers lead through \<open>xs\<close> to \<open>b\<close>, and back.\<close>

fun linked :: "(nat \<Rightarrow> nat) \<Rightarrow> (nat \<Rightarrow> nat) \<Rightarrow> nat \<Rightarrow> nat list \<Rightarrow> nat \<Rightarrow> bool" where
  "linked nxt prv a [] b \<longleftrightarrow> nxt a = b \<and> prv b = a"
| "linked nxt prv a (x # xs) b \<longleftrightarrow> nxt a = x \<and> prv x = a \<and> linked nxt prv x xs b"

definition ring :: "bio \<Rightarrow> nat list \<Rightarrow> bool" where
  "ring s xs \<longleftrightarrow> distinct xs \<and> set xs = {..<NBUF} \<and> linked (bnext s) (bprev s) NBUF xs NBUF"

lemma linked_append:
  "linked nxt prv a (xs @ y # ys) b \<longleftrightarrow> linked nxt prv a xs y \<and> linked nxt prv y ys b"
  by (induction xs arbitrary: a) auto

lemma linked_frame_next: "x \<notin> insert a (set xs) \<Longrightarrow> linked (nxt(x := y)) prv a xs b = linked nxt prv a xs b"
  by (induction xs arbitrary: a) auto

lemma linked_frame_prev: "x \<notin> insert b (set xs) \<Longrightarrow> linked nxt (prv(x := y)) a xs b = linked nxt prv a xs b"
  by (induction xs arbitrary: a) auto

lemma linked_first: "linked nxt prv a xs b \<Longrightarrow> nxt a = hd (xs @ [b])"
  by (cases xs) auto

lemma linked_last: "linked nxt prv a xs b \<Longrightarrow> prv b = last (a # xs)"
  by (induction xs arbitrary: a) auto

lemma linked_flip: "linked nxt prv a xs b \<longleftrightarrow> linked prv nxt b (rev xs) a"
  by (induction xs arbitrary: a) (auto simp: linked_append)

text \<open>A search over the list visits the buffers in order and comes back to the head.\<close>

lemma bscan_linked:
  "linked nxt prv a xs NBUF \<Longrightarrow> NBUF \<notin> set xs \<Longrightarrow> bscan nxt P (nxt a) = Some (find P xs)"
  by (induction xs arbitrary: a) (subst bscan.simps; auto)+

lemma bscan_next: "ring s xs \<Longrightarrow> bscan (bnext s) P (bnext s NBUF) = Some (find P xs)"
  by (rule bscan_linked) (auto simp: ring_def)

lemma bscan_prev: "ring s xs \<Longrightarrow> bscan (bprev s) P (bprev s NBUF) = Some (find P (rev xs))"
  by (rule bscan_linked [where prv = "bnext s"]) (auto simp: ring_def linked_flip [of "bprev s"])

text \<open>Unlinking a buffer, and linking it behind the head.\<close>

lemma linked_remove:
  assumes "linked nxt prv a (xs @ x # ys) b" and "distinct (a # xs @ x # ys)" and "b \<notin> set (xs @ x # ys)"
  shows "linked (nxt(prv x := nxt x)) (prv(nxt x := prv x)) a (xs @ ys) b"
proof -
  have l: "linked nxt prv a xs x" "linked nxt prv x ys b" using assms(1) by (auto simp: linked_append)
  have p: "prv x = last (a # xs)" and n: "nxt x = hd (ys @ [b])"
    using l by (auto dest: linked_last linked_first)
  show ?thesis
  proof (cases ys)
    case Nil
    show ?thesis
    proof (cases xs rule: rev_cases)
      case Nil
      with \<open>ys = []\<close> p n show ?thesis by auto
    next
      case (snoc zs z)
      with \<open>ys = []\<close> p n l assms show ?thesis
        by (auto simp: linked_append linked_frame_next linked_frame_prev)
    qed
  next
    case (Cons w ws)
    have w: "linked nxt prv w ws b" using l Cons by auto
    show ?thesis
    proof (cases xs rule: rev_cases)
      case Nil
      with Cons p n w assms show ?thesis by (auto simp: linked_frame_next linked_frame_prev)
    next
      case (snoc zs z)
      with Cons p n w l assms show ?thesis
        by (auto simp: linked_append linked_frame_next linked_frame_prev)
    qed
  qed
qed

lemma linked_insert:
  assumes "linked nxt prv a ys b" and "x \<notin> insert a (insert b (set ys))" and "distinct ys" and "a \<notin> set ys" and "b \<notin> set ys"
  shows "linked (nxt(x := nxt a, a := x)) (prv(x := a, nxt a := x)) a (x # ys) b"
proof (cases ys)
  case Nil
  with assms show ?thesis by auto
next
  case (Cons w ws)
  with assms show ?thesis by (auto simp: linked_frame_next linked_frame_prev)
qed

lemma binit_step_ring:
  assumes "linked (bnext s) (bprev s) NBUF xs NBUF" and "distinct xs" and "b \<notin> set xs" "b < NBUF" "NBUF \<notin> set xs"
  shows "linked (bnext (binit_step b s)) (bprev (binit_step b s)) NBUF (b # xs) NBUF"
  using linked_insert [OF assms(1), of b] assms
  by (simp add: binit_step_def upd_buf_def Let_def)

lemma binit_ring: "ring (binit s) (rev [0..<NBUF])"
proof -
  have "linked (bnext t) (bprev t) NBUF [] NBUF \<Longrightarrow> n \<le> NBUF \<Longrightarrow>
    linked (bnext (fold binit_step [0..<n] t)) (bprev (fold binit_step [0..<n] t)) NBUF (rev [0..<n]) NBUF" for n t
  proof (induction n)
    case (Suc n)
    then show ?case
      using binit_step_ring [of "fold binit_step [0..<n] t" "rev [0..<n]" n] by (simp del: linked.simps)
  qed simp
  from this [of _ NBUF] show ?thesis by (auto simp: ring_def binit_def simp del: upt_rec_numeral)
qed

lemma release_ring:
  assumes "ring s (xs @ b # ys)"
  defines "nxt \<equiv> (bnext s)(bprev s b := bnext s b)" and "prv \<equiv> (bprev s)(bnext s b := bprev s b)"
  assumes "bnext s' = nxt(b := nxt NBUF, NBUF := b)" and "bprev s' = prv(b := NBUF, nxt NBUF := b)"
  shows "ring s' (b # xs @ ys)"
proof -
  have set: "set (xs @ b # ys) = {..<NBUF}" and d: "distinct (xs @ b # ys)"
    and l: "linked (bnext s) (bprev s) NBUF (xs @ b # ys) NBUF"
    using assms(1) by (simp_all add: ring_def)
  have n: "NBUF \<notin> set (xs @ b # ys)" using set by simp
  have "linked nxt prv NBUF (xs @ ys) NBUF"
    unfolding nxt_def prv_def by (rule linked_remove) (use l d n in auto)
  then have "linked (bnext s') (bprev s') NBUF (b # xs @ ys) NBUF"
    unfolding assms(4,5) by (rule linked_insert) (use d n in auto)
  then show ?thesis using set d by (auto simp: ring_def)
qed


section \<open>The cache as a store of blocks\<close>

text \<open>
  \<open>cache_rel s v D H\<close>: the cache \<open>s\<close> holds the contents \<open>v\<close> of the blocks of disk 1, where the blocks of
  \<open>D\<close> are dirty and the current process holds the buffers of the blocks of \<open>H\<close>. For every other block
  \<open>v\<close> is what is on the disk.
\<close>

definition cache_rel :: "bio \<Rightarrow> (uint \<Rightarrow> uchar list) \<Rightarrow> uint set \<Rightarrow> uint set \<Rightarrow> bool" where
  "cache_rel s v D H \<longleftrightarrow> (\<exists>xs. ring s xs) \<and>
    (\<forall>b<NBUF. \<forall>c<NBUF. b_dev (bufs s b) = 1 \<and> b_dev (bufs s c) = 1
       \<and> b_blockno (bufs s b) = b_blockno (bufs s c) \<longrightarrow> b = c) \<and>
    (\<forall>b<NBUF. b_valid (bufs s b) \<longrightarrow> b_dev (bufs s b) = 1 \<and> b_blockno (bufs s b) < disksize s
       \<and> b_data (bufs s b) = v (b_blockno (bufs s b))) \<and>
    (\<forall>b<NBUF. if b_refcnt (bufs s b) = 0 then \<not> sl_locked (b_lock (bufs s b))
       else b_valid (bufs s b) \<and> b_refcnt (bufs s b) = 1 \<and> holdingsleep (mypid s) (b_lock (bufs s b))) \<and>
    (\<forall>b<NBUF. b_dirty (bufs s b) \<longrightarrow> b_valid (bufs s b)) \<and>
    H = (\<lambda>b. b_blockno (bufs s b)) ` {b. b < NBUF \<and> b_refcnt (bufs s b) \<noteq> 0} \<and>
    D = (\<lambda>b. b_blockno (bufs s b)) ` {b. b < NBUF \<and> b_dirty (bufs s b)} \<and>
    (\<forall>k. length (v k) = 512) \<and> (\<forall>k. k \<notin> D \<longrightarrow> k \<notin> H \<longrightarrow> v k = memdisk s k)"

definition buf_of :: "bio \<Rightarrow> nat \<Rightarrow> uint \<Rightarrow> bool" where
  "buf_of s b k \<longleftrightarrow> b < NBUF \<and> b_blockno (bufs s b) = k \<and> b_refcnt (bufs s b) \<noteq> 0"

definition same_disk :: "bio \<Rightarrow> bio \<Rightarrow> bool" where
  "same_disk s t \<longleftrightarrow> memdisk t = memdisk s \<and> disksize t = disksize s \<and> mypid t = mypid s \<and> wtrace t = wtrace s"

lemma cache_relD:
  assumes "cache_rel s v D H"
  shows "\<exists>xs. ring s xs"
    and "b < NBUF \<Longrightarrow> c < NBUF \<Longrightarrow> b_dev (bufs s b) = 1 \<Longrightarrow> b_dev (bufs s c) = 1 \<Longrightarrow>
      b_blockno (bufs s b) = b_blockno (bufs s c) \<Longrightarrow> b = c"
    and "b < NBUF \<Longrightarrow> b_valid (bufs s b) \<Longrightarrow> b_dev (bufs s b) = 1 \<and> b_blockno (bufs s b) < disksize s
       \<and> b_data (bufs s b) = v (b_blockno (bufs s b))"
    and "b < NBUF \<Longrightarrow> b_refcnt (bufs s b) = 0 \<Longrightarrow> \<not> sl_locked (b_lock (bufs s b))"
    and "b < NBUF \<Longrightarrow> b_refcnt (bufs s b) \<noteq> 0 \<Longrightarrow>
      b_valid (bufs s b) \<and> b_refcnt (bufs s b) = 1 \<and> holdingsleep (mypid s) (b_lock (bufs s b))"
    and "b < NBUF \<Longrightarrow> b_dirty (bufs s b) \<Longrightarrow> b_valid (bufs s b)"
    and "H = (\<lambda>b. b_blockno (bufs s b)) ` {b. b < NBUF \<and> b_refcnt (bufs s b) \<noteq> 0}"
    and "D = (\<lambda>b. b_blockno (bufs s b)) ` {b. b < NBUF \<and> b_dirty (bufs s b)}"
    and "length (v k) = 512"
    and "k \<notin> D \<Longrightarrow> k \<notin> H \<Longrightarrow> v k = memdisk s k"
proof -
  note a = assms [unfolded cache_rel_def]
  have r: "b < NBUF \<Longrightarrow> if b_refcnt (bufs s b) = 0 then \<not> sl_locked (b_lock (bufs s b))
       else b_valid (bufs s b) \<and> b_refcnt (bufs s b) = 1 \<and> holdingsleep (mypid s) (b_lock (bufs s b))"
    using a by blast
  show "\<exists>xs. ring s xs" using a by blast
  show "b < NBUF \<Longrightarrow> c < NBUF \<Longrightarrow> b_dev (bufs s b) = 1 \<Longrightarrow> b_dev (bufs s c) = 1 \<Longrightarrow>
      b_blockno (bufs s b) = b_blockno (bufs s c) \<Longrightarrow> b = c" using a by blast
  show "b < NBUF \<Longrightarrow> b_valid (bufs s b) \<Longrightarrow> b_dev (bufs s b) = 1 \<and> b_blockno (bufs s b) < disksize s
       \<and> b_data (bufs s b) = v (b_blockno (bufs s b))" using a by blast
  show "b < NBUF \<Longrightarrow> b_refcnt (bufs s b) = 0 \<Longrightarrow> \<not> sl_locked (b_lock (bufs s b))" using r by (simp split: if_splits)
  show "b < NBUF \<Longrightarrow> b_refcnt (bufs s b) \<noteq> 0 \<Longrightarrow>
      b_valid (bufs s b) \<and> b_refcnt (bufs s b) = 1 \<and> holdingsleep (mypid s) (b_lock (bufs s b))" using r by (simp split: if_splits)
  show "b < NBUF \<Longrightarrow> b_dirty (bufs s b) \<Longrightarrow> b_valid (bufs s b)" using a by blast
  show "H = (\<lambda>b. b_blockno (bufs s b)) ` {b. b < NBUF \<and> b_refcnt (bufs s b) \<noteq> 0}" using a by blast
  show "D = (\<lambda>b. b_blockno (bufs s b)) ` {b. b < NBUF \<and> b_dirty (bufs s b)}" using a by blast
  show "length (v k) = 512" using a by blast
  show "k \<notin> D \<Longrightarrow> k \<notin> H \<Longrightarrow> v k = memdisk s k" using a by blast
qed

lemma buf_of_unique: "cache_rel s v D H \<Longrightarrow> buf_of s b k \<Longrightarrow> buf_of s c k \<Longrightarrow> b = c"
  using cache_relD(2,3,5) [of s v D H b] cache_relD(3,5) [of s v D H c] by (auto simp: buf_of_def)

text \<open>With fewer than \<open>NBUF\<close> blocks dirty or held there is a buffer to recycle.\<close>

lemma free_buffer:
  assumes "cache_rel s v D H" and "card (D \<union> H) < NBUF"
  obtains b where "b < NBUF" "b_refcnt (bufs s b) = 0" "\<not> b_dirty (bufs s b)"
proof -
  let ?k = "\<lambda>b. b_blockno (bufs s b)"
  have "\<exists>b<NBUF. b_refcnt (bufs s b) = 0 \<and> \<not> b_dirty (bufs s b)"
  proof (rule ccontr)
    assume "\<not> ?thesis"
    then have busy: "\<And>b. b < NBUF \<Longrightarrow> b_refcnt (bufs s b) \<noteq> 0 \<or> b_dirty (bufs s b)" by blast
    then have "b_dev (bufs s b) = 1" if "b < NBUF" for b
      using cache_relD(3,5,6) [OF assms(1) that] that by blast
    then have "inj_on ?k {..<NBUF}" by (auto intro!: inj_onI cache_relD(2) [OF assms(1)])
    then have "card (?k ` {..<NBUF}) = NBUF" by (simp add: card_image)
    moreover have "?k ` {..<NBUF} = D \<union> H"
      using busy unfolding cache_relD(7) [OF assms(1)] cache_relD(8) [OF assms(1)] by blast
    ultimately show False using assms(2) by simp
  qed
  then show thesis using that by blast
qed

lemma image_upd:
  assumes "b < n" and "\<And>c. c < n \<Longrightarrow> c \<noteq> b \<Longrightarrow> P c \<Longrightarrow> f c \<noteq> k" and "f b = k \<or> \<not> P b"
    and "\<And>c. c \<noteq> b \<Longrightarrow> g c = f c" "g b = k" "\<And>c. c \<noteq> b \<Longrightarrow> Q c = P c"
  shows "(if Q b then insert k (f ` {c. c < n \<and> P c}) else f ` {c. c < n \<and> P c} - {k})
    = g ` {c. c < (n :: nat) \<and> Q c}"
proof -
  have "g ` {c. c < n \<and> Q c} = (if Q b then {k} else {}) \<union> f ` {c. c < n \<and> c \<noteq> b \<and> P c}"
  proof -
    have "{c. c < n \<and> Q c} = (if Q b then {b} else {}) \<union> {c. c < n \<and> c \<noteq> b \<and> P c}"
      using assms(1,6) by (auto, metis)
    then show ?thesis using assms(4,5) by (auto simp: image_iff)
  qed
  moreover have "f ` {c. c < n \<and> P c} - {k} = f ` {c. c < n \<and> c \<noteq> b \<and> P c} - {k}"
    using assms(3) by auto
  moreover have "k \<notin> f ` {c. c < n \<and> c \<noteq> b \<and> P c}" using assms(2) by auto
  ultimately show ?thesis by (auto split: if_splits)
qed

text \<open>Every operation changes one buffer; this is how the abstraction follows.\<close>

lemma cache_rel_upd:
  assumes R: "cache_rel s v D H" and b: "b < NBUF"
    and s': "bufs s' = (bufs s)(b := x)" "\<exists>xs. ring s' xs" "mypid s' = mypid s" "disksize s' = disksize s"
    and x: "b_dev x = 1" "b_blockno x = k" "k < disksize s" "b_valid x" "b_data x = d" "length d = 512"
    and refx: "if b_refcnt x = 0 then \<not> sl_locked (b_lock x)
      else b_refcnt x = 1 \<and> holdingsleep (mypid s) (b_lock x)"
    and other: "\<And>c. c < NBUF \<Longrightarrow> c \<noteq> b \<Longrightarrow> b_dev (bufs s c) = 1 \<Longrightarrow> b_blockno (bufs s c) \<noteq> k"
    and old: "b_dev (bufs s b) = 1 \<and> b_blockno (bufs s b) = k
      \<or> b_refcnt (bufs s b) = 0 \<and> \<not> b_dirty (bufs s b)"
    and disk: "\<And>j. j \<noteq> k \<Longrightarrow> memdisk s' j = memdisk s j"
      "\<not> b_dirty x \<Longrightarrow> b_refcnt x = 0 \<Longrightarrow> memdisk s' k = d"
  shows "cache_rel s' (v(k := d)) (if b_dirty x then insert k D else D - {k})
    (if b_refcnt x \<noteq> 0 then insert k H else H - {k})"
proof -
  let ?k = "\<lambda>s b. b_blockno (bufs s b)"
  have dev: "b_dev (bufs s c) = 1" if "c < NBUF" "b_refcnt (bufs s c) \<noteq> 0 \<or> b_dirty (bufs s c)" for c
    using cache_relD(3,5,6) [OF R that(1)] that by blast
  have H: "(if b_refcnt x \<noteq> 0 then insert k H else H - {k})
      = ?k s' ` {c. c < NBUF \<and> b_refcnt (bufs s' c) \<noteq> 0}"
  proof -
    have "(if b_refcnt (bufs s' b) \<noteq> 0 then insert k (?k s ` {c. c < NBUF \<and> b_refcnt (bufs s c) \<noteq> 0})
        else ?k s ` {c. c < NBUF \<and> b_refcnt (bufs s c) \<noteq> 0} - {k})
      = ?k s' ` {c. c < NBUF \<and> b_refcnt (bufs s' c) \<noteq> 0}"
      by (rule image_upd) (use b old other dev s'(1) x(2) in auto)
    then show ?thesis using s'(1) by (simp only: cache_relD(7) [OF R, symmetric] fun_upd_same)
  qed
  have D: "(if b_dirty x then insert k D else D - {k}) = ?k s' ` {c. c < NBUF \<and> b_dirty (bufs s' c)}"
  proof -
    have "(if b_dirty (bufs s' b) then insert k (?k s ` {c. c < NBUF \<and> b_dirty (bufs s c)})
        else ?k s ` {c. c < NBUF \<and> b_dirty (bufs s c)} - {k})
      = ?k s' ` {c. c < NBUF \<and> b_dirty (bufs s' c)}"
      by (rule image_upd) (use b old other dev s'(1) x(2) in auto)
    then show ?thesis using s'(1) by (simp only: cache_relD(8) [OF R, symmetric] fun_upd_same)
  qed
  have uniq: "e = c" if "e < NBUF" "c < NBUF" "b_dev (bufs s' e) = 1" "b_dev (bufs s' c) = 1" "?k s' e = ?k s' c" for e c
  proof (rule ccontr)
    assume "e \<noteq> c"
    have kb: "?k s' b = k" and kc: "c \<noteq> b \<Longrightarrow> c < NBUF \<Longrightarrow> b_dev (bufs s' c) = 1 \<Longrightarrow> ?k s' c \<noteq> k" for c
      using x(2) other [of c] by (simp_all add: s'(1))
    show False
    proof (cases "e = b \<or> c = b")
      case True
      with \<open>e \<noteq> c\<close> kb kc [of e] kc [of c] that show False by metis
    next
      case False
      with cache_relD(2) [OF R that(1,2)] that(3-5) \<open>e \<noteq> c\<close> show False by (simp add: s'(1))
    qed
  qed
  have valid: "b_dev (bufs s' c) = 1 \<and> ?k s' c < disksize s' \<and> b_data (bufs s' c) = (v(k := d)) (?k s' c)"
    if "c < NBUF" "b_valid (bufs s' c)" for c
    using that cache_relD(3) [OF R that(1)] other [of c] x s' by (cases "c = b") auto
  have refs: "if b_refcnt (bufs s' c) = 0 then \<not> sl_locked (b_lock (bufs s' c))
      else b_valid (bufs s' c) \<and> b_refcnt (bufs s' c) = 1 \<and> holdingsleep (mypid s') (b_lock (bufs s' c))"
    if "c < NBUF" for c
    using refx x cache_relD(4,5) [OF R that] s' by (cases "c = b") auto
  have dirty: "b_valid (bufs s' c)" if "c < NBUF" "b_dirty (bufs s' c)" for c
    using that x cache_relD(6) [OF R that(1)] s' by (cases "c = b") auto
  have len: "length ((v(k := d)) j) = 512" for j using x cache_relD(9) [OF R] by auto
  have mem: "(v(k := d)) j = memdisk s' j"
    if "j \<notin> (if b_dirty x then insert k D else D - {k})" "j \<notin> (if b_refcnt x \<noteq> 0 then insert k H else H - {k})" for j
    using that disk cache_relD(10) [OF R, of j] by (cases "j = k") (auto split: if_splits)
  show ?thesis
    unfolding cache_rel_def
    by (intro conjI allI impI s'(2) H D len mem) (use uniq valid refs dirty in blast)+
qed

lemma ring_other [simp]:
  "ring (s\<lparr>bufs := B\<rparr>) xs = ring s xs" "ring (s\<lparr>memdisk := M\<rparr>) xs = ring s xs"
  "ring (s\<lparr>wtrace := W\<rparr>) xs = ring s xs"
  by (simp_all add: ring_def)

lemma buf_of_facts:
  assumes "cache_rel s v D H" and "buf_of s b k"
  shows "b < NBUF" "b_dev (bufs s b) = 1" "b_blockno (bufs s b) = k" "k < disksize s" "b_valid (bufs s b)"
    "b_data (bufs s b) = v k" "b_refcnt (bufs s b) = 1" "holdingsleep (mypid s) (b_lock (bufs s b))"
    "b_dirty (bufs s b) \<longleftrightarrow> k \<in> D" "k \<in> H"
    "\<And>c. c < NBUF \<Longrightarrow> c \<noteq> b \<Longrightarrow> b_dev (bufs s c) = 1 \<Longrightarrow> b_blockno (bufs s c) \<noteq> k"
proof -
  have b: "b < NBUF" "b_blockno (bufs s b) = k" "b_refcnt (bufs s b) \<noteq> 0"
    using assms(2) by (auto simp: buf_of_def)
  note r = cache_relD(5) [OF assms(1) b(1,3)]
  then have va: "b_valid (bufs s b)" by simp
  note w = cache_relD(3) [OF assms(1) b(1) va]
  show "b < NBUF" "b_blockno (bufs s b) = k" "b_refcnt (bufs s b) = 1" "b_valid (bufs s b)"
    "holdingsleep (mypid s) (b_lock (bufs s b))" "b_dev (bufs s b) = 1" "k < disksize s"
    "b_data (bufs s b) = v k"
    using b r w by auto
  show other: "\<And>c. c < NBUF \<Longrightarrow> c \<noteq> b \<Longrightarrow> b_dev (bufs s c) = 1 \<Longrightarrow> b_blockno (bufs s c) \<noteq> k"
    using cache_relD(2) [OF assms(1) _ b(1)] w b(2) by metis
  show "k \<in> H" unfolding cache_relD(7) [OF assms(1)] using b by blast
  show "b_dirty (bufs s b) \<longleftrightarrow> k \<in> D"
  proof
    assume "b_dirty (bufs s b)"
    then show "k \<in> D" unfolding cache_relD(8) [OF assms(1)] using b by blast
  next
    assume "k \<in> D"
    then obtain c where c: "c < NBUF" "b_dirty (bufs s c)" "b_blockno (bufs s c) = k"
      unfolding cache_relD(8) [OF assms(1)] by blast
    then have "b_dev (bufs s c) = 1" using cache_relD(3,6) [OF assms(1) c(1)] by blast
    with c other have "c = b" by blast
    with c show "b_dirty (bufs s b)" by simp
  qed
qed


section \<open>What the operations do to the store\<close>

lemma cache_rel_upd_held:
  assumes R: "cache_rel s v D H" and b: "buf_of s b k"
    and s': "bufs s' = (bufs s)(b := x)" "\<exists>xs. ring s' xs" "mypid s' = mypid s" "disksize s' = disksize s"
    and x: "b_dev x = 1" "b_blockno x = k" "b_valid x" "length (b_data x) = 512"
    and refx: "if b_refcnt x = 0 then \<not> sl_locked (b_lock x)
      else b_refcnt x = 1 \<and> holdingsleep (mypid s) (b_lock x)"
    and disk: "\<And>j. j \<noteq> k \<Longrightarrow> memdisk s' j = memdisk s j"
      "\<not> b_dirty x \<Longrightarrow> b_refcnt x = 0 \<Longrightarrow> memdisk s' k = b_data x"
  shows "cache_rel s' (v(k := b_data x)) (if b_dirty x then insert k D else D - {k})
    (if b_refcnt x \<noteq> 0 then insert k H else H - {k})"
proof -
  note f = buf_of_facts [OF R b]
  show ?thesis
    by (rule cache_rel_upd [OF R f(1) s' x(1,2) f(4) x(3) refl x(4) refx _ _ disk])
      (use f(11) in blast, use f(2,3) in blast)
qed

lemma store_rel:
  assumes R: "cache_rel s v D H" and b: "buf_of s b k" and d: "length d = 512"
  shows "cache_rel (upd_buf b (b_data_update (\<lambda>_. d)) s) (v(k := d)) D H"
proof -
  note f = buf_of_facts [OF R b]
  obtain xs where xs: "ring s xs" using cache_relD(1) [OF R] by blast
  let ?x = "(bufs s b)\<lparr>b_data := d\<rparr>"
  have "cache_rel (upd_buf b (b_data_update (\<lambda>_. d)) s) (v(k := b_data ?x))
      (if b_dirty ?x then insert k D else D - {k}) (if b_refcnt ?x \<noteq> 0 then insert k H else H - {k})"
    by (rule cache_rel_upd_held [OF R b]) (use f d xs in \<open>auto simp: upd_buf_def\<close>)
  moreover have "(if b_dirty ?x then insert k D else D - {k}) = D" using f(9) by auto
  moreover have "(if b_refcnt ?x \<noteq> 0 then insert k H else H - {k}) = H" using f(7,10) by auto
  ultimately show ?thesis by simp
qed

lemma mark_rel:
  assumes R: "cache_rel s v D H" and b: "buf_of s b k"
  shows "cache_rel (upd_buf b (b_dirty_update (\<lambda>_. True)) s) v (insert k D) H"
proof -
  note f = buf_of_facts [OF R b]
  obtain xs where xs: "ring s xs" using cache_relD(1) [OF R] by blast
  let ?x = "(bufs s b)\<lparr>b_dirty := True\<rparr>"
  have "cache_rel (upd_buf b (b_dirty_update (\<lambda>_. True)) s) (v(k := b_data ?x))
      (if b_dirty ?x then insert k D else D - {k}) (if b_refcnt ?x \<noteq> 0 then insert k H else H - {k})"
    by (rule cache_rel_upd_held [OF R b])
      (use f cache_relD(9) [OF R] xs in \<open>auto simp: upd_buf_def\<close>)
  moreover have "(if b_refcnt ?x \<noteq> 0 then insert k H else H - {k}) = H" using f(7,10) by auto
  ultimately show ?thesis using f(6) by simp
qed

lemma bwrite_rel:
  assumes R: "cache_rel s v D H" and b: "buf_of s b k"
  obtains s' where "bwrite b s = Inr s'" and "cache_rel s' v (D - {k}) H"
    and "memdisk s' = (memdisk s)(k := v k)" and "wtrace s' = wtrace s @ [(k, v k)]"
    and "disksize s' = disksize s" and "mypid s' = mypid s" and "buf_of s' = buf_of s"
proof -
  note f = buf_of_facts [OF R b]
  obtain xs where xs: "ring s xs" using cache_relD(1) [OF R] by blast
  let ?x = "(bufs s b)\<lparr>b_dirty := False, b_valid := True\<rparr>"
  let ?s = "s\<lparr>bufs := (bufs s)(b := ?x), memdisk := (memdisk s)(k := v k), wtrace := wtrace s @ [(k, v k)]\<rparr>"
  have eq: "bwrite b s = Inr ?s"
    using f by (simp add: bwrite_def iderw_def upd_buf_def Let_def not_le)
  have "cache_rel ?s (v(k := b_data ?x))
      (if b_dirty ?x then insert k D else D - {k}) (if b_refcnt ?x \<noteq> 0 then insert k H else H - {k})"
    by (rule cache_rel_upd_held [OF R b])
      (use f cache_relD(9) [OF R] xs in \<open>auto simp: upd_buf_def\<close>)
  moreover have "(if b_refcnt ?x \<noteq> 0 then insert k H else H - {k}) = H" using f(7,10) by auto
  ultimately have "cache_rel ?s v (D - {k}) H" using f(6) by simp
  then show thesis by (rule that [OF eq]) (auto simp: buf_of_def fun_eq_iff)
qed

lemma brelse_rel:
  assumes R: "cache_rel s v D H" and b: "buf_of s b k" and clean: "k \<in> D \<or> v k = memdisk s k"
  obtains s' where "brelse b s = Inr s'" and "cache_rel s' v D (H - {k})" and "same_disk s s'"
    and "\<And>c j. c \<noteq> b \<Longrightarrow> buf_of s' c j = buf_of s c j"
proof -
  note f = buf_of_facts [OF R b]
  obtain xs where xs: "ring s xs" using cache_relD(1) [OF R] by blast
  then have "b \<in> set xs" using f(1) by (simp add: ring_def)
  then obtain ys zs where split: "xs = ys @ b # zs" by (meson split_list)
  let ?x = "(bufs s b)\<lparr>b_lock := (b_lock (bufs s b))\<lparr>sl_locked := False, sl_pid := 0\<rparr>, b_refcnt := 0\<rparr>"
  let ?n = "(bnext s)(bprev s b := bnext s b)" and ?p = "(bprev s)(bnext s b := bprev s b)"
  define s' where "s' = s\<lparr>bufs := (bufs s)(b := ?x), wakeups := wakeups s @ [ChBuf b],
    bnext := ?n(b := ?n NBUF, NBUF := b), bprev := ?p(b := NBUF, ?n NBUF := b)\<rparr>"
  have nb: "bnext s b \<noteq> b"
  proof -
    have "linked (bnext s) (bprev s) b zs NBUF" using xs split by (simp add: ring_def linked_append)
    then have "bnext s b = hd (zs @ [NBUF])" by (rule linked_first)
    then show "bnext s b \<noteq> b" using xs split f(1) by (cases zs) (auto simp: ring_def)
  qed
  have eq: "brelse b s = Inr s'"
    using f(1,7,8) nb by (simp add: brelse_def releasesleep_def upd_buf_def Let_def s'_def)
  have s': "bufs s' = (bufs s)(b := ?x)" "same_disk s s'" by (simp_all add: s'_def same_disk_def)
  have n: "bnext s' = ?n(b := ?n NBUF, NBUF := b)" and p: "bprev s' = ?p(b := NBUF, ?n NBUF := b)"
    by (simp_all add: s'_def)
  have ring': "\<exists>xs. ring s' xs" using release_ring [OF xs [unfolded split] n p] by blast
  have "cache_rel s' (v(k := b_data ?x))
      (if b_dirty ?x then insert k D else D - {k}) (if b_refcnt ?x \<noteq> 0 then insert k H else H - {k})"
    by (rule cache_rel_upd_held [OF R b s'(1) ring'])
      (use f cache_relD(9) [OF R] s'(2) clean in \<open>auto simp: same_disk_def\<close>)
  moreover have "(if b_dirty ?x then insert k D else D - {k}) = D" using f(9) by auto
  ultimately have "cache_rel s' v D (H - {k})" using f(6) by simp
  then show thesis by (rule that [OF eq _ s'(2)]) (auto simp: buf_of_def s'(1))
qed

text \<open>\<open>bget\<close> on a block nobody holds: the cached buffer, or the least recently used one that is free.\<close>

lemma bget_rel:
  assumes R: "cache_rel s v D H" and "k \<notin> H" and "k \<in> D \<or> card (D \<union> H) < NBUF"
  obtains b x where "b < NBUF"
    and "bget 1 k s = Inr (b, s\<lparr>bufs := (bufs s)(b := x)\<rparr>)"
    and "b_dev x = 1" "b_blockno x = k" "b_refcnt x = 1" "holdingsleep (mypid s) (b_lock x)"
    and "b_valid x \<longrightarrow> b_data x = v k \<and> k < disksize s" "b_dirty x \<longleftrightarrow> k \<in> D" "b_dirty x \<longrightarrow> b_valid x"
    and "b_dev (bufs s b) = 1 \<and> b_blockno (bufs s b) = k \<or> b_refcnt (bufs s b) = 0 \<and> \<not> b_dirty (bufs s b)"
    and "\<forall>c<NBUF. c \<noteq> b \<longrightarrow> b_dev (bufs s c) = 1 \<longrightarrow> b_blockno (bufs s c) \<noteq> k"
    and "b_refcnt (bufs s b) = 0"
proof -
  obtain xs where xs: "ring s xs" using cache_relD(1) [OF R] by blast
  then have set: "set xs = {..<NBUF}" by (simp add: ring_def)
  let ?P = "\<lambda>b. b_dev (bufs s b) = 1 \<and> b_blockno (bufs s b) = k"
  show thesis
  proof (cases "find ?P xs")
    case (Some b)
    then have b: "b < NBUF" "?P b" using set by (auto simp: find_Some_iff)
    have r0: "b_refcnt (bufs s b) = 0" using assms(2) b cache_relD(7) [OF R] by blast
    have un: "\<not> sl_locked (b_lock (bufs s b))" using cache_relD(4) [OF R b(1) r0] .
    have other: "b_blockno (bufs s c) \<noteq> k" if "c < NBUF" "c \<noteq> b" "b_dev (bufs s c) = 1" for c
      using cache_relD(2) [OF R that(1) b(1)] that b by metis
    have D: "b_dirty (bufs s b) \<longleftrightarrow> k \<in> D"
    proof
      assume "k \<in> D"
      then obtain c where c: "c < NBUF" "b_dirty (bufs s c)" "b_blockno (bufs s c) = k"
        unfolding cache_relD(8) [OF R] by blast
      then have "b_dev (bufs s c) = 1" using cache_relD(3,6) [OF R c(1)] by blast
      with c other show "b_dirty (bufs s b)" by metis
    qed (use b cache_relD(8) [OF R] in blast)
    let ?x = "(bufs s b)\<lparr>b_refcnt := 1, b_lock := (b_lock (bufs s b))\<lparr>sl_locked := True, sl_pid := mypid s\<rparr>\<rparr>"
    have "bget 1 k s = Inr (b, s\<lparr>bufs := (bufs s)(b := ?x)\<rparr>)"
      using un r0 by (simp add: bget_def bscan_next [OF xs] Some upd_buf_def acquiresleep_def)
    then show thesis
      by (rule that [OF b(1)])
        (use b r0 D other cache_relD(3,6) [OF R b(1)] in \<open>auto simp: holdingsleep_def\<close>)
  next
    case None
    then have none: "b_blockno (bufs s c) \<noteq> k" if "c < NBUF" "b_dev (bufs s c) = 1" for c
      using that set by (auto simp: find_None_iff)
    have D: "k \<notin> D"
    proof
      assume "k \<in> D"
      then obtain c where c: "c < NBUF" "b_dirty (bufs s c)" "b_blockno (bufs s c) = k"
        unfolding cache_relD(8) [OF R] by blast
      then have "b_dev (bufs s c) = 1" using cache_relD(3,6) [OF R c(1)] by blast
      with c none show False by blast
    qed
    let ?F = "\<lambda>b. b_refcnt (bufs s b) = 0 \<and> \<not> b_dirty (bufs s b)"
    obtain f where "f < NBUF" "?F f" using free_buffer [OF R] assms(3) D by blast
    then obtain b where find: "find ?F (rev xs) = Some b" using set by (cases "find ?F (rev xs)") (auto simp: find_None_iff)
    then have "b \<in> set (rev xs)" and F: "?F b" unfolding find_Some_iff by (metis nth_mem, metis)
    then have b: "b < NBUF" using set by simp
    have un: "\<not> sl_locked (b_lock (bufs s b))" using cache_relD(4) [OF R b] F by blast
    let ?x = "(bufs s b)\<lparr>b_dev := 1, b_blockno := k, b_valid := False, b_dirty := False, b_refcnt := 1,
      b_lock := (b_lock (bufs s b))\<lparr>sl_locked := True, sl_pid := mypid s\<rparr>\<rparr>"
    have "bget 1 k s = Inr (b, s\<lparr>bufs := (bufs s)(b := ?x)\<rparr>)"
      using un by (simp add: bget_def bscan_next [OF xs] bscan_prev [OF xs] None find upd_buf_def acquiresleep_def)
    then show thesis
      by (rule that [OF b]) (use F D none in \<open>auto simp: holdingsleep_def\<close>)
  qed
qed

text \<open>When every buffer is dirty, a block that is not cached cannot be read.\<close>

lemma bget_full:
  assumes R: "cache_rel s v D H" and full: "card D = NBUF" and k: "k \<notin> D"
  shows "bget 1 k s = Inl (Panic ''bget: no buffers'')"
proof -
  let ?d = "{b. b < NBUF \<and> b_dirty (bufs s b)}"
  obtain xs where xs: "ring s xs" using cache_relD(1) [OF R] by blast
  then have set: "set xs = {..<NBUF}" by (simp add: ring_def)
  have sub: "?d \<subseteq> {..<NBUF}" by auto
  have "NBUF \<le> card ?d"
    using full card_image_le [of ?d "\<lambda>b. b_blockno (bufs s b)"] finite_subset [OF sub]
    unfolding cache_relD(8) [OF R] by simp
  then have "?d = {..<NBUF}" using sub by (intro card_seteq) auto
  then have dirty: "b_dirty (bufs s b)" if "b < NBUF" for b using that by blast
  have "b_blockno (bufs s b) \<noteq> k" if "b < NBUF" for b
    using k dirty [OF that] that unfolding cache_relD(8) [OF R] by blast
  then have "find (\<lambda>b. b_dev (bufs s b) = 1 \<and> b_blockno (bufs s b) = k) xs = None"
    using set by (auto simp: find_None_iff)
  moreover have "find (\<lambda>b. b_refcnt (bufs s b) = 0 \<and> \<not> b_dirty (bufs s b)) (rev xs) = None"
    using set dirty by (auto simp: find_None_iff)
  ultimately show ?thesis by (simp add: bget_def bscan_next [OF xs] bscan_prev [OF xs])
qed

lemma bread_rel:
  assumes R: "cache_rel s v D H" and "k \<notin> H" and "k \<in> D \<or> card (D \<union> H) < NBUF" and k: "k < disksize s"
  obtains b s' where "bread 1 k s = Inr (b, s')" and "cache_rel s' v D (insert k H)" and "buf_of s' b k"
    and "same_disk s s'" and "\<And>c j. buf_of s c j \<Longrightarrow> buf_of s' c j \<and> c \<noteq> b" and "b_data (bufs s' b) = v k"
proof -
  obtain b x where g: "b < NBUF" "bget 1 k s = Inr (b, s\<lparr>bufs := (bufs s)(b := x)\<rparr>)"
    "b_dev x = 1" "b_blockno x = k" "b_refcnt x = 1" "holdingsleep (mypid s) (b_lock x)"
    "b_valid x \<longrightarrow> b_data x = v k \<and> k < disksize s" "b_dirty x \<longleftrightarrow> k \<in> D" "b_dirty x \<longrightarrow> b_valid x"
    "b_dev (bufs s b) = 1 \<and> b_blockno (bufs s b) = k \<or> b_refcnt (bufs s b) = 0 \<and> \<not> b_dirty (bufs s b)"
    "\<forall>c<NBUF. c \<noteq> b \<longrightarrow> b_dev (bufs s c) = 1 \<longrightarrow> b_blockno (bufs s c) \<noteq> k"
    "b_refcnt (bufs s b) = 0"
    by (rule bget_rel [OF assms(1-3)]) (rule that)
  obtain xs where xs: "ring s xs" using cache_relD(1) [OF R] by blast
  define y where "y = (if b_valid x then x else x\<lparr>b_data := v k, b_valid := True\<rparr>)"
  let ?s = "s\<lparr>bufs := (bufs s)(b := y)\<rparr>"
  have y: "b_dev y = 1" "b_blockno y = k" "b_refcnt y = 1" "holdingsleep (mypid s) (b_lock y)"
    "b_valid y" "b_data y = v k" "b_dirty y \<longleftrightarrow> k \<in> D"
    using g(3-8) by (auto simp: y_def)
  have "v k = memdisk s k" if "\<not> b_valid x"
    using that g(8,9) cache_relD(10) [OF R] assms(2) by blast
  then have eq: "bread 1 k s = Inr (b, ?s)"
    using g k by (auto simp: bread_def iderw_def y_def upd_buf_def Let_def not_le)
  have "cache_rel ?s (v(k := v k)) (if b_dirty y then insert k D else D - {k})
      (if b_refcnt y \<noteq> 0 then insert k H else H - {k})"
    by (rule cache_rel_upd [OF R g(1) _ _ _ _ y(1,2) k y(5,6)])
      (use xs y g(10,11) cache_relD(9) [OF R] in auto)
  moreover have "(if b_dirty y then insert k D else D - {k}) = D" using y(7) by auto
  ultimately have "cache_rel ?s v D (insert k H)" using y(3) by simp
  then show thesis
    by (rule that [OF eq]) (use g(1,12) y in \<open>auto simp: buf_of_def same_disk_def\<close>)
qed

text \<open>After \<open>binit\<close> the cache is empty and every block is what the disk holds.\<close>

definition zero_buf :: buf where
  "zero_buf = \<lparr>b_valid = False, b_dirty = False, b_dev = 0, b_blockno = 0, b_lock = initsleeplock,
     b_refcnt = 0, b_data = replicate 512 0\<rparr>"

lemma binit_step_other [simp]:
  "memdisk (binit_step b s) = memdisk s" "disksize (binit_step b s) = disksize s"
  "mypid (binit_step b s) = mypid s" "wtrace (binit_step b s) = wtrace s"
  "bufs s = (\<lambda>_. zero_buf) \<Longrightarrow> bufs (binit_step b s) = (\<lambda>_. zero_buf)"
  by (auto simp: binit_step_def upd_buf_def Let_def zero_buf_def)

lemma binit_other:
  assumes "bufs s = (\<lambda>_. zero_buf)"
  shows "same_disk s (binit s)" and "bufs (binit s) = (\<lambda>_. zero_buf)"
proof -
  have "same_disk t (fold binit_step bs t) \<and> bufs (fold binit_step bs t) = (\<lambda>_. zero_buf)"
    if "bufs t = (\<lambda>_. zero_buf)" for bs t
    using that by (induction bs arbitrary: t) (simp_all add: same_disk_def)
  from this [of "s\<lparr>bprev := (bprev s)(NBUF := NBUF), bnext := (bnext s)(NBUF := NBUF)\<rparr>" "[0..<NBUF]"] assms
  show "same_disk s (binit s)" and "bufs (binit s) = (\<lambda>_. zero_buf)"
    by (simp_all add: binit_def same_disk_def)
qed

lemma binit_rel:
  assumes "bufs s = (\<lambda>_. zero_buf)" and "\<And>k. length (memdisk s k) = 512"
  shows "cache_rel (binit s) (memdisk s) {} {}"
  unfolding cache_rel_def using binit_ring [of s] binit_other [OF assms(1)] assms(2)
  by (auto simp: zero_buf_def initsleeplock_def same_disk_def)


section \<open>The interface to the log and the file system\<close>

locale block_cache =
  fixes rel :: "'s \<Rightarrow> (uint \<Rightarrow> uchar list) \<Rightarrow> uint set \<Rightarrow> uint set \<Rightarrow> bool"
    and holds :: "'s \<Rightarrow> nat \<Rightarrow> uint \<Rightarrow> bool"
    and frame :: "'s \<Rightarrow> 's \<Rightarrow> bool"
    and disk :: "'s \<Rightarrow> uint \<Rightarrow> uchar list"
    and limit :: "'s \<Rightarrow> uint"
    and trace :: "'s \<Rightarrow> (uint \<times> uchar list) list"
    and contents :: "'s \<Rightarrow> nat \<Rightarrow> uchar list"
    and rd :: "uint \<Rightarrow> 's \<Rightarrow> kerror + nat \<times> 's"
    and put :: "nat \<Rightarrow> uchar list \<Rightarrow> 's \<Rightarrow> 's"
    and wr :: "nat \<Rightarrow> 's \<Rightarrow> kerror + 's"
    and rls :: "nat \<Rightarrow> 's \<Rightarrow> kerror + 's"
  assumes frame_disk: "frame s t \<Longrightarrow> disk t = disk s \<and> limit t = limit s \<and> trace t = trace s"
    and read_ok: "rel s v D H \<Longrightarrow> k \<notin> H \<Longrightarrow> k \<in> D \<or> card (D \<union> H) < NBUF \<Longrightarrow> k < limit s \<Longrightarrow>
      \<exists>b t. rd k s = Inr (b, t) \<and> rel t v D (insert k H) \<and> holds t b k \<and> frame s t
        \<and> (\<forall>c j. holds s c j \<longrightarrow> holds t c j \<and> c \<noteq> b)"
    and contents_ok: "rel s v D H \<Longrightarrow> holds s b k \<Longrightarrow> contents s b = v k \<and> k \<in> H"
    and store_ok: "rel s v D H \<Longrightarrow> holds s b k \<Longrightarrow> length d = 512 \<Longrightarrow>
      rel (put b d s) (v(k := d)) D H \<and> frame s (put b d s) \<and> holds (put b d s) = holds s"
    and wr_ok: "rel s v D H \<Longrightarrow> holds s b k \<Longrightarrow>
      \<exists>t. wr b s = Inr t \<and> rel t v (D - {k}) H \<and> disk t = (disk s)(k := v k)
        \<and> trace t = trace s @ [(k, v k)] \<and> limit t = limit s \<and> holds t = holds s"
    and rls_ok: "rel s v D H \<Longrightarrow> holds s b k \<Longrightarrow> k \<in> D \<or> v k = disk s k \<Longrightarrow>
      \<exists>t. rls b s = Inr t \<and> rel t v D (H - {k}) \<and> frame s t
        \<and> (\<forall>c j. c \<noteq> b \<longrightarrow> holds t c j = holds s c j)"
    and length_ok: "rel s v D H \<Longrightarrow> length (v k) = 512"
    and clean_ok: "rel s v D H \<Longrightarrow> k \<notin> D \<Longrightarrow> k \<notin> H \<Longrightarrow> v k = disk s k"
begin

text \<open>Read a block and release it.\<close>

lemma read_block:
  assumes "rel s v D H" "k \<notin> H" "k \<in> D \<or> card (D \<union> H) < NBUF" "k < limit s"
  shows "\<exists>b s1 s2. rd k s = Inr (b, s1) \<and> contents s1 b = v k \<and> rls b s1 = Inr s2 \<and> rel s2 v D H
    \<and> disk s2 = disk s \<and> trace s2 = trace s \<and> limit s2 = limit s"
proof -
  obtain b s1 where s1: "rd k s = Inr (b, s1)" "rel s1 v D (insert k H)" "holds s1 b k" "frame s s1"
    using read_ok [OF assms] by blast
  have "k \<in> D \<or> v k = disk s1 k"
    using clean_ok [OF assms(1) _ assms(2)] frame_disk [OF s1(4)] by auto
  then obtain s2 where s2: "rls b s1 = Inr s2" "rel s2 v D (insert k H - {k})" "frame s1 s2"
    using rls_ok [OF s1(2,3)] by blast
  have "insert k H - {k} = H" using assms(2) by blast
  with s1 s2 frame_disk [OF s1(4)] frame_disk [OF s2(3)] contents_ok [OF s1(2,3)] show ?thesis by auto
qed

text \<open>Read a block, change it, wr it through, rls it.\<close>

lemma update_block:
  assumes "rel s v D H" "k \<notin> H" "k \<in> D \<or> card (D \<union> H) < NBUF" "k < limit s" "length (f (v k)) = 512"
  shows "\<exists>b s1 s2 s3. rd k s = Inr (b, s1) \<and> contents s1 b = v k
    \<and> wr b (put b (f (v k)) s1) = Inr s2 \<and> rls b s2 = Inr s3
    \<and> rel s3 (v(k := f (v k))) (D - {k}) H \<and> disk s3 = (disk s)(k := f (v k))
    \<and> trace s3 = trace s @ [(k, f (v k))] \<and> limit s3 = limit s"
proof -
  let ?v = "v(k := f (v k))"
  obtain b s1 where s1: "rd k s = Inr (b, s1)" "rel s1 v D (insert k H)" "holds s1 b k" "frame s s1"
    using read_ok [OF assms(1-4)] by blast
  note st = store_ok [OF s1(2,3) assms(5)]
  obtain s2 where s2: "wr b (put b (f (v k)) s1) = Inr s2" "rel s2 ?v (D - {k}) (insert k H)"
    "disk s2 = (disk (put b (f (v k)) s1))(k := ?v k)" "trace s2 = trace (put b (f (v k)) s1) @ [(k, ?v k)]"
    "limit s2 = limit (put b (f (v k)) s1)" "holds s2 b k"
    using wr_ok [of "put b (f (v k)) s1" ?v D "insert k H" b k] st s1(3) by metis
  obtain s3 where s3: "rls b s2 = Inr s3" "rel s3 ?v (D - {k}) (insert k H - {k})" "frame s2 s3"
    using rls_ok [OF s2(2,6)] s2(3) by auto
  have "insert k H - {k} = H" using assms(2) by blast
  with s1 s2 s3 st frame_disk [OF s1(4)] frame_disk [OF s3(3)] frame_disk [of s1 "put b (f (v k)) s1"]
    contents_ok [OF s1(2,3)] show ?thesis by auto
qed

text \<open>Copy one held block over another, write it through, release both.\<close>

lemma copy_held:
  assumes R: "rel s v D H" and j: "holds s lb j" and k: "holds s db k" and "j \<noteq> k" and "lb \<noteq> db"
    and clean: "j \<in> D \<or> v j = disk s j"
  shows "\<exists>s2 s3 s4. wr db (put db (contents s lb) s) = Inr s2 \<and> rls lb s2 = Inr s3 \<and> rls db s3 = Inr s4
    \<and> rel s4 (v(k := v j)) (D - {k}) (H - {j} - {k}) \<and> disk s4 = (disk s)(k := v j)
    \<and> trace s4 = trace s @ [(k, v j)] \<and> limit s4 = limit s"
proof -
  let ?v = "v(k := v j)" and ?s1 = "put db (v j) s"
  have c: "contents s lb = v j" using contents_ok [OF R j] by simp
  have s1: "rel ?s1 ?v D H" "frame s ?s1" "holds ?s1 = holds s"
    using store_ok [OF R k length_ok [OF R, of j]] by simp_all
  obtain s2 where s2: "wr db ?s1 = Inr s2" "rel s2 ?v (D - {k}) H" "disk s2 = (disk ?s1)(k := ?v k)"
    "trace s2 = trace ?s1 @ [(k, ?v k)]" "limit s2 = limit ?s1" "holds s2 = holds s"
    using wr_ok [OF s1(1), of db k] s1(3) k by auto
  have "j \<in> D - {k} \<or> ?v j = disk s2 j"
    using clean assms(4) s2(3) frame_disk [OF s1(2)] by auto
  then obtain s3 where s3: "rls lb s2 = Inr s3" "rel s3 ?v (D - {k}) (H - {j})" "frame s2 s3" "holds s3 db k"
    using rls_ok [OF s2(2), of lb j] j k assms(5) s2(6) by auto
  have "?v k = disk s3 k" using s2(3) frame_disk [OF s3(3)] by simp
  then obtain s4 where s4: "rls db s3 = Inr s4" "rel s4 ?v (D - {k}) (H - {j} - {k})" "frame s3 s4"
    using rls_ok [OF s3(2,4)] by auto
  show ?thesis
    using c s2 s3 s4 frame_disk [OF s1(2)] frame_disk [OF s3(3)] frame_disk [OF s4(3)] by auto
qed

lemma copy_block:
  assumes R: "rel s v D H" and "j \<notin> H" "k \<notin> H" "j \<noteq> k" and room: "card (D \<union> H) + 1 < NBUF \<or> card (D \<union> H) < NBUF \<and> (j \<in> D \<or> k \<in> D)"
    and fin: "finite (D \<union> H)"
    and "j < limit s" "k < limit s" and "j \<in> D \<or> v j = disk s j"
  shows "\<exists>lb s1 db s2 s3 s4 s5. rd j s = Inr (lb, s1) \<and> rd k s1 = Inr (db, s2)
      \<and> wr db (put db (contents s2 lb) s2) = Inr s3 \<and> rls lb s3 = Inr s4 \<and> rls db s4 = Inr s5
      \<and> rel s5 (v(k := v j)) (D - {k}) H \<and> disk s5 = (disk s)(k := v j)
      \<and> trace s5 = trace s @ [(k, v j)] \<and> limit s5 = limit s" (is ?A)
    and "\<exists>lb s1 db s2 s3 s4 s5. rd k s = Inr (db, s1) \<and> rd j s1 = Inr (lb, s2)
      \<and> wr db (put db (contents s2 lb) s2) = Inr s3 \<and> rls lb s3 = Inr s4 \<and> rls db s4 = Inr s5
      \<and> rel s5 (v(k := v j)) (D - {k}) H \<and> disk s5 = (disk s)(k := v j)
      \<and> trace s5 = trace s @ [(k, v j)] \<and> limit s5 = limit s" (is ?B)
proof -
  have two: "\<exists>b1 s1 b2 s2. rd i s = Inr (b1, s1) \<and> rd l s1 = Inr (b2, s2) \<and> rel s2 v D (insert l (insert i H))
      \<and> holds s2 b1 i \<and> holds s2 b2 l \<and> b1 \<noteq> b2 \<and> frame s s1 \<and> frame s1 s2"
    if il: "i \<notin> H" "l \<notin> H" "i \<noteq> l" "i < limit s" "l < limit s" "i \<in> D \<or> l \<in> D \<or> \<not> (j \<in> D \<or> k \<in> D)" for i l
  proof -
    have c1: "i \<in> D \<or> card (D \<union> H) < NBUF" using room by auto
    obtain b1 s1 where s1: "rd i s = Inr (b1, s1)" "rel s1 v D (insert i H)" "holds s1 b1 i" "frame s s1"
      using read_ok [OF R il(1) c1 il(4)] by blast
    have "l \<in> D \<or> card (D \<union> insert i H) < NBUF"
      using room fin il(6) by (auto simp: card_insert_if insert_absorb)
    moreover have "l \<notin> insert i H" "l < limit s1" using il frame_disk [OF s1(4)] by auto
    ultimately obtain b2 s2 where "rd l s1 = Inr (b2, s2)" "rel s2 v D (insert l (insert i H))" "holds s2 b2 l"
      "frame s1 s2" "\<forall>c j. holds s1 c j \<longrightarrow> holds s2 c j \<and> c \<noteq> b2"
      using read_ok [OF s1(2), of l] by blast
    with s1 show ?thesis by blast
  qed
  have H: "insert k (insert j H) - {j} - {k} = H" "insert j (insert k H) - {j} - {k} = H"
    using assms(2,3) by auto
  show ?A
  proof -
    obtain lb s1 db s2 where "rd j s = Inr (lb, s1)" "rd k s1 = Inr (db, s2)" "rel s2 v D (insert k (insert j H))"
      "holds s2 lb j" "holds s2 db k" "lb \<noteq> db" "frame s s1" "frame s1 s2"
      using two [OF assms(2,3,4,7,8)] by blast
    with copy_held [of s2 v D "insert k (insert j H)" lb j db k] assms(4,9) frame_disk [of s s1] frame_disk [of s1 s2]
    show ?A unfolding H by (auto; metis)
  qed
  show ?B
  proof -
    obtain lb s1 db s2 where "rd k s = Inr (db, s1)" "rd j s1 = Inr (lb, s2)" "rel s2 v D (insert j (insert k H))"
      "holds s2 lb j" "holds s2 db k" "lb \<noteq> db" "frame s s1" "frame s1 s2"
      using two [OF assms(3,2) assms(4) [symmetric] assms(8,7)] by blast
    with copy_held [of s2 v D "insert j (insert k H)" lb j db k] assms(4,9) frame_disk [of s s1] frame_disk [of s1 s2]
    show ?B unfolding H by (auto; metis)
  qed
qed

end

interpretation bcache: block_cache cache_rel buf_of same_disk memdisk disksize wtrace
  "\<lambda>s b. b_data (bufs s b)" "bread 1" "\<lambda>b d. upd_buf b (b_data_update (\<lambda>_. d))" bwrite brelse
proof (unfold_locales, goal_cases)
  case (1 s t)
  then show ?case by (simp add: same_disk_def)
next
  case (2 s v D H k)
  then show ?case by (rule bread_rel) blast
next
  case (3 s v D H b k)
  then show ?case using buf_of_facts(6,10) by blast
next
  case (4 s v D H b k d)
  then show ?case using store_rel [OF 4]
    by (simp add: same_disk_def upd_buf_def) (simp add: buf_of_def fun_eq_iff)
next
  case (5 s v D H b k)
  show ?case by (rule bwrite_rel [OF 5]) blast
next
  case (6 s v D H b k)
  show ?case by (rule brelse_rel [OF 6]) blast
next
  case (7 s v D H k)
  then show ?case by (rule cache_relD(9))
next
  case (8 s v D H k)
  then show ?case by (rule cache_relD(10))
qed


section \<open>Properties\<close>

text \<open>The static state of the kernel before \<open>binit\<close>, with a disk of zeros as large as the file system.\<close>

definition bss_bio :: bio where
  "bss_bio = \<lparr>mypid = 1, wakeups = [], bufs = (\<lambda>_. zero_buf), bnext = (\<lambda>_. 0), bprev = (\<lambda>_. 0),
     memdisk = (\<lambda>_. replicate 512 0), disksize = of_nat FSSIZE, wtrace = []\<rparr>"

lemma bss_bio_rel: "cache_rel (binit bss_bio) (\<lambda>_. replicate 512 0) {} {}"
  using binit_rel [of bss_bio] by (simp add: bss_bio_def)

lemma bss_bio_size: "disksize (binit bss_bio) = of_nat FSSIZE" "memdisk (binit bss_bio) = (\<lambda>_. replicate 512 0)"
  "mypid (binit bss_bio) = 1" "bufs (binit bss_bio) = (\<lambda>_. zero_buf)"
  using binit_other [of bss_bio] by (simp_all add: same_disk_def bss_bio_def)

text \<open>
  C19. The buffer cache is transparent: whenever a block is not held and a buffer can be recycled,
  \<open>bread\<close> returns a locked buffer with the current contents of the block, and neither the disk nor the contents of
  any block change.
\<close>

theorem bread_current:
  assumes "cache_rel s v D H" and "k \<notin> H" and "k \<in> D \<or> card (D \<union> H) < NBUF" and "k < disksize s"
  shows "\<exists>b t. bread 1 k s = Inr (b, t) \<and> b_data (bufs t b) = v k \<and> holdingsleep (mypid t) (b_lock (bufs t b))
    \<and> cache_rel t v D (insert k H) \<and> memdisk t = memdisk s"
proof -
  obtain b t where t: "bread 1 k s = Inr (b, t)" "cache_rel t v D (insert k H)" "buf_of t b k" "same_disk s t"
    by (rule bread_rel [OF assms])
  note f = buf_of_facts [OF t(2,3)]
  show ?thesis using t f(6,8) by (auto simp: same_disk_def)
qed

theorem bread_current_witness:
  "\<exists>b t. bread 1 7 (binit bss_bio) = Inr (b, t) \<and> b_data (bufs t b) = replicate 512 0"
  using bread_current [OF bss_bio_rel, of 7] by (auto simp: bss_bio_size)

text \<open>C20. A block that is updated through the cache is on the disk, and the next \<open>bread\<close> gives the new contents.\<close>

theorem bwrite_bread:
  assumes "cache_rel s v D H" and "k \<notin> H" and "k \<in> D \<or> card (D \<union> H) < NBUF" and "k < disksize s" and "length d = 512"
  shows "\<exists>b s1 s2 s3 c s4. bread 1 k s = Inr (b, s1) \<and> bwrite b (upd_buf b (b_data_update (\<lambda>_. d)) s1) = Inr s2
    \<and> brelse b s2 = Inr s3 \<and> memdisk s3 = (memdisk s)(k := d) \<and> bread 1 k s3 = Inr (c, s4) \<and> b_data (bufs s4 c) = d"
proof -
  obtain b s1 s2 s3 where u: "bread 1 k s = Inr (b, s1)" "bwrite b (upd_buf b (b_data_update (\<lambda>_. d)) s1) = Inr s2"
    "brelse b s2 = Inr s3" "cache_rel s3 (v(k := d)) (D - {k}) H" "memdisk s3 = (memdisk s)(k := d)" "disksize s3 = disksize s"
    using bcache.update_block [OF assms(1-4), where f = "\<lambda>_. d", OF assms(5)] by (elim exE conjE) (rule that)
  have fin: "finite (D \<union> H)" using cache_relD(7,8) [OF assms(1)] by simp
  have "card (D - {k} \<union> H) < NBUF"
  proof (cases "k \<in> D")
    case True
    have "card (D \<union> H) \<le> NBUF"
    proof -
      have "D \<union> H \<subseteq> (\<lambda>b. b_blockno (bufs s b)) ` {..<NBUF}" using cache_relD(7,8) [OF assms(1)] by auto
      from surj_card_le [OF _ this] show ?thesis by simp
    qed
    moreover have "D - {k} \<union> H = D \<union> H - {k}" using assms(2) by auto
    ultimately show ?thesis using True fin card_Diff1_less [of "D \<union> H" k] by simp
  next
    case False
    then show ?thesis using assms(3) by simp
  qed
  then obtain c s4 where "bread 1 k s3 = Inr (c, s4)" "b_data (bufs s4 c) = d"
    using bread_rel [OF u(4) assms(2)] assms(4) u(6) by (metis fun_upd_same)
  then show ?thesis using u by blast
qed

theorem bwrite_bread_witness:
  "\<exists>b s1 s2 s3 c s4. bread 1 7 (binit bss_bio) = Inr (b, s1)
    \<and> bwrite b (upd_buf b (b_data_update (\<lambda>_. replicate 512 1)) s1) = Inr s2 \<and> brelse b s2 = Inr s3
    \<and> bread 1 7 s3 = Inr (c, s4) \<and> b_data (bufs s4 c) = replicate 512 1"
  using bwrite_bread [OF bss_bio_rel, of 7 "replicate 512 1"] by (auto simp: bss_bio_size)

text \<open>
  C21. When a block is not cached, \<open>bget\<close> recycles the least recently released buffer that is neither in use nor
  dirty: the first from the end of the list. \<open>brelse\<close> of the last user moves a buffer to the front.
\<close>

theorem bget_lru:
  assumes "ring s xs" and "\<forall>b < NBUF. \<not> (b_dev (bufs s b) = dev \<and> b_blockno (bufs s b) = blockno)"
    and "find (\<lambda>b. b_refcnt (bufs s b) = 0 \<and> \<not> b_dirty (bufs s b)) (rev xs) = Some b" and "\<not> sl_locked (b_lock (bufs s b))"
  shows "\<exists>t u. bget dev blockno s = Inr (b, t) \<and> b_dev (bufs t b) = dev \<and> b_blockno (bufs t b) = blockno
    \<and> \<not> b_valid (bufs t b) \<and> b_refcnt (bufs t b) = 1 \<and> ring t xs \<and> brelse b t = Inr u \<and> ring u (b # remove1 b xs)"
proof -
  have "find (\<lambda>b. b_dev (bufs s b) = dev \<and> b_blockno (bufs s b) = blockno) xs = None"
    using assms(1,2) by (auto simp: find_None_iff ring_def)
  with bscan_next [OF assms(1)] bscan_prev [OF assms(1)] assms(3,4)
  obtain t where t: "bget dev blockno s = Inr (b, t)"
    "t = upd_buf b (\<lambda>x. x\<lparr>b_dev := dev, b_blockno := blockno, b_valid := False, b_dirty := False, b_refcnt := 1,
       b_lock := (b_lock x)\<lparr>sl_locked := True, sl_pid := mypid s\<rparr>\<rparr>) s"
    by (auto simp: bget_def acquiresleep_def upd_buf_def Let_def)
  have bx: "b \<in> set xs" using assms(3) by (metis find_Some_iff nth_mem set_rev)
  then obtain ys zs where xs: "xs = ys @ b # zs" "b \<notin> set ys" by (meson split_list_first)
  have r: "ring t (ys @ b # zs)" using assms(1) xs by (simp add: t(2) upd_buf_def ring_def)
  have "\<exists>u. brelse b t = Inr u \<and> ring u (b # ys @ zs)"
    unfolding brelse_def
    using r by (auto simp: t(2) upd_buf_def holdingsleep_def releasesleep_def Let_def intro!: release_ring [OF r])
  then show ?thesis using t r xs by (auto simp: upd_buf_def remove1_append)
qed

theorem bget_lru_witness:
  "\<exists>t u. bget 1 7 (binit bss_bio) = Inr (0, t) \<and> ring t (rev [0..<NBUF]) \<and> brelse 0 t = Inr u
    \<and> ring u (0 # remove1 0 (rev [0..<NBUF]))"
  using bget_lru [OF binit_ring, of bss_bio 1 7 0]
  by (auto simp: bss_bio_size zero_buf_def initsleeplock_def upt_rec)

text \<open>\<open>bget\<close> panics when every buffer holds a dirty block and the block wanted is not among them.\<close>

lemma bget_no_buffers:
  assumes "cache_rel s v D H" and "card D = NBUF" and "k \<notin> D"
  shows "bget 1 k s = Inl (Panic ''bget: no buffers'')"
  using assms by (rule bget_full)

definition all_dirty :: bio where
  "all_dirty = (binit bss_bio)\<lparr>bufs := (\<lambda>b. zero_buf\<lparr>b_valid := True, b_dirty := True, b_dev := 1, b_blockno := of_nat b\<rparr>)\<rparr>"

lemma all_dirty_rel: "cache_rel all_dirty (\<lambda>_. replicate 512 0) (of_nat ` {..<NBUF}) {}"
proof -
  have "unat (of_nat b :: uint) = b" if "b < NBUF" for b using that by (simp add: unat_of_nat_uint)
  moreover have "\<exists>xs. ring all_dirty xs" using binit_ring [of bss_bio] by (auto simp: all_dirty_def)
  ultimately show ?thesis
    unfolding cache_rel_def
    by (auto simp: all_dirty_def bss_bio_size zero_buf_def initsleeplock_def word_less_nat_alt unat_inject [symmetric])
qed

text \<open>\<open>binit\<close> builds the list of all buffers and the state in which the cache shows the disk.\<close>

lemma binit_establishes:
  assumes "bufs s = (\<lambda>_. zero_buf)" and "\<And>k. length (memdisk s k) = 512"
  shows "ring (binit s) (rev [0..<NBUF]) \<and> cache_rel (binit s) (memdisk s) {} {} \<and> memdisk (binit s) = memdisk s"
  using binit_ring binit_rel [OF assms] binit_other [OF assms(1)] by (simp add: same_disk_def)

end
