(* ===== verification/Log.thy ===== *)
theory Log
  imports Bio
begin

text \<open>
  \<^verbatim>\<open>log.c\<close>, the redo log, on the buffer cache, with \<open>readsb\<close> of \<^verbatim>\<open>fs.c\<close>, which \<open>initlog\<close> calls. The
  theory shows what a commit writes to the disk and in which order, that recovery after a crash at
  any point of these writes leaves either all of the transaction or none of it, and how \<open>begin_op\<close>
  and \<open>log_write\<close> keep the number of logged blocks bounded.
\<close>

section \<open>The super block\<close>

record superblock =
  sb_size :: uint
  sb_nblocks :: uint
  sb_ninodes :: uint
  sb_nlog :: uint
  sb_logstart :: uint
  sb_inodestart :: uint
  sb_bmapstart :: uint

definition decode_sb :: "uchar list \<Rightarrow> superblock" where
  "decode_sb d = \<lparr>sb_size = get32 d 0, sb_nblocks = get32 d 4, sb_ninodes = get32 d 8, sb_nlog = get32 d 12,
     sb_logstart = get32 d 16, sb_inodestart = get32 d 20, sb_bmapstart = get32 d 24\<rparr>"

definition readsb :: "uint \<Rightarrow> bio \<Rightarrow> kerror + superblock \<times> bio" where
  "readsb dev s =
    bindE (bread dev 1 s) (\<lambda>(bp, s).
      let sb = decode_sb (b_data (bufs s bp)) in
      bindE (brelse bp s) (\<lambda>s. Inr (sb, s)))"


section \<open>The log\<close>

text \<open>
  \<open>l_n\<close> and \<open>l_block\<close> are the in-memory header \<open>log.lh\<close>. Block numbers are \<open>int\<close> in the header and
  \<open>uint\<close> everywhere else; both are the same 32 bits.
\<close>

record logst =
  lbio :: bio
  l_start :: uint
  l_size :: int
  l_outstanding :: int
  l_committing :: bool
  l_dev :: uint
  l_n :: int
  l_block :: "nat \<Rightarrow> uint"

definition install_step :: "nat \<Rightarrow> logst \<Rightarrow> kerror + logst" where
  "install_step tail s =
    bindE (bread (l_dev s) (l_start s + of_nat tail + 1) (lbio s)) (\<lambda>(lbuf, t).
    bindE (bread (l_dev s) (l_block s tail) t) (\<lambda>(dbuf, t).
      let t = upd_buf dbuf (b_data_update (\<lambda>_. b_data (bufs t lbuf))) t in
    bindE (bwrite dbuf t) (\<lambda>t.
    bindE (brelse lbuf t) (\<lambda>t.
    bindE (brelse dbuf t) (\<lambda>t. Inr (s\<lparr>lbio := t\<rparr>))))))"

definition install_trans :: "logst \<Rightarrow> kerror + logst" where
  "install_trans s = foldE install_step [0..<nat (l_n s)] s"

text \<open>
  \<open>read_head\<close> trusts the count on the disk: more than \<open>LOGSIZE\<close> entries are stored past the end of
  \<open>log.lh.block\<close>.
\<close>

definition read_head :: "logst \<Rightarrow> kerror + logst" where
  "read_head s =
    bindE (bread (l_dev s) (l_start s) (lbio s)) (\<lambda>(b, t).
      let d = b_data (bufs t b); n = sint (get32 d 0) in
      if n > int LOGSIZE then Inl (Fault ''log.lh.block'')
      else bindE (brelse b t) (\<lambda>t.
        Inr (s\<lparr>lbio := t, l_n := n,
               l_block := (\<lambda>i. if int i < n then get32 d (4 + 4 * i) else l_block s i)\<rparr>)))"

text \<open>The bytes \<open>write_head\<close> leaves in the header block.\<close>

definition put_head :: "int \<Rightarrow> (nat \<Rightarrow> uint) \<Rightarrow> uchar list \<Rightarrow> uchar list" where
  "put_head n blk d = fold (\<lambda>i d. put32 d (4 + 4 * i) (blk i)) [0..<nat n] (put32 d 0 (of_int n))"

definition write_head :: "logst \<Rightarrow> kerror + logst" where
  "write_head s =
    bindE (bread (l_dev s) (l_start s) (lbio s)) (\<lambda>(b, t).
      let t = upd_buf b (b_data_update (\<lambda>_. put_head (l_n s) (l_block s) (b_data (bufs t b)))) t in
    bindE (bwrite b t) (\<lambda>t.
    bindE (brelse b t) (\<lambda>t. Inr (s\<lparr>lbio := t\<rparr>))))"

definition recover_from_log :: "logst \<Rightarrow> kerror + logst" where
  "recover_from_log s =
    bindE (read_head s) (\<lambda>s.
    bindE (install_trans s) (\<lambda>s.
    write_head (s\<lparr>l_n := 0\<rparr>)))"

definition initlog :: "uint \<Rightarrow> logst \<Rightarrow> kerror + logst" where
  "initlog dev s =
    (if 4 + 4 * LOGSIZE \<ge> (512 :: nat) then Inl (Panic ''initlog: too big logheader'')
     else bindE (readsb dev (lbio s)) (\<lambda>(sb, t).
       recover_from_log (s\<lparr>lbio := t, l_start := sb_logstart sb, l_size := sint (sb_nlog sb), l_dev := dev\<rparr>)))"

definition begin_op :: "logst \<Rightarrow> kerror + logst" where
  "begin_op s =
    (if l_committing s then Inl (Sleep ChLog)
     else if l_n s + (l_outstanding s + 1) * int MAXOPBLOCKS > int LOGSIZE then Inl (Sleep ChLog)
     else Inr (s\<lparr>l_outstanding := l_outstanding s + 1\<rparr>))"

definition write_log_step :: "nat \<Rightarrow> logst \<Rightarrow> kerror + logst" where
  "write_log_step tail s =
    bindE (bread (l_dev s) (l_start s + of_nat tail + 1) (lbio s)) (\<lambda>(to, t).
    bindE (bread (l_dev s) (l_block s tail) t) (\<lambda>(from, t).
      let t = upd_buf to (b_data_update (\<lambda>_. b_data (bufs t from))) t in
    bindE (bwrite to t) (\<lambda>t.
    bindE (brelse from t) (\<lambda>t.
    bindE (brelse to t) (\<lambda>t. Inr (s\<lparr>lbio := t\<rparr>))))))"

definition write_log :: "logst \<Rightarrow> kerror + logst" where
  "write_log s = foldE write_log_step [0..<nat (l_n s)] s"

definition commit :: "logst \<Rightarrow> kerror + logst" where
  "commit s =
    (if l_n s > 0 then
       bindE (write_log s) (\<lambda>s.
       bindE (write_head s) (\<lambda>s.
       bindE (install_trans s) (\<lambda>s.
       write_head (s\<lparr>l_n := 0\<rparr>))))
     else Inr s)"

definition log_wakeup :: "wchan \<Rightarrow> logst \<Rightarrow> logst" where
  "log_wakeup ch s = s\<lparr>lbio := (lbio s)\<lparr>wakeups := wakeups (lbio s) @ [ch]\<rparr>\<rparr>"

definition end_op :: "logst \<Rightarrow> kerror + logst" where
  "end_op s =
    (let s = s\<lparr>l_outstanding := l_outstanding s - 1\<rparr> in
     if l_committing s then Inl (Panic ''log.committing'')
     else if l_outstanding s = 0 then
       bindE (commit (s\<lparr>l_committing := True\<rparr>)) (\<lambda>s.
         Inr (log_wakeup ChLog (s\<lparr>l_committing := False\<rparr>)))
     else Inr (log_wakeup ChLog s))"

definition log_write :: "nat \<Rightarrow> logst \<Rightarrow> kerror + logst" where
  "log_write b s =
    (if l_n s \<ge> int LOGSIZE \<or> l_n s \<ge> l_size s - 1 then Inl (Panic ''too big a transaction'')
     else if l_outstanding s < 1 then Inl (Panic ''log_write outside of trans'')
     else
       let blockno = b_blockno (bufs (lbio s) b);
           i = (case find_index (\<lambda>k. k = blockno) (map (l_block s) [0..<nat (l_n s)]) of
                  Some i \<Rightarrow> i | None \<Rightarrow> nat (l_n s));
           s = s\<lparr>l_block := (l_block s)(i := blockno)\<rparr>;
           s = (if int i = l_n s then s\<lparr>l_n := l_n s + 1\<rparr> else s)
       in Inr (s\<lparr>lbio := upd_buf b (b_dirty_update (\<lambda>_. True)) (lbio s)\<rparr>))"


section \<open>The log region\<close>

text \<open>Block \<open>i\<close> of the log, and all blocks of the log region with the header.\<close>

definition lblk :: "logst \<Rightarrow> nat \<Rightarrow> uint" where
  "lblk s i = l_start s + of_nat i + 1"

definition region :: "logst \<Rightarrow> uint set" where
  "region s = insert (l_start s) (lblk s ` {..<LOGSIZE})"

text \<open>
  The layout \<^verbatim>\<open>mkfs.c\<close> gives the log: \<open>LOGSIZE\<close> blocks after the header, inside the disk. \<open>homes\<close> says
  that the first \<open>n\<close> header entries are distinct blocks of the disk outside the log.
\<close>

definition layout :: "logst \<Rightarrow> bool" where
  "layout s \<longleftrightarrow> l_dev s = 1 \<and> unat (l_start s) + LOGSIZE < unat (disksize (lbio s))"

definition homes :: "logst \<Rightarrow> nat \<Rightarrow> bool" where
  "homes s n \<longleftrightarrow> n \<le> LOGSIZE \<and> inj_on (l_block s) {..<n}
     \<and> (\<forall>i<n. l_block s i \<notin> region s \<and> l_block s i < disksize (lbio s))"

lemma unat_lblk: "layout s \<Longrightarrow> i < LOGSIZE \<Longrightarrow> unat (lblk s i) = unat (l_start s) + i + 1"
proof -
  assume a: "layout s" "i < LOGSIZE"
  have b: "unat (l_start s) + 30 < 4294967296"
    using a(1) unat_uint_less [of "disksize (lbio s)"] unfolding layout_def by linarith
  have i: "unat (of_nat (i + 1) :: uint) = i + 1" using a(2) by (subst unat_of_nat) simp
  have "lblk s i = l_start s + of_nat (i + 1)" by (simp add: lblk_def add.assoc)
  moreover have "unat (l_start s + of_nat (i + 1)) = unat (l_start s) + unat (of_nat (i + 1) :: uint)"
    by (rule unat_add_lem [THEN iffD1]) (use a(2) b i in simp)
  ultimately show ?thesis using i by simp
qed

lemma lblk_inject: "layout s \<Longrightarrow> i < LOGSIZE \<Longrightarrow> j < LOGSIZE \<Longrightarrow> lblk s i = lblk s j \<longleftrightarrow> i = j"
  by (metis add_left_cancel add_right_cancel unat_lblk)

lemma lblk_not_start: "layout s \<Longrightarrow> i < LOGSIZE \<Longrightarrow> lblk s i \<noteq> l_start s"
  by (metis add.assoc add_cancel_left_right add_is_0 one_neq_zero unat_lblk)

lemma lblk_less: "layout s \<Longrightarrow> i < LOGSIZE \<Longrightarrow> lblk s i < disksize (lbio s)"
  using unat_lblk [of s i] by (simp add: layout_def word_less_nat_alt)

lemma start_less: "layout s \<Longrightarrow> l_start s < disksize (lbio s)"
  by (simp add: layout_def word_less_nat_alt)

lemma home_not_log:
  "homes s n \<Longrightarrow> i < n \<Longrightarrow> j < LOGSIZE \<Longrightarrow> l_block s i \<noteq> lblk s j \<and> l_block s i \<noteq> l_start s"
  by (auto simp: homes_def region_def)

lemma layout_bio: "layout s \<Longrightarrow> disksize t = disksize (lbio s) \<Longrightarrow> layout (s\<lparr>lbio := t\<rparr>)"
  by (simp add: layout_def)

lemma lblk_bio [simp]: "lblk (s\<lparr>lbio := t\<rparr>) = lblk s" "region (s\<lparr>lbio := t\<rparr>) = region s"
  by (auto simp: lblk_def region_def fun_eq_iff)

lemma homes_bio [simp]: "disksize t = disksize (lbio s) \<Longrightarrow> homes (s\<lparr>lbio := t\<rparr>) n = homes s n"
  by (simp add: homes_def)


section \<open>The header block\<close>

lemma length_put_head: "length d = 512 \<Longrightarrow> n \<le> int LOGSIZE \<Longrightarrow> length (put_head n blk d) = 512"
proof -
  assume "length d = 512" "n \<le> int LOGSIZE"
  moreover have "m \<le> LOGSIZE \<Longrightarrow> length e = 512 \<Longrightarrow>
    length (fold (\<lambda>i d. put32 d (4 + 4 * i) (blk i)) [0..<m] e) = 512" for m e
    by (induction m) auto
  ultimately show ?thesis by (simp add: put_head_def)
qed

lemma get_put_head:
  assumes "length d = 512" and "0 \<le> n" and "n \<le> int LOGSIZE"
  shows "sint (get32 (put_head n blk d) 0) = n"
    and "int i < n \<Longrightarrow> get32 (put_head n blk d) (4 + 4 * i) = blk i"
proof -
  let ?f = "\<lambda>m. fold (\<lambda>i d. put32 d (4 + 4 * i) (blk i)) [0..<m] (put32 d 0 (of_int n))"
  have *: "m \<le> LOGSIZE \<Longrightarrow> length (?f m) = 512 \<and> get32 (?f m) 0 = of_int n
      \<and> (\<forall>i<m. get32 (?f m) (4 + 4 * i) = blk i)" for m
  proof (induction m)
    case (Suc m)
    then show ?case by (auto simp: less_Suc_eq get32_put32_same get32_put32_other)
  qed (simp add: assms(1) get32_put32_same)
  from * [of "nat n"] assms(3) have "get32 (put_head n blk d) 0 = of_int n" by (simp add: put_head_def)
  moreover have "sint (of_int n :: uint) = n"
    using assms(2,3) by (simp add: sint_uint uint_word_of_int_eq signed_take_bit_int_eq_self take_bit_int_eq_self)
  ultimately show "sint (get32 (put_head n blk d) 0) = n" by simp
  show "int i < n \<Longrightarrow> get32 (put_head n blk d) (4 + 4 * i) = blk i"
    using * [of "nat n"] assms by (simp add: put_head_def zless_nat_eq_int_zless)
qed


section \<open>What the loops write\<close>

definition apply_writes :: "(uint \<times> uchar list) list \<Rightarrow> (uint \<Rightarrow> uchar list) \<Rightarrow> uint \<Rightarrow> uchar list" where
  "apply_writes ws d = fold (\<lambda>(k, x) d. d(k := x)) ws d"

text \<open>Copying the first \<open>n\<close> log blocks home, on block contents.\<close>

definition inst :: "logst \<Rightarrow> nat \<Rightarrow> (uint \<Rightarrow> uchar list) \<Rightarrow> uint \<Rightarrow> uchar list" where
  "inst s n v = fold (\<lambda>i v. v(l_block s i := v (lblk s i))) [0..<n] v"

definition install_writes :: "logst \<Rightarrow> nat \<Rightarrow> (uint \<Rightarrow> uchar list) \<Rightarrow> (uint \<times> uchar list) list" where
  "install_writes s n v = map (\<lambda>i. (l_block s i, v (lblk s i))) [0..<n]"

definition log_writes :: "logst \<Rightarrow> nat \<Rightarrow> (uint \<Rightarrow> uchar list) \<Rightarrow> (uint \<times> uchar list) list" where
  "log_writes s n v = map (\<lambda>i. (lblk s i, v (l_block s i))) [0..<n]"

lemma fst_writes [simp]:
  "fst ` set (install_writes s n v) = l_block s ` {..<n}" "fst ` set (log_writes s n v) = lblk s ` {..<n}"
  by (simp_all add: install_writes_def log_writes_def image_image atLeast0LessThan)

lemma apply_writes_append: "apply_writes (xs @ ys) d = apply_writes ys (apply_writes xs d)"
  by (simp add: apply_writes_def)

lemma apply_writes_Cons [simp]:
  "apply_writes [] d = d" "apply_writes ((k, x) # ws) d = apply_writes ws (d(k := x))"
  by (simp_all add: apply_writes_def)

lemma apply_writes_single: "apply_writes [(k, x)] d = d(k := x)"
  by (simp add: apply_writes_def)

lemma apply_writes_map:
  assumes "inj_on f {..<n}"
  shows "apply_writes (map (\<lambda>i. (f i, g i)) [0..<n]) d x =
    (if x \<in> f ` {..<n} then g (the_inv_into {..<n} f x) else d x)"
  using assms
proof (induction n)
  case (Suc n)
  then have inj: "inj_on f {..<n}" and new: "f n \<notin> f ` {..<n}"
    by (auto simp: lessThan_Suc inj_on_def)
  note IH = Suc.IH [OF inj]
  show ?case
  proof (cases "x = f n")
    case True
    then show ?thesis
      using the_inv_into_f_f [OF Suc.prems, of n] by (simp add: apply_writes_append apply_writes_single)
  next
    case False
    have "the_inv_into {..<Suc n} f x = the_inv_into {..<n} f x" if "x \<in> f ` {..<n}"
      using that the_inv_into_f_f [OF inj] the_inv_into_f_f [OF Suc.prems] by auto
    then show ?thesis
      using False IH by (auto simp: apply_writes_append apply_writes_single lessThan_Suc)
  qed
qed (simp add: apply_writes_def)

lemma apply_writes_at:
  "inj_on f {..<n} \<Longrightarrow> i < n \<Longrightarrow> apply_writes (map (\<lambda>i. (f i, g i)) [0..<n]) d (f i) = g i"
  by (simp add: apply_writes_map the_inv_into_f_f)

lemma apply_writes_other: "x \<notin> fst ` set ws \<Longrightarrow> apply_writes ws d x = d x"
  by (induction ws arbitrary: d) (auto simp: apply_writes_def)

lemma inst_eq_writes: "homes s n \<Longrightarrow> inst s n v = apply_writes (install_writes s n v) v"
proof (induction n)
  case (Suc n)
  then have h: "homes s n" by (auto simp: homes_def lessThan_Suc inj_on_def)
  have "lblk s n \<notin> fst ` set (install_writes s n v)"
  proof -
    have "n < LOGSIZE" using Suc.prems by (simp add: homes_def)
    then have "l_block s x \<noteq> lblk s n" if "x < n" for x using home_not_log [OF Suc.prems] that less_SucI by blast
    then show ?thesis by (metis fst_writes(1) imageE lessThan_iff)
  qed
  then have "inst s n v (lblk s n) = v (lblk s n)" using Suc.IH [OF h] by (simp add: apply_writes_other)
  then show ?case using Suc.IH [OF h]
    by (simp add: inst_def install_writes_def apply_writes_append apply_writes_single)
qed (simp add: inst_def install_writes_def apply_writes_def)

lemma inst_log: "homes s n \<Longrightarrow> i < LOGSIZE \<Longrightarrow> inst s n v (lblk s i) = v (lblk s i)"
proof -
  assume a: "homes s n" "i < LOGSIZE"
  then have "lblk s i \<notin> fst ` set (install_writes s n v)" 
    using home_not_log [OF a(1) _ a(2)] by (metis fst_writes(1) imageE lessThan_iff)
  then show ?thesis by (simp only: inst_eq_writes [OF a(1)] apply_writes_other not_False_eq_True)
qed

lemma homes_le: "homes s n \<Longrightarrow> i \<le> n \<Longrightarrow> homes s i"
  by (auto simp: homes_def elim: inj_on_subset)

lemma install_loop:
  assumes lay: "layout s" and h: "homes s n" and R: "cache_rel (lbio s) v D {}" and fin: "finite D"
    and room: "card D + 1 < NBUF \<or> card D < NBUF \<and> l_block s ` {..<n} \<subseteq> D"
    and out: "\<And>i. i < LOGSIZE \<Longrightarrow> lblk s i \<notin> D"
  shows "\<exists>t. foldE install_step [0..<n] s = Inr (s\<lparr>lbio := t\<rparr>)
    \<and> cache_rel t (inst s n v) (D - l_block s ` {..<n}) {}
    \<and> memdisk t = apply_writes (install_writes s n v) (memdisk (lbio s))
    \<and> wtrace t = wtrace (lbio s) @ install_writes s n v \<and> disksize t = disksize (lbio s)"
proof -
  let ?P = "\<lambda>i s'. \<exists>t. s' = s\<lparr>lbio := t\<rparr> \<and> cache_rel t (inst s i v) (D - l_block s ` {..<i}) {}
    \<and> memdisk t = apply_writes (install_writes s i v) (memdisk (lbio s))
    \<and> wtrace t = wtrace (lbio s) @ install_writes s i v \<and> disksize t = disksize (lbio s)"
  have "\<exists>s'. foldE install_step [0..<n] s = Inr s' \<and> ?P n s'"
  proof (rule foldE_upt_invariant [where P = ?P])
    show "?P 0 s"
      using R by (intro exI [of _ "lbio s"]) (simp add: inst_def install_writes_def apply_writes_def)
  next
    fix i s' assume i: "i < n" and "?P i s'"
    then obtain t where t: "s' = s\<lparr>lbio := t\<rparr>" "cache_rel t (inst s i v) (D - l_block s ` {..<i}) {}"
      "memdisk t = apply_writes (install_writes s i v) (memdisk (lbio s))"
      "wtrace t = wtrace (lbio s) @ install_writes s i v" "disksize t = disksize (lbio s)" by blast
    let ?D = "D - l_block s ` {..<i}" and ?v = "inst s i v"
    have n: "n \<le> LOGSIZE" "i < LOGSIZE" using h i by (auto simp: homes_def)
    have log: "?v (lblk s i) = v (lblk s i)" using inst_log [OF homes_le [OF h] n(2)] i by simp
    have c: "card ?D \<le> card D" using fin by (simp add: card_mono)
    have k: "l_block s ` {..<n} \<subseteq> D \<Longrightarrow> l_block s i \<in> ?D"
    proof -
      have "l_block s i \<notin> l_block s ` {..<i}"
        using h i by (auto simp: homes_def inj_on_def) (metis lessThan_iff less_trans nat_neq_iff)
      then show "l_block s ` {..<n} \<subseteq> D \<Longrightarrow> l_block s i \<in> ?D" using i by blast
    qed
    have "\<exists>lb s1 db s2 s3 s4 s5. bread 1 (lblk s i) t = Inr (lb, s1) \<and> bread 1 (l_block s i) s1 = Inr (db, s2)
      \<and> bwrite db (upd_buf db (b_data_update (\<lambda>_. b_data (bufs s2 lb))) s2) = Inr s3
      \<and> brelse lb s3 = Inr s4 \<and> brelse db s4 = Inr s5
      \<and> cache_rel s5 (?v(l_block s i := ?v (lblk s i))) (?D - {l_block s i}) {}
      \<and> memdisk s5 = (memdisk t)(l_block s i := ?v (lblk s i))
      \<and> wtrace s5 = wtrace t @ [(l_block s i, ?v (lblk s i))] \<and> disksize s5 = disksize t"
    proof (rule bcache.copy_block(1) [OF t(2)])
      show "lblk s i \<noteq> l_block s i" using home_not_log [OF h i n(2)] by metis
      show "card (?D \<union> {}) + 1 < NBUF \<or> card (?D \<union> {}) < NBUF \<and> (lblk s i \<in> ?D \<or> l_block s i \<in> ?D)"
        using room c k by auto
      show "lblk s i < disksize t" using lblk_less [OF lay n(2)] t(5) by simp
      show "l_block s i < disksize t" using h i t(5) by (auto simp: homes_def)
      show "lblk s i \<in> ?D \<or> ?v (lblk s i) = memdisk t (lblk s i)"
        using cache_relD(10) [OF t(2), of "lblk s i"] out [OF n(2)] by simp
    qed (use fin in auto)
    then obtain s5 where s5: "install_step i s' = Inr (s\<lparr>lbio := s5\<rparr>)"
      "cache_rel s5 (?v(l_block s i := ?v (lblk s i))) (?D - {l_block s i}) {}"
      "memdisk s5 = (memdisk t)(l_block s i := ?v (lblk s i))"
      "wtrace s5 = wtrace t @ [(l_block s i, ?v (lblk s i))]" "disksize s5 = disksize t"
      using lay by (auto simp: install_step_def t(1) layout_def lblk_def)
    moreover have "?D - {l_block s i} = D - l_block s ` {..<Suc i}" by (auto simp: lessThan_Suc)
    ultimately have "?P (Suc i) (s\<lparr>lbio := s5\<rparr>)"
      using t log by (intro exI [of _ s5])
        (simp add: inst_def install_writes_def apply_writes_append apply_writes_single)
    with s5(1) show "\<exists>s''. install_step i s' = Inr s'' \<and> ?P (Suc i) s''" by blast
  qed simp
  then show ?thesis by blast
qed

lemma write_log_loop:
  assumes lay: "layout s" and h: "homes s n" and R: "cache_rel (lbio s) v D {}" and fin: "finite D"
    and room: "card D < NBUF" "l_block s ` {..<n} \<subseteq> D" and out: "\<And>i. i < LOGSIZE \<Longrightarrow> lblk s i \<notin> D"
  shows "\<exists>t. foldE write_log_step [0..<n] s = Inr (s\<lparr>lbio := t\<rparr>)
    \<and> cache_rel t (apply_writes (log_writes s n v) v) D {}
    \<and> memdisk t = apply_writes (log_writes s n v) (memdisk (lbio s))
    \<and> wtrace t = wtrace (lbio s) @ log_writes s n v \<and> disksize t = disksize (lbio s)"
proof -
  let ?w = "\<lambda>i. log_writes s i v"
  let ?P = "\<lambda>i s'. \<exists>t. s' = s\<lparr>lbio := t\<rparr> \<and> cache_rel t (apply_writes (?w i) v) D {}
    \<and> memdisk t = apply_writes (?w i) (memdisk (lbio s))
    \<and> wtrace t = wtrace (lbio s) @ ?w i \<and> disksize t = disksize (lbio s)"
  have "\<exists>s'. foldE write_log_step [0..<n] s = Inr s' \<and> ?P n s'"
  proof (rule foldE_upt_invariant [where P = ?P])
    show "?P 0 s" using R by (intro exI [of _ "lbio s"]) (simp add: log_writes_def apply_writes_def)
  next
    fix i s' assume i: "i < n" and "?P i s'"
    then obtain t where t: "s' = s\<lparr>lbio := t\<rparr>" "cache_rel t (apply_writes (?w i) v) D {}"
      "memdisk t = apply_writes (?w i) (memdisk (lbio s))"
      "wtrace t = wtrace (lbio s) @ ?w i" "disksize t = disksize (lbio s)" by blast
    let ?v = "apply_writes (?w i) v"
    have n: "n \<le> LOGSIZE" "i < LOGSIZE" using h i by (auto simp: homes_def)
    have "l_block s i \<notin> fst ` set (?w i)"
    proof
      assume "l_block s i \<in> fst ` set (?w i)"
      then obtain j where "j < i" "l_block s i = lblk s j" unfolding fst_writes by blast
      with home_not_log [OF h i, of j] n i show False by simp
    qed
    then have home: "?v (l_block s i) = v (l_block s i)" by (rule apply_writes_other)
    have mem: "l_block s i \<in> D" using room i by blast
    have "\<exists>lb s1 db s2 s3 s4 s5. bread 1 (lblk s i) t = Inr (db, s1) \<and> bread 1 (l_block s i) s1 = Inr (lb, s2)
      \<and> bwrite db (upd_buf db (b_data_update (\<lambda>_. b_data (bufs s2 lb))) s2) = Inr s3
      \<and> brelse lb s3 = Inr s4 \<and> brelse db s4 = Inr s5
      \<and> cache_rel s5 (?v(lblk s i := ?v (l_block s i))) (D - {lblk s i}) {}
      \<and> memdisk s5 = (memdisk t)(lblk s i := ?v (l_block s i))
      \<and> wtrace s5 = wtrace t @ [(lblk s i, ?v (l_block s i))] \<and> disksize s5 = disksize t"
    proof (rule bcache.copy_block(2) [OF t(2)])
      show "l_block s i \<noteq> lblk s i" using home_not_log [OF h i n(2)] by simp
      show "card (D \<union> {}) + 1 < NBUF \<or> card (D \<union> {}) < NBUF \<and> (l_block s i \<in> D \<or> lblk s i \<in> D)"
        using room mem by simp
      show "lblk s i < disksize t" using lblk_less [OF lay n(2)] t(5) by simp
      show "l_block s i < disksize t" using h i t(5) by (auto simp: homes_def)
    qed (use fin mem in auto)
    then obtain s5 where s5: "write_log_step i s' = Inr (s\<lparr>lbio := s5\<rparr>)"
      "cache_rel s5 (?v(lblk s i := ?v (l_block s i))) (D - {lblk s i}) {}"
      "memdisk s5 = (memdisk t)(lblk s i := ?v (l_block s i))"
      "wtrace s5 = wtrace t @ [(lblk s i, ?v (l_block s i))]" "disksize s5 = disksize t"
      using lay by (auto simp: write_log_step_def t(1) layout_def lblk_def)
    moreover have "D - {lblk s i} = D" using out [OF n(2)] by blast
    ultimately have "?P (Suc i) (s\<lparr>lbio := s5\<rparr>)"
      using t home by (intro exI [of _ s5]) (simp add: log_writes_def apply_writes_append apply_writes_single)
    with s5(1) show "\<exists>s''. write_log_step i s' = Inr s'' \<and> ?P (Suc i) s''" by blast
  qed simp
  then show ?thesis by blast
qed

lemma write_head_ok:
  assumes lay: "layout s" and R: "cache_rel (lbio s) v D {}" and "card D < NBUF" and "l_n s \<le> int LOGSIZE"
    and "l_start s \<notin> D"
  defines "h \<equiv> put_head (l_n s) (l_block s) (v (l_start s))"
  shows "\<exists>t. write_head s = Inr (s\<lparr>lbio := t\<rparr>) \<and> cache_rel t (v(l_start s := h)) D {}
    \<and> memdisk t = (memdisk (lbio s))(l_start s := h) \<and> wtrace t = wtrace (lbio s) @ [(l_start s, h)]
    \<and> disksize t = disksize (lbio s)"
proof -
  have "length h = 512"
    unfolding h_def by (rule length_put_head) (use assms(4) cache_relD(9) [OF R] in auto)
  then obtain b s1 s2 s3 where *: "bread 1 (l_start s) (lbio s) = Inr (b, s1)" "b_data (bufs s1 b) = v (l_start s)"
    "bwrite b (upd_buf b (b_data_update (\<lambda>_. h)) s1) = Inr s2" "brelse b s2 = Inr s3"
    "cache_rel s3 (v(l_start s := h)) (D - {l_start s}) {}"
    "memdisk s3 = (memdisk (lbio s))(l_start s := h)" "wtrace s3 = wtrace (lbio s) @ [(l_start s, h)]"
    "disksize s3 = disksize (lbio s)"
    using bcache.update_block [OF R, of "l_start s" "put_head (l_n s) (l_block s)"] assms(3) start_less [OF lay]
    by (auto simp: h_def)
  moreover have "D - {l_start s} = D" using assms(5) by blast
  ultimately show ?thesis
    using lay by (intro exI [of _ s3]) (simp add: write_head_def layout_def h_def)
qed


section \<open>Commit\<close>

text \<open>
  The state in which \<open>commit\<close> runs: the dirty blocks are exactly the logged ones, nobody holds a
  buffer, and the header on the disk says that nothing is logged.
\<close>

definition ready :: "logst \<Rightarrow> nat \<Rightarrow> (uint \<Rightarrow> uchar list) \<Rightarrow> bool" where
  "ready s n v \<longleftrightarrow> layout s \<and> homes s n \<and> l_n s = int n \<and> cache_rel (lbio s) v (l_block s ` {..<n}) {}
     \<and> get32 (v (l_start s)) 0 = 0 \<and> (\<forall>k. length (memdisk (lbio s) k) = 512)"

definition commit_writes :: "logst \<Rightarrow> nat \<Rightarrow> (uint \<Rightarrow> uchar list) \<Rightarrow> (uint \<times> uchar list) list" where
  "commit_writes s n v =
    (let h = put_head (int n) (l_block s) (v (l_start s)) in
     log_writes s n v @ [(l_start s, h)] @ map (\<lambda>i. (l_block s i, v (l_block s i))) [0..<n]
       @ [(l_start s, put_head 0 (l_block s) h)])"

lemma inj_lblk: "layout s \<Longrightarrow> n \<le> LOGSIZE \<Longrightarrow> inj_on (lblk s) {..<n}"
  by (auto simp: inj_on_def lblk_inject)

lemma log_writes_at:
  "layout s \<Longrightarrow> n \<le> LOGSIZE \<Longrightarrow> i < n \<Longrightarrow> apply_writes (log_writes s n v) d (lblk s i) = v (l_block s i)"
  unfolding log_writes_def by (rule apply_writes_at [OF inj_lblk])

lemma home_facts:
  assumes "homes s n"
  shows "n \<le> LOGSIZE" "inj_on (l_block s) {..<n}" "finite (l_block s ` {..<n})"
    "card (l_block s ` {..<n}) = n" "l_start s \<notin> l_block s ` {..<n}"
    "j < LOGSIZE \<Longrightarrow> lblk s j \<notin> l_block s ` {..<n}"
proof -
  show "n \<le> LOGSIZE" "inj_on (l_block s) {..<n}" "finite (l_block s ` {..<n})"
    "card (l_block s ` {..<n}) = n" "l_start s \<notin> l_block s ` {..<n}"
    using assms by (auto simp: homes_def region_def card_image)
  show "lblk s j \<notin> l_block s ` {..<n}" if "j < LOGSIZE"
    using home_not_log [OF assms _ that] by (metis imageE lessThan_iff)
qed

lemma not_log_start: "layout s \<Longrightarrow> n \<le> LOGSIZE \<Longrightarrow> l_start s \<notin> lblk s ` {..<n}"
  using lblk_not_start by (metis image_iff lessThan_iff less_le_trans)

lemma log_writes_other:
  "layout s \<Longrightarrow> n \<le> LOGSIZE \<Longrightarrow> apply_writes (log_writes s n v) d (l_start s) = d (l_start s)"
  by (rule apply_writes_other) (simp add: not_log_start)

lemma commit_ok:
  assumes "ready s n v" and n: "0 < n" "n < NBUF"
  shows "\<exists>t. commit s = Inr (s\<lparr>l_n := 0, lbio := t\<rparr>)
    \<and> wtrace t = wtrace (lbio s) @ commit_writes s n v
    \<and> memdisk t = apply_writes (commit_writes s n v) (memdisk (lbio s))
    \<and> cache_rel t (memdisk t) {} {} \<and> disksize t = disksize (lbio s)"
proof -
  let ?D = "l_block s ` {..<n}" and ?v1 = "apply_writes (log_writes s n v) v"
  let ?h = "put_head (int n) (l_block s) (v (l_start s))"
  let ?v2 = "?v1(l_start s := ?h)"
  have lay: "layout s" and h: "homes s n" and ln: "l_n s = int n" and R: "cache_rel (lbio s) v ?D {}"
    using assms(1) by (auto simp: ready_def)
  note hf = home_facts [OF h]
  have start: "?v1 (l_start s) = v (l_start s)" by (rule log_writes_other [OF lay hf(1)])
  obtain t1 where t1: "write_log s = Inr (s\<lparr>lbio := t1\<rparr>)" "cache_rel t1 ?v1 ?D {}"
    "memdisk t1 = apply_writes (log_writes s n v) (memdisk (lbio s))"
    "wtrace t1 = wtrace (lbio s) @ log_writes s n v" "disksize t1 = disksize (lbio s)"
    using write_log_loop [OF lay h R hf(3)] hf n by (auto simp: write_log_def ln)
  obtain t2 where t2: "write_head (s\<lparr>lbio := t1\<rparr>) = Inr (s\<lparr>lbio := t2\<rparr>)" "cache_rel t2 ?v2 ?D {}"
    "memdisk t2 = (memdisk t1)(l_start s := ?h)" "wtrace t2 = wtrace t1 @ [(l_start s, ?h)]"
    "disksize t2 = disksize t1"
    using write_head_ok [of "s\<lparr>lbio := t1\<rparr>" ?v1 ?D] layout_bio [OF lay t1(5)] t1(2) hf n ln start by auto
  have lay2: "layout (s\<lparr>lbio := t2\<rparr>)" using layout_bio [OF lay] t1(5) t2(5) by simp
  have h2: "homes (s\<lparr>lbio := t2\<rparr>) n" using h t1(5) t2(5) by simp
  have iw: "install_writes (s\<lparr>lbio := t2\<rparr>) n ?v2 = map (\<lambda>i. (l_block s i, v (l_block s i))) [0..<n]"
    using log_writes_at [OF lay hf(1)] lblk_not_start [OF lay] hf(1) by (auto simp: install_writes_def)
  have "\<exists>t. foldE install_step [0..<n] (s\<lparr>lbio := t2\<rparr>) = Inr (s\<lparr>lbio := t2, lbio := t\<rparr>)
    \<and> cache_rel t (inst (s\<lparr>lbio := t2\<rparr>) n ?v2) (?D - l_block (s\<lparr>lbio := t2\<rparr>) ` {..<n}) {}
    \<and> memdisk t = apply_writes (install_writes (s\<lparr>lbio := t2\<rparr>) n ?v2) (memdisk (lbio (s\<lparr>lbio := t2\<rparr>)))
    \<and> wtrace t = wtrace (lbio (s\<lparr>lbio := t2\<rparr>)) @ install_writes (s\<lparr>lbio := t2\<rparr>) n ?v2
    \<and> disksize t = disksize (lbio (s\<lparr>lbio := t2\<rparr>))"
    by (rule install_loop [OF lay2 h2]) (use t2(2) hf n in auto)
  then obtain t3 where t3: "install_trans (s\<lparr>lbio := t2\<rparr>) = Inr (s\<lparr>lbio := t3\<rparr>)"
    "cache_rel t3 (inst (s\<lparr>lbio := t2\<rparr>) n ?v2) {} {}"
    "memdisk t3 = apply_writes (map (\<lambda>i. (l_block s i, v (l_block s i))) [0..<n]) (memdisk t2)"
    "wtrace t3 = wtrace t2 @ map (\<lambda>i. (l_block s i, v (l_block s i))) [0..<n]" "disksize t3 = disksize t2"
    by (auto simp: install_trans_def ln iw)
  have v3: "inst (s\<lparr>lbio := t2\<rparr>) n ?v2 (l_start s) = ?h"
    unfolding inst_eq_writes [OF h2] by (subst apply_writes_other) (use hf(5) in simp_all)
  have lay3: "layout (s\<lparr>lbio := t3, l_n := 0\<rparr>)" using lay t1(5) t2(5) t3(5) by (simp add: layout_def)
  obtain t4 where t4: "write_head (s\<lparr>lbio := t3, l_n := 0\<rparr>) = Inr (s\<lparr>l_n := 0, lbio := t4\<rparr>)"
    "cache_rel t4 ((inst (s\<lparr>lbio := t2\<rparr>) n ?v2)(l_start s := put_head 0 (l_block s) ?h)) {} {}"
    "memdisk t4 = (memdisk t3)(l_start s := put_head 0 (l_block s) ?h)"
    "wtrace t4 = wtrace t3 @ [(l_start s, put_head 0 (l_block s) ?h)]" "disksize t4 = disksize t3"
    using write_head_ok [OF lay3, of "inst (s\<lparr>lbio := t2\<rparr>) n ?v2" "{}"] t3(2) v3 by auto
  have "memdisk t4 = (inst (s\<lparr>lbio := t2\<rparr>) n ?v2)(l_start s := put_head 0 (l_block s) ?h)"
    using cache_relD(10) [OF t4(2)] by (intro ext) simp
  then have "cache_rel t4 (memdisk t4) {} {}" using t4(2) by simp
  moreover have "commit s = Inr (s\<lparr>l_n := 0, lbio := t4\<rparr>)"
    using n by (simp add: commit_def ln t1(1) t2(1) t3(1) t4(1))
  ultimately show ?thesis
    using t1 t2 t3 t4
    by (intro exI [of _ t4]) (simp add: commit_writes_def Let_def apply_writes_append apply_writes_single)
qed


section \<open>Recovery\<close>

text \<open>\<open>reboot d s\<close>: the machine after a crash with disk contents \<open>d\<close>, the caches empty.\<close>

definition reboot :: "(uint \<Rightarrow> uchar list) \<Rightarrow> logst \<Rightarrow> logst" where
  "reboot d s = s\<lparr>lbio := binit ((lbio s)\<lparr>bufs := (\<lambda>_. zero_buf), memdisk := d, wtrace := []\<rparr>),
     l_outstanding := 0, l_committing := False, l_n := 0, l_block := (\<lambda>_. 0)\<rparr>"

text \<open>The header as \<open>read_head\<close> finds it in disk contents \<open>d\<close>.\<close>

definition with_head :: "(uint \<Rightarrow> uchar list) \<Rightarrow> logst \<Rightarrow> logst" where
  "with_head d s = (let n = sint (get32 (d (l_start s)) 0) in
     s\<lparr>l_n := n, l_block := (\<lambda>i. if int i < n then get32 (d (l_start s)) (4 + 4 * i) else l_block s i)\<rparr>)"

lemma read_head_ok:
  assumes lay: "layout s" and R: "cache_rel (lbio s) v {} {}" and "sint (get32 (v (l_start s)) 0) \<le> int LOGSIZE"
  shows "\<exists>t. read_head s = Inr (with_head v s\<lparr>lbio := t\<rparr>) \<and> cache_rel t v {} {} \<and> memdisk t = memdisk (lbio s)
    \<and> disksize t = disksize (lbio s)"
proof -
  obtain b s1 s2 where "bread 1 (l_start s) (lbio s) = Inr (b, s1)" "b_data (bufs s1 b) = v (l_start s)"
    "brelse b s1 = Inr s2" "cache_rel s2 v {} {}" "memdisk s2 = memdisk (lbio s)" "disksize s2 = disksize (lbio s)"
    using bcache.read_block [OF R, of "l_start s"] start_less [OF lay] by auto
  then show ?thesis
    using lay assms(3)
    by (intro exI [of _ s2]) (simp add: read_head_def with_head_def Let_def layout_def, intro logst.equality, auto)
qed

lemma recover_ok:
  assumes lay: "layout s" and R: "cache_rel (lbio s) v {} {}"
    and n: "0 \<le> l_n (with_head v s)" "l_n (with_head v s) \<le> int LOGSIZE"
    and h: "homes (with_head v s) (nat (l_n (with_head v s)))"
  shows "\<exists>r. recover_from_log s = Inr r \<and> l_n r = 0 \<and> l_start r = l_start s \<and> disksize (lbio r) = disksize (lbio s)
    \<and> l_dev r = l_dev s \<and> cache_rel (lbio r) (memdisk (lbio r)) {} {}
    \<and> memdisk (lbio r) = (inst (with_head v s) (nat (l_n (with_head v s))) v)
        (l_start s := put_head 0 (l_block (with_head v s)) (v (l_start s)))"
proof -
  let ?w = "with_head v s" and ?n = "nat (l_n (with_head v s))"
  have ln: "l_n ?w = sint (get32 (v (l_start s)) 0)" by (simp add: with_head_def Let_def)
  obtain t where t: "read_head s = Inr (?w\<lparr>lbio := t\<rparr>)" "cache_rel t v {} {}" "disksize t = disksize (lbio s)"
    using read_head_ok [OF lay R] n ln by auto
  let ?s1 = "?w\<lparr>lbio := t\<rparr>"
  have lw: "layout ?w" "lbio ?w = lbio s" "l_start ?w = l_start s" "l_dev ?w = l_dev s"
    using lay by (simp_all add: with_head_def Let_def layout_def)
  have lay1: "layout ?s1" using layout_bio [OF lw(1)] lw(2) t(3) by simp
  have h1: "homes ?s1 ?n" using h t(3) lw(2) by simp
  have "\<exists>t'. foldE install_step [0..<?n] ?s1 = Inr (?s1\<lparr>lbio := t'\<rparr>) \<and>
      cache_rel t' (inst ?s1 ?n v) ({} - l_block ?s1 ` {..<?n}) {} \<and>
      memdisk t' = apply_writes (install_writes ?s1 ?n v) (memdisk (lbio ?s1)) \<and>
      wtrace t' = wtrace (lbio ?s1) @ install_writes ?s1 ?n v \<and> disksize t' = disksize (lbio ?s1)"
    by (rule install_loop [OF lay1 h1]) (use t(2) in auto)
  then obtain t2 where t2: "install_trans ?s1 = Inr (?w\<lparr>lbio := t2\<rparr>)" "cache_rel t2 (inst ?s1 ?n v) {} {}"
    "disksize t2 = disksize t"
    by (auto simp: install_trans_def)
  have i: "inst ?s1 ?n v = inst ?w ?n v" by (simp add: inst_def)
  have start: "inst ?w ?n v (l_start s) = v (l_start s)"
    unfolding inst_eq_writes [OF h] by (rule apply_writes_other) (use home_facts(5) [OF h] lw(3) in simp)
  have lay2: "layout (?w\<lparr>lbio := t2, l_n := 0\<rparr>)" using lay1 t2(3) by (simp add: layout_def)
  obtain t3 where t3: "write_head (?w\<lparr>lbio := t2, l_n := 0\<rparr>) = Inr (?w\<lparr>l_n := 0, lbio := t3\<rparr>)"
    "cache_rel t3 ((inst ?w ?n v)(l_start s := put_head 0 (l_block ?w) (v (l_start s)))) {} {}"
    "disksize t3 = disksize t2"
    using write_head_ok [OF lay2, of "inst ?w ?n v" "{}"] t2(2) start by (auto simp: i lw(3))
  have "memdisk t3 = (inst ?w ?n v)(l_start s := put_head 0 (l_block ?w) (v (l_start s)))"
    using cache_relD(10) [OF t3(2)] by (intro ext) simp
  then show ?thesis
    using t(1,3) t2(1,3) t3 by (simp add: recover_from_log_def lw)
qed

lemma reboot_rel:
  assumes "\<And>k. length (d k) = 512"
  shows "cache_rel (lbio (reboot d s)) d {} {}" and "disksize (lbio (reboot d s)) = disksize (lbio s)"
    and "layout s \<Longrightarrow> layout (reboot d s)" and "memdisk (lbio (reboot d s)) = d"
proof -
  let ?b = "(lbio s)\<lparr>bufs := (\<lambda>_. zero_buf), memdisk := d, wtrace := []\<rparr>"
  show "cache_rel (lbio (reboot d s)) d {} {}" using binit_rel [of ?b] assms by (simp add: reboot_def)
  show "disksize (lbio (reboot d s)) = disksize (lbio s)" "memdisk (lbio (reboot d s)) = d"
    using binit_other(1) [of ?b] by (simp_all add: reboot_def same_disk_def)
  then show "layout s \<Longrightarrow> layout (reboot d s)" by (simp add: layout_def reboot_def)
qed

text \<open>Recovery of a disk whose header says that nothing is logged changes the header block only.\<close>

lemma recover_empty:
  assumes lay: "layout s" and len: "\<And>k. length (d k) = 512" and "get32 (d (l_start s)) 0 = 0"
  shows "\<exists>r. recover_from_log (reboot d s) = Inr r \<and> (\<forall>x. x \<noteq> l_start s \<longrightarrow> memdisk (lbio r) x = d x)"
proof -
  let ?s = "reboot d s"
  have st: "l_start ?s = l_start s" by (simp add: reboot_def)
  have w: "l_n (with_head d ?s) = 0" using assms(3) by (simp add: with_head_def st)
  have "homes (with_head d ?s) 0" by (simp add: homes_def)
  with recover_ok [of ?s d] reboot_rel(1,3) [of d s, OF len] lay w st obtain r where
    "recover_from_log ?s = Inr r" "memdisk (lbio r) = (inst (with_head d ?s) 0 d)
        (l_start s := put_head 0 (l_block (with_head d ?s)) (d (l_start s)))" by auto
  then show ?thesis by (simp add: inst_def)
qed

text \<open>Recovery of a disk whose header lists the blocks of \<open>s\<close> copies the log home.\<close>

lemma recover_full:
  assumes lay: "layout s" and len: "\<And>k. length (d k) = 512" and h: "homes s n"
    and hd: "d (l_start s) = put_head (int n) (l_block s) e" "length e = 512"
  shows "\<exists>r. recover_from_log (reboot d s) = Inr r
    \<and> (\<forall>x. x \<noteq> l_start s \<longrightarrow> memdisk (lbio r) x = inst s n d x)"
proof -
  let ?s = "reboot d s"
  have n: "n \<le> LOGSIZE" using h by (simp add: homes_def)
  have st: "l_start ?s = l_start s" by (simp add: reboot_def)
  have w: "l_n (with_head d ?s) = int n" and b: "\<And>i. i < n \<Longrightarrow> l_block (with_head d ?s) i = l_block s i"
    using get_put_head [OF hd(2), where n = "int n" and blk = "l_block s"] n by (simp_all add: with_head_def Let_def st hd(1))
  have fields: "lblk (with_head d ?s) = lblk s" "region (with_head d ?s) = region s"
    "disksize (lbio (with_head d ?s)) = disksize (lbio s)"
    using reboot_rel(2) [of d s, OF len] by (auto simp: with_head_def Let_def lblk_def region_def st fun_eq_iff)
  have h': "homes (with_head d ?s) n" using h b by (auto simp: homes_def fields inj_on_def)
  have "inst (with_head d ?s) n d = inst s n d"
    unfolding inst_eq_writes [OF h] inst_eq_writes [OF h'] install_writes_def fields
    by (intro arg_cong [where f = "\<lambda>ws. apply_writes ws d"] map_cong) (use b in auto)
  moreover from recover_ok [of ?s d] reboot_rel(1,3) [of d s, OF len] lay w h' n st obtain r where
    "recover_from_log ?s = Inr r" "memdisk (lbio r) = (inst (with_head d ?s) n d)
        (l_start s := put_head 0 (l_block (with_head d ?s)) (d (l_start s)))" by auto
  ultimately show ?thesis by simp
qed


section \<open>A crash during commit\<close>

lemma length_apply_writes:
  "\<forall>(k, x) \<in> set ws. length x = 512 \<Longrightarrow> \<forall>k. length (d k) = 512 \<Longrightarrow> length (apply_writes ws d k) = 512"
  by (induction ws arbitrary: d) auto

lemma length_commit_writes:
  assumes "ready s n v"
  shows "\<forall>(k, x) \<in> set (commit_writes s n v). length x = 512"
proof -
  have "n \<le> LOGSIZE" "\<And>k. length (v k) = 512"
    using assms cache_relD(9) [of "lbio s" v] by (auto simp: ready_def homes_def)
  then show ?thesis by (auto simp: commit_writes_def log_writes_def Let_def length_put_head)
qed

lemma take_map_upt: "take m (map f [0..<n]) = map f [0..<min m n]"
  by (simp add: take_map min_def)

lemma crash_safe:
  assumes r: "ready s n v" and k: "k \<le> length (commit_writes s n v)"
  defines "d \<equiv> apply_writes (take k (commit_writes s n v)) (memdisk (lbio s))"
  shows "\<exists>r. recover_from_log (reboot d s) = Inr r
    \<and> (\<forall>x. x \<notin> region s \<longrightarrow> memdisk (lbio r) x = (if k \<le> n then memdisk (lbio s) x else v x))"
proof -
  let ?d0 = "memdisk (lbio s)" and ?h = "put_head (int n) (l_block s) (v (l_start s))"
  let ?I = "map (\<lambda>i. (l_block s i, v (l_block s i))) [0..<n]"
  have lay: "layout s" and h: "homes s n" and R: "cache_rel (lbio s) v (l_block s ` {..<n}) {}"
    and z: "get32 (v (l_start s)) 0 = 0" and len0: "\<forall>k. length (?d0 k) = 512"
    using r by (auto simp: ready_def)
  note hf = home_facts [OF h]
  have same: "v x = ?d0 x" if "x \<notin> l_block s ` {..<n}" for x using cache_relD(10) [OF R that] by simp
  have len: "length (d k) = 512" for k
    unfolding d_def by (rule length_apply_writes)
      (use length_commit_writes [OF r] len0 in_set_takeD in \<open>fast, blast\<close>)
  have lenv: "length (v (l_start s)) = 512" using cache_relD(9) [OF R] .
  have lh: "length ?h = 512" using length_put_head [OF lenv] hf(1) by simp
  have reg: "x \<notin> lblk s ` {..<n}" "x \<noteq> l_start s" if "x \<notin> region s" for x
    using that hf(1) by (auto simp: region_def)
  have ll: "length (log_writes s n v) = n" by (simp add: log_writes_def)
  consider "k \<le> n" | m where "k = n + 1 + m" "m \<le> n" | "k = n + 1 + n + 1"
  proof -
    have "k \<le> n + 1 + n + 1" using k by (simp add: commit_writes_def Let_def ll)
    then show thesis using that(1,3) that(2) [of "k - (n + 1)"] by linarith
  qed
  then show ?thesis
  proof cases
    case 1
    have d: "d = apply_writes (log_writes s k v) ?d0"
      using 1 by (simp add: d_def commit_writes_def Let_def ll) (simp add: log_writes_def take_map_upt min_def)
    have "get32 (d (l_start s)) 0 = 0"
      using log_writes_other [OF lay, of k] 1 hf(1,5) same z by (simp add: d)
    from recover_empty [of s d, OF lay len this] obtain r where "recover_from_log (reboot d s) = Inr r"
      "\<And>x. x \<noteq> l_start s \<Longrightarrow> memdisk (lbio r) x = d x" by blast
    moreover have "d x = ?d0 x" if "x \<notin> region s" for x
      unfolding d by (rule apply_writes_other) (use reg(1) [OF that] 1 in auto)
    ultimately show ?thesis using 1 reg(2) by metis
  next
    case (2 m)
    let ?d1 = "(apply_writes (log_writes s n v) ?d0)(l_start s := ?h)"
    have d: "d = apply_writes (map (\<lambda>i. (l_block s i, v (l_block s i))) [0..<m]) ?d1"
      using 2 by (simp add: d_def commit_writes_def Let_def ll apply_writes_append)
        (simp add: take_map_upt min_def)
    have injm: "inj_on (l_block s) {..<m}" using hf(2) 2(2) by (auto elim: inj_on_subset)
    have other: "d x = ?d1 x" if "x \<notin> l_block s ` {..<m}" for x
      unfolding d by (rule apply_writes_other) (use that in \<open>auto simp: image_image atLeast0LessThan\<close>)
    have sub: "l_block s ` {..<m} \<subseteq> l_block s ` {..<n}" using 2(2) by auto
    have dl: "d (lblk s i) = v (l_block s i)" if "i < n" for i
      using other [of "lblk s i"] hf(1) hf(6) [of i] sub that log_writes_at [OF lay hf(1) that] lblk_not_start [OF lay, of i]
      by auto
    have "d (l_start s) = ?h" using other [of "l_start s"] hf(5) sub by auto
    from recover_full [of s d, OF lay len h this lenv] obtain r where r: "recover_from_log (reboot d s) = Inr r"
      "\<And>x. x \<noteq> l_start s \<Longrightarrow> memdisk (lbio r) x = inst s n d x" by blast
    have "inst s n d x = v x" if "x \<notin> region s" for x
    proof (cases "x \<in> l_block s ` {..<n}")
      case True
      then obtain i where i: "i < n" "x = l_block s i" by blast
      then show ?thesis
        unfolding inst_eq_writes [OF h] install_writes_def using dl by (simp add: apply_writes_at [OF hf(2)])
    next
      case False
      then have "inst s n d x = d x" unfolding inst_eq_writes [OF h] by (intro apply_writes_other) simp
      also have "\<dots> = ?d1 x" using other sub False by blast
      also have "\<dots> = ?d0 x" using reg [OF that] by (simp add: apply_writes_other)
      finally show ?thesis using same [OF False] by simp
    qed
    with r reg(2) 2(1) show ?thesis by auto
  next
    case 3
    have d: "d = (apply_writes ?I ((apply_writes (log_writes s n v) ?d0)(l_start s := ?h)))
        (l_start s := put_head 0 (l_block s) ?h)"
      using 3 by (simp add: d_def commit_writes_def Let_def ll apply_writes_append)
    have "get32 (d (l_start s)) 0 = 0" using lh by (simp add: d put_head_def get32_put32_same)
    from recover_empty [of s d, OF lay len this] obtain r where "recover_from_log (reboot d s) = Inr r"
      "\<And>x. x \<noteq> l_start s \<Longrightarrow> memdisk (lbio r) x = d x" by blast
    moreover have "d x = v x" if "x \<notin> region s" for x
    proof (cases "x \<in> l_block s ` {..<n}")
      case True
      then show ?thesis using reg [OF that] by (auto simp: d apply_writes_at [OF hf(2)])
    next
      case False
      then have "apply_writes ?I e x = e x" for e
        by (intro apply_writes_other) (auto simp: image_image atLeast0LessThan)
      then show ?thesis using reg [OF that] same [OF False] by (simp add: d apply_writes_other)
    qed
    ultimately show ?thesis using 3 reg(2) by auto
  qed
qed


section \<open>The size of a transaction\<close>

lemma begin_op_cases:
  "begin_op s = Inl (Sleep ChLog) \<or>
   (\<exists>s'. begin_op s = Inr s' \<and> s' = s\<lparr>l_outstanding := l_outstanding s + 1\<rparr> \<and> \<not> l_committing s
     \<and> l_n s' + l_outstanding s' * int MAXOPBLOCKS \<le> int LOGSIZE)"
  by (simp add: begin_op_def)

text \<open>\<open>log_write\<close> records a block once, and pins its buffer.\<close>

lemma log_write_ok:
  assumes inj: "inj_on (l_block s) {..<n}" and ln: "l_n s = int n" and room: "n < LOGSIZE" "int n < l_size s - 1"
    and op: "1 \<le> l_outstanding s" and R: "cache_rel (lbio s) v (l_block s ` {..<n}) H" and b: "buf_of (lbio s) b k"
  defines "n' \<equiv> if k \<in> l_block s ` {..<n} then n else n + 1"
  shows "\<exists>s'. log_write b s = Inr s' \<and> l_n s' = int n' \<and> l_block s' ` {..<n'} = insert k (l_block s ` {..<n})
    \<and> inj_on (l_block s') {..<n'} \<and> cache_rel (lbio s') v (l_block s' ` {..<n'}) H
    \<and> (\<forall>i<n. l_block s' i = l_block s i)
    \<and> s' = s\<lparr>l_block := l_block s', l_n := l_n s', lbio := upd_buf b (b_dirty_update (\<lambda>_. True)) (lbio s)\<rparr>"
proof -
  have k: "b_blockno (bufs (lbio s) b) = k" using buf_of_facts(3) [OF R b] .
  let ?t = "upd_buf b (b_dirty_update (\<lambda>_. True)) (lbio s)"
  have mark: "cache_rel ?t v (insert k (l_block s ` {..<n})) H" using mark_rel [OF R b] .
  show ?thesis
  proof (cases "k \<in> l_block s ` {..<n}")
    case True
    then have "\<exists>x \<in> set (map (l_block s) [0..<n]). x = k" by auto
    then obtain i where i: "find_index (\<lambda>j. j = k) (map (l_block s) [0..<n]) = Some i"
      by (metis (mono_tags, lifting) find_index_None not_None_eq)
    then have "i < n" "l_block s i = k" by (auto simp: find_index_Some)
    then have "(l_block s)(i := k) = l_block s" by auto
    then have "log_write b s = Inr (s\<lparr>lbio := ?t\<rparr>)"
      using ln room op i \<open>i < n\<close> by (simp add: log_write_def k)
    then show ?thesis using True ln inj mark by (simp add: n'_def insert_absorb)
  next
    case False
    then have "find_index (\<lambda>j. j = k) (map (l_block s) [0..<n]) = None" by (auto simp: find_index_None)
    then have eq: "log_write b s = Inr (s\<lparr>l_block := (l_block s)(n := k), l_n := int n + 1, lbio := ?t\<rparr>)"
      using ln room op by (simp add: log_write_def k)
    have img: "(l_block s)(n := k) ` {..<n + 1} = insert k (l_block s ` {..<n})"
      by (auto simp: lessThan_Suc image_iff)
    have "inj_on ((l_block s)(n := k)) {..<n + 1}"
      using inj False by (auto simp: inj_on_def lessThan_Suc image_iff)
    with eq img mark False show ?thesis by (simp add: n'_def del: fun_upd_apply) simp
  qed
qed

text \<open>A log with \<open>LOGSIZE\<close> distinct blocks cannot be committed: its blocks pin every buffer.\<close>

lemma commit_full:
  assumes "ready s n v" and n: "n = LOGSIZE"
  shows "commit s = Inl (Panic ''bget: no buffers'')"
proof -
  have lay: "layout s" and h: "homes s n" and ln: "l_n s = int n" and R: "cache_rel (lbio s) v (l_block s ` {..<n}) {}"
    using assms(1) by (auto simp: ready_def)
  note hf = home_facts [OF h]
  have "bget 1 (lblk s 0) (lbio s) = Inl (Panic ''bget: no buffers'')"
    by (rule bget_full [OF R]) (use hf n in auto)
  then have "write_log_step 0 s = Inl (Panic ''bget: no buffers'')"
    using lay by (simp add: write_log_step_def layout_def lblk_def bread_def)
  moreover have "[0..<nat (l_n s)] = 0 # [Suc 0..<n]" using ln n by (simp add: upt_conv_Cons del: upt_Suc)
  ultimately have "write_log s = Inl (Panic ''bget: no buffers'')" by (simp add: write_log_def del: upt_Suc)
  then show ?thesis using ln n by (simp add: commit_def)
qed


section \<open>Properties\<close>

text \<open>A log of 30 blocks at block 2 of an empty disk, as \<^verbatim>\<open>mkfs\<close> lays it out, with one operation running.\<close>

definition empty_log :: logst where
  "empty_log = \<lparr>lbio = binit bss_bio, l_start = 2, l_size = 30, l_outstanding = 1, l_committing = False, l_dev = 1,
     l_n = 0, l_block = (\<lambda>_. 0)\<rparr>"

text \<open>The state after one block has been changed and logged.\<close>

lemma one_logged:
  "\<exists>b t u w. bread 1 100 (lbio empty_log) = Inr (b, t)
    \<and> log_write b (empty_log\<lparr>lbio := upd_buf b (b_data_update (\<lambda>_. replicate 512 1)) t\<rparr>) = Inr u
    \<and> brelse b (lbio u) = Inr w \<and> l_outstanding u = 1 \<and> \<not> l_committing u \<and> wtrace w = wtrace (binit bss_bio)
    \<and> ready (u\<lparr>lbio := w\<rparr>) 1 ((\<lambda>_. replicate 512 0)(100 := replicate 512 1)) \<and> l_start u = 2
    \<and> memdisk w = (\<lambda>_. replicate 512 0)"
proof -
  let ?v = "(\<lambda>_. replicate 512 0)(100 := replicate 512 (1 :: uchar)) :: uint \<Rightarrow> uchar list"
  have R: "cache_rel (lbio empty_log) (\<lambda>_. replicate 512 0) {} {}" by (simp add: empty_log_def bss_bio_rel)
  have sz: "disksize (lbio empty_log) = 5000" by (simp add: empty_log_def bss_bio_size)
  obtain b t where t: "bread 1 100 (lbio empty_log) = Inr (b, t)" "cache_rel t (\<lambda>_. replicate 512 0) {} {100}"
    "buf_of t b 100" "same_disk (lbio empty_log) t"
    by (rule bread_rel [OF R, of 100]) (simp_all add: sz)
  let ?t = "upd_buf b (b_data_update (\<lambda>_. replicate 512 1)) t"
  have R2: "cache_rel ?t ?v {} {100}" using store_rel [OF t(2,3)] by simp
  have b2: "buf_of ?t b 100" using t(3) by (simp add: buf_of_def upd_buf_def)
  let ?s = "empty_log\<lparr>lbio := ?t\<rparr>"
  obtain u where u: "log_write b ?s = Inr u" "l_n u = 1" "l_block u ` {..<1} = {100}"
    "cache_rel (lbio u) ?v {100} {100}"
    "u = ?s\<lparr>l_block := l_block u, l_n := l_n u, lbio := upd_buf b (b_dirty_update (\<lambda>_. True)) ?t\<rparr>"
    using log_write_ok [of ?s 0 ?v "{100}" b 100] R2 b2 by (auto simp: empty_log_def)
  have ut: "lbio u = upd_buf b (b_dirty_update (\<lambda>_. True)) ?t" "l_start u = 2" "l_dev u = 1"
    "l_outstanding u = 1" "\<not> l_committing u"
    by (subst u(5), simp add: empty_log_def)+
  have b3: "buf_of (lbio u) b 100" using b2 by (simp add: ut buf_of_def upd_buf_def)
  obtain w where w: "brelse b (lbio u) = Inr w" "cache_rel w ?v {100} {}" "same_disk (lbio u) w"
    by (rule brelse_rel [OF u(4) b3]) auto
  have "memdisk w = (\<lambda>_. replicate 512 0)" "disksize w = 5000" "wtrace w = wtrace (binit bss_bio)"
    using w(3) t(4) sz by (simp_all add: same_disk_def ut upd_buf_def empty_log_def bss_bio_size)
  note mw = this
  have "l_block u 0 = 100" using u(3) by (simp add: lessThan_Suc)
  then have "homes (u\<lparr>lbio := w\<rparr>) 1" "layout (u\<lparr>lbio := w\<rparr>)"
    using mw ut by (auto simp: layout_def homes_def region_def lblk_def word_less_nat_alt
        unat_inject [symmetric] unat_word_ariths unat_of_nat_uint inj_on_def)
  then have "ready (u\<lparr>lbio := w\<rparr>) 1 ?v" using w(2) u(2,3) ut mw by (simp add: ready_def get32_def)
  with t u w ut mw show ?thesis by blast
qed

text \<open>
  C1. Crash safety: \<open>commit\<close> succeeds, and if the machine stops after any number of its disk writes and
  \<open>recover_from_log\<close> runs on what is then on the disk, every block outside the log has the contents from before
  the transaction, or every block has the contents the transaction gave it. The decision is the write of the
  header after the \<open>n\<close> blocks of the log.
\<close>

theorem commit_crash_atomic:
  assumes "ready s n v" and "0 < n" and "n < NBUF"
  shows "\<exists>t ws. commit s = Inr t \<and> wtrace (lbio t) = wtrace (lbio s) @ ws \<and> length ws = 2 * n + 2 \<and>
    (\<forall>k \<le> length ws. \<exists>r. recover_from_log (reboot (apply_writes (take k ws) (memdisk (lbio s))) s) = Inr r \<and>
      (\<forall>x. x \<notin> region s \<longrightarrow> memdisk (lbio r) x = (if k \<le> n then memdisk (lbio s) x else v x)))"
proof -
  obtain t where t: "commit s = Inr (s\<lparr>l_n := 0, lbio := t\<rparr>)" "wtrace t = wtrace (lbio s) @ commit_writes s n v"
    using commit_ok [OF assms] by blast
  have "length (commit_writes s n v) = 2 * n + 2" by (simp add: commit_writes_def log_writes_def Let_def)
  moreover note crash_safe [OF assms(1)]
  ultimately show ?thesis
    using t by (intro exI [of _ "s\<lparr>l_n := 0, lbio := t\<rparr>"] exI [of _ "commit_writes s n v"]) simp
qed

text \<open>
  \<open>commit\<close> without a crash: every block outside the log has the contents of the transaction, the header on the
  disk counts no block, the cache is clean, and the log is empty.
\<close>

lemma commit_disk:
  assumes "ready s n v" and "0 < n" and "n < NBUF"
  shows "\<exists>t. commit s = Inr t \<and> l_n t = 0 \<and> (\<forall>x. x \<notin> region s \<longrightarrow> memdisk (lbio t) x = v x)
    \<and> get32 (memdisk (lbio t) (l_start s)) 0 = 0 \<and> cache_rel (lbio t) (memdisk (lbio t)) {} {}"
proof -
  obtain t where t: "commit s = Inr (s\<lparr>l_n := 0, lbio := t\<rparr>)" "memdisk t = apply_writes (commit_writes s n v) (memdisk (lbio s))"
    "cache_rel t (memdisk t) {} {}"
    using commit_ok [OF assms] by blast
  note r = assms(1) [unfolded ready_def]
  have hf: "inj_on (l_block s) {..<n}" "l_start s \<notin> l_block s ` {..<n}" using home_facts r by blast+
  have rel: "cache_rel (lbio s) v (l_block s ` {..<n}) {}" using r by blast
  let ?h = "put_head (int n) (l_block s) (v (l_start s))"
  have "length ?h = 512" using r cache_relD(9) [OF rel] by (intro length_put_head) (auto simp: homes_def)
  then have z: "get32 (put_head 0 (l_block s) ?h) 0 = 0" by (simp add: put_head_def get32_put32_same)
  have "memdisk t x = v x" if x: "x \<notin> region s" for x
  proof -
    have x1: "x \<noteq> l_start s" "x \<notin> lblk s ` {..<n}" using x r by (auto simp: region_def homes_def)
    let ?d = "apply_writes (log_writes s n v @ [(l_start s, ?h)]) (memdisk (lbio s))"
    have d: "?d x = memdisk (lbio s) x" using x1 by (intro apply_writes_other) (auto simp: image_Un)
    have "memdisk t x = apply_writes (map (\<lambda>i. (l_block s i, v (l_block s i))) [0..<n]) ?d x"
      using x1 by (simp add: t(2) commit_writes_def Let_def apply_writes_append)
    also have "\<dots> = v x"
    proof (cases "x \<in> l_block s ` {..<n}")
      case True
      then show ?thesis using apply_writes_at [OF hf(1)] by auto
    next
      case False
      then show ?thesis using d cache_relD(10) [OF rel False] by (subst apply_writes_other) auto
    qed
    finally show ?thesis .
  qed
  moreover have "memdisk t (l_start s) = put_head 0 (l_block s) ?h"
    by (simp add: t(2) commit_writes_def Let_def apply_writes_append)
  ultimately show ?thesis using t z by auto
qed

lemma ready_example:
  "\<exists>s. ready s 1 ((\<lambda>_. replicate 512 0)(100 := replicate 512 1)) \<and> 100 \<notin> region s \<and> l_outstanding s = 1
    \<and> \<not> l_committing s \<and> memdisk (lbio s) = (\<lambda>_. replicate 512 0)"
proof -
  obtain u w where s: "ready (u\<lparr>lbio := w\<rparr>) 1 ((\<lambda>_. replicate 512 0)(100 := replicate 512 1))" "l_start u = 2"
    "l_outstanding u = 1" "\<not> l_committing u" "memdisk w = (\<lambda>_. replicate 512 0)"
    using one_logged by blast
  moreover have "100 \<notin> region (u\<lparr>lbio := w\<rparr>)"
    using s(2) by (auto simp: region_def lblk_def unat_inject [symmetric] unat_word_ariths unat_of_nat_uint)
  ultimately show ?thesis by (intro exI [of _ "u\<lparr>lbio := w\<rparr>"]) simp
qed

theorem commit_crash_atomic_witness:
  "\<exists>s t ws. commit s = Inr t \<and> length ws = 4 \<and> wtrace (lbio t) = wtrace (lbio s) @ ws \<and>
    (\<forall>k \<le> 4. \<exists>r. recover_from_log (reboot (apply_writes (take k ws) (memdisk (lbio s))) s) = Inr r \<and>
      memdisk (lbio r) 100 = replicate 512 (if k \<le> 1 then 0 else 1))"
proof -
  obtain s where s: "ready s 1 ((\<lambda>_. replicate 512 0)(100 := replicate 512 1))" "100 \<notin> region s"
    "memdisk (lbio s) = (\<lambda>_. replicate 512 0)"
    using ready_example by blast
  obtain t ws where "commit s = Inr t" "wtrace (lbio t) = wtrace (lbio s) @ ws" "length ws = 4"
    "\<And>k. k \<le> 4 \<Longrightarrow> \<exists>r. recover_from_log (reboot (apply_writes (take k ws) (memdisk (lbio s))) s) = Inr r \<and>
      (\<forall>x. x \<notin> region s \<longrightarrow> memdisk (lbio r) x =
         (if k \<le> 1 then memdisk (lbio s) x else ((\<lambda>_. replicate 512 0)(100 := replicate 512 1)) x))"
    using commit_crash_atomic [OF s(1)] by auto
  then show ?thesis using s(2,3) by (intro exI [of _ s] exI [of _ t] exI [of _ ws]) fastforce
qed

lemma ready_flags [simp]: "ready (s\<lparr>l_outstanding := a, l_committing := c\<rparr>) n v = ready s n v"
  by (simp add: ready_def layout_def homes_def region_def lblk_def)

text \<open>
  C18. The \<open>end_op\<close> of the last running operation commits the whole group: the disk has the contents that the
  operations gave their blocks, the log is empty and free, and sleepers on the log are woken.
\<close>

theorem end_op_commits:
  assumes "ready s n v" and "0 < n" and "n < NBUF" and "l_outstanding s = 1" and "\<not> l_committing s"
  shows "\<exists>t. end_op s = Inr t \<and> l_n t = 0 \<and> l_outstanding t = 0 \<and> \<not> l_committing t
    \<and> (\<forall>x. x \<notin> region s \<longrightarrow> memdisk (lbio t) x = v x) \<and> ChLog \<in> set (wakeups (lbio t))"
proof -
  let ?s = "s\<lparr>l_outstanding := 0, l_committing := True\<rparr>"
  have "ready ?s n v" using assms(1) by simp
  from commit_ok [OF this assms(2,3)] obtain t where t: "commit ?s = Inr (?s\<lparr>l_n := 0, lbio := t\<rparr>)" by blast
  have "region ?s = region s" by (simp add: region_def lblk_def)
  then have "\<forall>x. x \<notin> region s \<longrightarrow> memdisk t x = v x"
    using commit_disk [OF \<open>ready ?s n v\<close> assms(2,3)] t by auto
  then show ?thesis using t assms(4,5) by (simp add: end_op_def log_wakeup_def Let_def)
qed

theorem end_op_commits_witness:
  "\<exists>s t. end_op s = Inr t \<and> l_n t = 0 \<and> memdisk (lbio s) 100 = replicate 512 0 \<and> memdisk (lbio t) 100 = replicate 512 1"
proof -
  obtain s where s: "ready s 1 ((\<lambda>_. replicate 512 0)(100 := replicate 512 1))" "100 \<notin> region s"
    "memdisk (lbio s) = (\<lambda>_. replicate 512 0)" "l_outstanding s = 1" "\<not> l_committing s"
    using ready_example by blast
  obtain t where "end_op s = Inr t" "l_n t = 0" "memdisk (lbio t) 100 = replicate 512 1"
    using end_op_commits [OF s(1) _ _ s(4,5)] s(2) by force
  then show ?thesis using s(3) by (intro exI [of _ s] exI [of _ t]) simp
qed


section \<open>Running operations\<close>

text \<open>
  Operations that each log at most \<open>MAXOPBLOCKS\<close> blocks. The list has, for each operation between its
  \<open>begin_op\<close> and its \<open>end_op\<close>, the number of blocks it may still log; the buffers change freely between the calls.
\<close>

inductive log_run :: "logst \<Rightarrow> nat list \<Rightarrow> bool" where
  fresh: "l_n s = 0 \<Longrightarrow> l_outstanding s = 0 \<Longrightarrow> \<not> l_committing s \<Longrightarrow> log_run s []"
| start: "log_run s bs \<Longrightarrow> begin_op s = Inr t \<Longrightarrow> log_run t (MAXOPBLOCKS # bs)"
| log: "log_run s (xs @ Suc b # ys) \<Longrightarrow> log_write k s = Inr t \<Longrightarrow> log_run t (xs @ b # ys)"
| buffers: "log_run s bs \<Longrightarrow> log_run (s\<lparr>lbio := t\<rparr>) bs"
| finish: "log_run s (xs @ b # ys) \<Longrightarrow> end_op s = Inr t \<Longrightarrow> log_run t (xs @ ys)"

definition log_inv :: "logst \<Rightarrow> nat list \<Rightarrow> bool" where
  "log_inv s bs \<longleftrightarrow> 0 \<le> l_n s \<and> l_n s + int (sum_list bs) \<le> int LOGSIZE \<and> l_outstanding s = int (length bs) \<and> \<not> l_committing s
     \<and> (\<forall>b \<in> set bs. b \<le> MAXOPBLOCKS)"

lemma sum_list_bounded: "(\<forall>b \<in> set bs. b \<le> m) \<Longrightarrow> sum_list bs \<le> length bs * m" for m :: nat
  by (induction bs) auto

text \<open>The loops of \<open>commit\<close> change nothing but the buffers.\<close>

definition buffers_only :: "logst \<Rightarrow> logst \<Rightarrow> bool" where
  "buffers_only s t \<longleftrightarrow> (\<exists>b. t = s\<lparr>lbio := b\<rparr>)"

lemma buffers_only_trans: "buffers_only s t \<Longrightarrow> buffers_only t u \<Longrightarrow> buffers_only s u"
  by (auto simp: buffers_only_def)

lemma commit_steps:
  "write_log_step i s = Inr t \<Longrightarrow> buffers_only s t" "install_step i s = Inr t \<Longrightarrow> buffers_only s t"
  "write_head s = Inr t \<Longrightarrow> buffers_only s t"
  by (auto simp: write_log_step_def install_step_def write_head_def bindE_eq_Inr buffers_only_def Let_def)

lemma foldE_buffers:
  assumes "foldE f xs s = Inr t" and "\<And>x s t. f x s = Inr t \<Longrightarrow> buffers_only s t"
  shows "buffers_only s t"
proof (rule foldE_preserves [where P = "buffers_only s", OF assms(1)])
  show "buffers_only s s" by (auto simp: buffers_only_def intro: exI [of _ "lbio s"])
qed (use assms(2) buffers_only_trans in blast)

lemma commit_frame:
  assumes "commit s = Inr t"
  shows "buffers_only (s\<lparr>l_n := (if l_n s > 0 then 0 else l_n s)\<rparr>) t"
proof (cases "l_n s > 0")
  case True
  then obtain s1 s2 s3 where c: "write_log s = Inr s1" "write_head s1 = Inr s2" "install_trans s2 = Inr s3"
    "write_head (s3\<lparr>l_n := 0\<rparr>) = Inr t"
    using assms by (auto simp: commit_def bindE_eq_Inr)
  have "buffers_only s s1" "buffers_only s2 s3"
    using c(1,3) unfolding write_log_def install_trans_def by (blast intro: foldE_buffers commit_steps)+
  moreover have "buffers_only s1 s2" "buffers_only (s3\<lparr>l_n := 0\<rparr>) t" using c(2,4) by (blast intro: commit_steps)+
  ultimately show ?thesis using True by (auto simp: buffers_only_def)
next
  case False
  then show ?thesis using assms by (auto simp: commit_def buffers_only_def intro: exI [of _ "lbio s"])
qed

lemma log_write_frame:
  assumes "log_write k s = Inr t"
  shows "l_n t \<le> l_n s + 1" and "l_n s \<le> l_n t" and "l_outstanding t = l_outstanding s" and "l_committing t = l_committing s"
    and "l_size t = l_size s"
  using assms by (auto simp: log_write_def Let_def split: if_splits)

lemma end_op_frame:
  assumes "end_op s = Inr t" and "0 \<le> l_n s"
  shows "0 \<le> l_n t" and "l_n t \<le> l_n s" and "l_outstanding t = l_outstanding s - 1" and "\<not> l_committing t"
    and "l_outstanding t = 0 \<Longrightarrow> l_n t = 0"
  using assms
  by (auto simp: end_op_def log_wakeup_def Let_def bindE_eq_Inr buffers_only_def split: if_splits dest!: commit_frame)

lemma log_inv_run: "log_run s bs \<Longrightarrow> log_inv s bs"
proof (induction rule: log_run.induct)
  case (start s bs t)
  then have "sum_list bs \<le> length bs * MAXOPBLOCKS" by (intro sum_list_bounded) (simp add: log_inv_def)
  with start show ?case by (auto simp: log_inv_def begin_op_def split: if_splits)
next
  case (log s xs b ys k t)
  then show ?case using log_write_frame [OF log(2)] by (auto simp: log_inv_def)
next
  case (finish s xs b ys t)
  then show ?case using end_op_frame [OF finish(2)] by (auto simp: log_inv_def)
qed (auto simp: log_inv_def)

text \<open>
  C16. When the log on the disk has a block more than \<open>LOGSIZE\<close>, the admission test of \<open>begin_op\<close> is enough: an
  operation that stays within its \<open>MAXOPBLOCKS\<close> blocks can always log, whatever other operations are running.
\<close>

theorem log_write_admitted:
  assumes "log_run s (xs @ Suc b # ys)" and "int LOGSIZE < l_size s"
  shows "\<exists>t. log_write k s = Inr t \<and> log_run t (xs @ b # ys)"
proof -
  have i: "log_inv s (xs @ Suc b # ys)" using log_inv_run [OF assms(1)] .
  then have "\<exists>t. log_write k s = Inr t" using assms(2) by (auto simp: log_inv_def log_write_def Let_def)
  then show ?thesis using log_run.log [OF assms(1)] by blast
qed

theorem log_write_admitted_witness:
  "\<exists>s t. log_run s [MAXOPBLOCKS] \<and> l_size s = 31 \<and> log_write 0 s = Inr t \<and> log_run t [9]"
proof -
  let ?e = "empty_log\<lparr>l_outstanding := 0, l_size := 31\<rparr>"
  have "log_run ?e []" by (rule fresh) (simp_all add: empty_log_def)
  then have r: "log_run (?e\<lparr>l_outstanding := 1\<rparr>) [MAXOPBLOCKS]"
    by (rule start) (simp add: begin_op_def empty_log_def)
  then show ?thesis using log_write_admitted [of _ "[]" 9 "[]" 0, simplified, OF r] by (auto simp: empty_log_def)
qed

text \<open>A log of \<open>n\<close> blocks, with as many buffers as needed for the next ones.\<close>

definition full_log :: "int \<Rightarrow> nat \<Rightarrow> logst" where
  "full_log sz n = empty_log\<lparr>lbio := (binit bss_bio)\<lparr>bufs := (\<lambda>b. zero_buf\<lparr>b_blockno := of_nat b\<rparr>)\<rparr>,
     l_size := sz, l_outstanding := 3, l_n := int n, l_block := (\<lambda>i. if i < n then of_nat i else 0)\<rparr>"

lemma log_write_next:
  assumes "n < 30" and "int n < sz - 1"
  shows "\<exists>b. log_write n (full_log sz n) = Inr ((full_log sz (Suc n))\<lparr>lbio := b\<rparr>)"
proof -
  have "find_index (\<lambda>k. k = of_nat n) (map (l_block (full_log sz n)) [0..<n]) = None"
    using assms(1) by (auto simp: find_index_None full_log_def unat_inject [symmetric] unat_of_nat_uint)
  then have "log_write n (full_log sz n) = Inr ((full_log sz n)\<lparr>l_block := (l_block (full_log sz n))(n := of_nat n),
      l_n := int (Suc n), lbio := upd_buf n (b_dirty_update (\<lambda>_. True)) (lbio (full_log sz n))\<rparr>)"
    using assms by (simp add: log_write_def full_log_def empty_log_def Let_def)
  moreover have "(\<lambda>i. if i < n then of_nat i else 0)(n := of_nat n) = (\<lambda>i. if i < Suc n then of_nat i else (0 :: uint))"
    by (auto simp: less_Suc_eq)
  ultimately show ?thesis by (auto simp: full_log_def empty_log_def)
qed

lemma full_log_run:
  "n \<le> 29 \<Longrightarrow> \<exists>bs. log_run (full_log 30 n) bs \<and> sum_list bs = 30 - n \<and> length bs = 3"
proof (induction n)
  case 0
  let ?e = "(full_log 30 0)\<lparr>l_outstanding := 0\<rparr>"
  have "log_run ?e []" by (rule fresh) (simp_all add: full_log_def empty_log_def)
  then have "log_run (?e\<lparr>l_outstanding := 1\<rparr>) [10]"
    by (rule start) (simp add: begin_op_def full_log_def empty_log_def)
  then have "log_run (?e\<lparr>l_outstanding := 2\<rparr>) [10, 10]"
    by (rule start) (simp add: begin_op_def full_log_def empty_log_def)
  then have "log_run (?e\<lparr>l_outstanding := 3\<rparr>) [10, 10, 10]"
    by (rule start) (simp add: begin_op_def full_log_def empty_log_def)
  moreover have "?e\<lparr>l_outstanding := 3\<rparr> = full_log 30 0" by (simp add: full_log_def)
  ultimately show ?case by (intro exI [of _ "[10, 10, 10]"]) simp
next
  case (Suc n)
  then obtain bs where bs: "log_run (full_log 30 n) bs" "sum_list bs = 30 - n" "length bs = 3" by auto
  then have "sum_list bs \<noteq> 0" using Suc(2) by simp
  then obtain c where "c \<in> set bs" "c \<noteq> 0" by auto
  then obtain xs b ys where b: "bs = xs @ Suc b # ys" by (metis not0_implies_Suc split_list)
  obtain t where "log_write n (full_log 30 n) = Inr ((full_log 30 (Suc n))\<lparr>lbio := t\<rparr>)"
    using log_write_next [of n 30] Suc(2) by auto
  from log_run.log [OF bs(1) [unfolded b] this] have "log_run ((full_log 30 (Suc n))\<lparr>lbio := t\<rparr>) (xs @ b # ys)" .
  from log_run.buffers [OF this, of "lbio (full_log 30 (Suc n))"] have "log_run (full_log 30 (Suc n)) (xs @ b # ys)"
    by simp
  then show ?case using bs(2,3) b Suc(2) by (intro exI [of _ "xs @ b # ys"]) auto
qed

text \<open>
  C17. With the log of 30 blocks that \<^verbatim>\<open>mkfs\<close> makes, the admission test of \<open>begin_op\<close> admits too much: three running
  operations, none of which has used up its share of ten blocks, reach a state in which \<open>log_write\<close> panics.
\<close>

theorem log_reservation_gap:
  "\<exists>s xs b ys k. log_run s (xs @ Suc b # ys) \<and> l_size s = 30 \<and> log_write k s = Inl (Panic ''too big a transaction'')"
proof -
  obtain bs where bs: "log_run (full_log 30 29) bs" "sum_list bs = 1" using full_log_run [of 29] by auto
  then have "sum_list bs \<noteq> 0" by simp
  then obtain c where "c \<in> set bs" "c \<noteq> 0" by auto
  then obtain xs b ys where b: "bs = xs @ Suc b # ys" by (metis not0_implies_Suc split_list)
  have "log_write 29 (full_log 30 29) = Inl (Panic ''too big a transaction'')" "l_size (full_log 30 29) = 30"
    by (simp_all add: log_write_def full_log_def)
  then show ?thesis using bs(1) b by blast
qed

end
