(* ===== verification/Ring.thy ===== *)
theory Ring
  imports Prelude
begin

text \<open>
  Ring buffers with free-running 32-bit indices, as the console and the pipes use them: an element
  with index \<open>i\<close> lives in slot \<open>i mod N\<close>, and \<open>w - r\<close> elements are in the buffer. Since \<open>N\<close> divides
  \<open>2^32\<close>, the indices may wrap around. The locale refines such a buffer to a list.
\<close>

definition ring_slot :: "nat \<Rightarrow> uint \<Rightarrow> nat" where
  "ring_slot N i = unat (i mod of_nat N)"

definition ring_list :: "nat \<Rightarrow> (nat \<Rightarrow> 'a) \<Rightarrow> uint \<Rightarrow> uint \<Rightarrow> 'a list" where
  "ring_list N buf r w = map (\<lambda>i. buf (ring_slot N (r + of_nat i))) [0..<unat (w - r)]"

lemma length_ring_list [simp]: "length (ring_list N buf r w) = unat (w - r)"
  by (simp add: ring_list_def)

lemma ring_list_empty [simp]: "ring_list N buf r r = []"
  by (simp add: ring_list_def)

lemma unat_diff_Suc: "r \<noteq> w \<Longrightarrow> unat (w - r) = Suc (unat (w - (r + 1)))" for r w :: uint
proof -
  assume "r \<noteq> w"
  then have "w - r \<noteq> 0" by simp
  moreover have "w - (r + 1) = (w - r) - 1" by simp
  ultimately show ?thesis
    using unat_minus_one [of "w - r"] by (metis Suc_pred neq0_conv unat_eq_zero One_nat_def)
qed

text \<open>Taking the first element.\<close>

lemma ring_list_pop:
  assumes "r \<noteq> w"
  shows "ring_list N buf r w = buf (ring_slot N r) # ring_list N buf (r + 1) w"
  by (simp add: ring_list_def unat_diff_Suc [OF assms] upt_conv_Cons map_Suc_upt [symmetric] comp_def
      add.assoc del: upt_Suc)

locale ring_buffer =
  fixes N :: nat
  assumes pos: "0 < N" and small: "N < 4294967296" and divides: "N dvd 4294967296"
begin

lemma slot_eq: "ring_slot N (r + of_nat i) = (unat r + i) mod N"
proof -
  have "unat (r + of_nat i) = (unat r + i) mod 4294967296"
    by (simp add: unat_word_ariths unat_of_nat mod_simps)
  moreover have "unat (of_nat N :: uint) = N" using small by (simp add: unat_of_nat)
  ultimately show ?thesis using divides by (simp add: ring_slot_def unat_mod_distrib mod_mod_cancel)
qed

lemma slot_less: "ring_slot N i < N"
  using slot_eq [of i 0] pos by simp

lemma slot_inject:
  "i < N \<Longrightarrow> k < N \<Longrightarrow> ring_slot N (r + of_nat i) = ring_slot N (r + of_nat k) \<Longrightarrow> i = k"
proof (induction i k rule: linorder_wlog)
  case (le i k)
  then have "(unat r + k) mod N = (unat r + i) mod N" by (simp add: slot_eq)
  then have "N dvd (unat r + k) - (unat r + i)" using le(1) by (subst (asm) mod_eq_dvd_iff_nat) auto
  then have "N dvd k - i" by simp
  then show ?case using le(1,3) by (auto dest: dvd_imp_le)
next
  case (sym i k)
  then show ?case by simp
qed

text \<open>Overwriting the slot of index \<open>w\<close> keeps the elements before it while the buffer is not full.\<close>

lemma ring_list_keep:
  assumes "unat (w - r) < N" and "unat (v - r) \<le> unat (w - r)"
  shows "ring_list N (buf(ring_slot N w := c)) r v = ring_list N buf r v"
  unfolding ring_list_def
proof (rule map_cong [OF refl])
  fix i assume "i \<in> set [0..<unat (v - r)]"
  then have "i < unat (w - r)" using assms(2) by simp
  moreover have "w = r + of_nat (unat (w - r))" by simp
  ultimately have "ring_slot N (r + of_nat i) \<noteq> ring_slot N w"
    using slot_inject [of i "unat (w - r)" r] assms(1) by force
  then show "(buf(ring_slot N w := c)) (ring_slot N (r + of_nat i)) = buf (ring_slot N (r + of_nat i))" by simp
qed

lemma size_push:
  fixes r w :: uint
  assumes "unat (w - r) < N"
  shows "unat (w + 1 - r) = Suc (unat (w - r))"
proof -
  have d: "w + 1 - r = (w - r) + 1" by simp
  have "unat ((w - r) + 1) = unat (w - r) + unat (1 :: uint)"
    by (rule unat_add_lem [THEN iffD1]) (use assms small in simp)
  then show ?thesis unfolding d by simp
qed

lemma ring_list_push:
  assumes "unat (w - r) < N"
  shows "ring_list N (buf(ring_slot N w := c)) r (w + 1) = ring_list N buf r w @ [c]"
proof -
  let ?b = "buf(ring_slot N w := c)"
  have "ring_list N ?b r (w + 1) = ring_list N ?b r w @ [?b (ring_slot N (r + of_nat (unat (w - r))))]"
    by (simp add: ring_list_def size_push [OF assms])
  then show ?thesis using ring_list_keep [OF assms order_refl] by simp
qed

end

interpretation ring128: ring_buffer 128
  by unfold_locales simp_all

interpretation ring512: ring_buffer 512
  by unfold_locales simp_all

end
