(* ===== verification/Console.thy ===== *)
theory Console
  imports Strings Ring
begin

text \<open>
  \<^verbatim>\<open>console.c\<close>, with the transmit side of \<^verbatim>\<open>uart.c\<close>: formatted output, the CGA text screen and the
  input line buffer. The cursor registers of the video controller hold the position \<open>crt_pos\<close>; the
  screen is the array \<open>crt\<close> of 16-bit cells. \<open>consoleread\<close> and \<open>consolewrite\<close> are the parts of these
  functions between \<open>iunlock\<close> and \<open>ilock\<close>; the file system adds these two calls. The characters
  \<open>consoleintr\<close> takes from its callback are a list.
\<close>

record console =
  panicked :: bool
  uart :: bool
  uart_out :: "uchar list"
  crt :: "nat \<Rightarrow> ushort"
  crt_pos :: int
  in_buf :: "nat \<Rightarrow> uchar"
  in_r :: uint
  in_w :: uint
  in_e :: uint
  con_wakeups :: "wchan list"

abbreviation (input) BACKSPACE :: uint where "BACKSPACE \<equiv> 0x100"
abbreviation (input) INPUT_BUF :: "'a::numeral" where "INPUT_BUF \<equiv> 128"


section \<open>Output\<close>

definition uartputc :: "uint \<Rightarrow> console \<Rightarrow> console" where
  "uartputc c s = (if \<not> uart s then s else s\<lparr>uart_out := uart_out s @ [ucast c]\<rparr>)"

definition cga_place :: "uint \<Rightarrow> console \<Rightarrow> console" where
  "cga_place c s =
    (let pos = crt_pos s in
     if c = 10 then s\<lparr>crt_pos := pos + (80 - pos mod 80)\<rparr>
     else if c = BACKSPACE then (if pos > 0 then s\<lparr>crt_pos := pos - 1\<rparr> else s)
     else s\<lparr>crt := (crt s)(nat pos := ucast (c AND 0xFF) OR 0x0700), crt_pos := pos + 1\<rparr>)"

definition cga_scroll :: "console \<Rightarrow> console" where
  "cga_scroll s =
    (if crt_pos s div 80 \<ge> 24 then
       let m = (\<lambda>i. if i < 23 * 80 then crt s (i + 80) else crt s i);
           pos = crt_pos s - 80
       in s\<lparr>crt := (\<lambda>i. if nat pos \<le> i \<and> i < 24 * 80 then 0 else m i), crt_pos := pos\<rparr>
     else s)"

definition cgaputc :: "uint \<Rightarrow> console \<Rightarrow> kerror + console" where
  "cgaputc c s =
    (let s = cga_place c s in
     if crt_pos s < 0 \<or> crt_pos s > 25 * 80 then Inl (Panic ''pos under/overflow'')
     else let s = cga_scroll s in
       Inr (s\<lparr>crt := (crt s)(nat (crt_pos s) := 0x20 OR 0x0700)\<rparr>))"

definition consputc :: "uint \<Rightarrow> console \<Rightarrow> kerror + console" where
  "consputc c s =
    (if panicked s then Inl Hang
     else cgaputc c
       (if c = BACKSPACE then uartputc 8 (uartputc 32 (uartputc 8 s)) else uartputc c s))"

definition consputs :: "uchar list \<Rightarrow> console \<Rightarrow> kerror + console" where
  "consputs cs s = foldE (\<lambda>c. consputc (ucast c)) cs s"

text \<open>
  The digits \<open>printint\<close> stores in \<open>buf\<close>, least significant first; the fuel is the size of \<open>buf\<close>, and a
  number with more digits would overrun it.
\<close>

definition digit :: "uint \<Rightarrow> uchar" where
  "digit x = (if x < 10 then 48 + ucast x else 87 + ucast x)"

fun printint_digits :: "nat \<Rightarrow> uint \<Rightarrow> uint \<Rightarrow> uchar list option" where
  "printint_digits 0 x base = None"
| "printint_digits (Suc n) x base =
    (if x div base \<noteq> 0
     then map_option (\<lambda>ds. digit (x mod base) # ds) (printint_digits n (x div base) base)
     else Some [digit (x mod base)])"

definition printint_text :: "uint \<Rightarrow> uint \<Rightarrow> bool \<Rightarrow> uchar list option" where
  "printint_text xx base sign =
    (let sign = sign \<and> sint xx < 0; x = if sign then - xx else xx in
     map_option (\<lambda>ds. rev (if sign then ds @ [45] else ds)) (printint_digits 16 x base))"

definition printint :: "uint \<Rightarrow> uint \<Rightarrow> bool \<Rightarrow> console \<Rightarrow> kerror + console" where
  "printint xx base sign s =
    (case printint_text xx base sign of None \<Rightarrow> Inl (Fault ''printint buf'') | Some cs \<Rightarrow> consputs cs s)"

text \<open>The bytes of a string constant.\<close>

definition bytes :: "string \<Rightarrow> uchar list" where
  "bytes cs = map of_char cs"

text \<open>
  \<open>cprintf\<close> reads its arguments from the stack: \<open>args\<close> are the words there, and \<open>str\<close> gives the string
  at an address. A format that asks for more arguments than there are reads past them.
\<close>

fun cprintf :: "(uint \<Rightarrow> uchar list) \<Rightarrow> uchar list \<Rightarrow> uint list \<Rightarrow> console \<Rightarrow> kerror + console" where
  "cprintf str [] args s = Inr s"
| "cprintf str (c # fmt) args s =
    (if c = 0 then Inr s
     else if c \<noteq> 37 then bindE (consputc (ucast c) s) (cprintf str fmt args)
     else case fmt of
       [] \<Rightarrow> Inr s
     | c # fmt \<Rightarrow>
       if c = 0 then Inr s
       else if c = 100 \<or> c = 120 \<or> c = 112 \<or> c = 115 then
         (case args of
            [] \<Rightarrow> Inl (Fault ''cprintf args'')
          | a # args \<Rightarrow>
            bindE (if c = 100 then printint a 10 True s
                   else if c = 120 \<or> c = 112 then printint a 16 False s
                   else consputs (if a = 0 then [40, 110, 117, 108, 108, 41] else cstr (str a)) s)
              (cprintf str fmt args))
       else if c = 37 then bindE (consputc 37 s) (cprintf str fmt args)
       else bindE (consputc 37 s) (\<lambda>s. bindE (consputc (ucast c) s) (cprintf str fmt args)))"


section \<open>Input\<close>

lemma place_input:
  "in_e (cga_place c s) = in_e s" "in_w (cga_place c s) = in_w s" "in_r (cga_place c s) = in_r s"
  "in_buf (cga_place c s) = in_buf s" "con_wakeups (cga_place c s) = con_wakeups s"
  by (simp_all add: cga_place_def Let_def)

lemma scroll_input:
  "in_e (cga_scroll s) = in_e s" "in_w (cga_scroll s) = in_w s" "in_r (cga_scroll s) = in_r s"
  "in_buf (cga_scroll s) = in_buf s" "con_wakeups (cga_scroll s) = con_wakeups s"
  by (simp_all add: cga_scroll_def Let_def)

lemma uart_input:
  "in_e (uartputc c s) = in_e s" "in_w (uartputc c s) = in_w s" "in_r (uartputc c s) = in_r s"
  "in_buf (uartputc c s) = in_buf s" "con_wakeups (uartputc c s) = con_wakeups s"
  by (simp_all add: uartputc_def)

lemmas input_kept = place_input scroll_input uart_input

lemma consputc_input:
  assumes "consputc c s = Inr s'"
  shows "in_e s' = in_e s" "in_w s' = in_w s" "in_r s' = in_r s" "in_buf s' = in_buf s"
    "con_wakeups s' = con_wakeups s"
proof -
  have "in_e s' = in_e s \<and> in_w s' = in_w s \<and> in_r s' = in_r s \<and> in_buf s' = in_buf s
    \<and> con_wakeups s' = con_wakeups s"
    using assms by (auto simp: consputc_def cgaputc_def Let_def input_kept split: if_split_asm)
  then show "in_e s' = in_e s" "in_w s' = in_w s" "in_r s' = in_r s" "in_buf s' = in_buf s"
    "con_wakeups s' = con_wakeups s" by simp_all
qed

text \<open>The loop of \<open>C('U')\<close>.\<close>

function kill_line :: "console \<Rightarrow> kerror + console" where
  "kill_line s =
    (if in_e s \<noteq> in_w s \<and> in_buf s (unat ((in_e s - 1) mod INPUT_BUF)) \<noteq> 10 then
       bindE (consputc BACKSPACE (s\<lparr>in_e := in_e s - 1\<rparr>)) kill_line
     else Inr s)"
  by pat_completeness auto
termination
proof (relation "measure (\<lambda>s. unat (in_e s - in_w s))")
  fix s t
  assume e: "in_e s \<noteq> in_w s \<and> in_buf s (unat ((in_e s - 1) mod INPUT_BUF)) \<noteq> 10"
    and "consputc BACKSPACE (s\<lparr>in_e := in_e s - 1\<rparr>) = Inr t"
  then have "in_e t - in_w t = in_e s - in_w s - 1" by (simp add: consputc_input)
  moreover have "in_e s - in_w s \<noteq> 0" using e by simp
  ultimately show "(t, s) \<in> measure (\<lambda>s. unat (in_e s - in_w s))"
    by (simp add: unat_minus_one) (simp add: unat_gt_0)
qed simp

declare kill_line.simps [simp del]

definition insert_char :: "uint \<Rightarrow> console \<Rightarrow> kerror + console" where
  "insert_char c s =
    (if c \<noteq> 0 \<and> in_e s - in_r s < INPUT_BUF then
       let c = (if c = 13 then 10 else c) in
       bindE (consputc c (s\<lparr>in_buf := (in_buf s)(unat (in_e s mod INPUT_BUF) := ucast c), in_e := in_e s + 1\<rparr>)) (\<lambda>s.
         Inr (if c = 10 \<or> c = 4 \<or> in_e s = in_r s + INPUT_BUF
              then s\<lparr>in_w := in_e s, con_wakeups := con_wakeups s @ [ChInput]\<rparr> else s))
     else Inr s)"

text \<open>
  \<open>consoleintr\<close> on the characters its callback returns before the first negative value; the result
  says whether the process listing was asked for.
\<close>

definition consoleintr_char :: "uint \<Rightarrow> bool \<times> console \<Rightarrow> kerror + bool \<times> console" where
  "consoleintr_char c = (\<lambda>(doprocdump, s).
    (if c = 15 \<or> c = 16 then Inr (True, s)
     else if c = 21 then bindE (kill_line s) (\<lambda>s. Inr (doprocdump, s))
     else if c = 8 \<or> c = 0x7F then
       (if in_e s \<noteq> in_w s
        then bindE (consputc BACKSPACE (s\<lparr>in_e := in_e s - 1\<rparr>)) (\<lambda>s. Inr (doprocdump, s))
        else Inr (doprocdump, s))
     else bindE (insert_char c s) (\<lambda>s. Inr (doprocdump, s))))"

definition consoleintr :: "uint list \<Rightarrow> console \<Rightarrow> kerror + bool \<times> console" where
  "consoleintr cs s = foldE consoleintr_char cs (False, s)"

text \<open>
  The loop of \<open>consoleread\<close> up to its end or to the next call of \<open>sleep\<close>: \<open>n\<close> bytes are still wanted, \<open>got\<close>
  have been stored. A reader that has to wait has taken every pending character; it goes on with the
  loop, for the bytes still wanted, when it is woken.
\<close>

datatype console_result = ReadDone int | ReadWait nat

fun consoleread_loop :: "bool \<Rightarrow> nat \<Rightarrow> uchar list \<Rightarrow> console \<Rightarrow> console_result \<times> uchar list \<times> console" where
  "consoleread_loop killed 0 got s = (ReadDone (int (length got)), got, s)"
| "consoleread_loop killed (Suc n) got s =
    (if in_r s = in_w s then (if killed then ReadDone (-1) else ReadWait (Suc n), got, s)
     else
       let c = in_buf s (unat (in_r s mod INPUT_BUF)); s1 = s\<lparr>in_r := in_r s + 1\<rparr> in
       if c = 4 then
         (ReadDone (int (length got)), got, if got \<noteq> [] then s1\<lparr>in_r := in_r s1 - 1\<rparr> else s1)
       else if c = 10 then (ReadDone (int (length (got @ [c]))), got @ [c], s1)
       else consoleread_loop killed n (got @ [c]) s1)"

definition consoleread :: "bool \<Rightarrow> int \<Rightarrow> console \<Rightarrow> kerror + (int \<times> uchar list) \<times> console" where
  "consoleread killed n s =
    (case consoleread_loop killed (nat n) [] s of
       (ReadDone r, got, s) \<Rightarrow> Inr ((r, got), s)
     | (ReadWait m, got, s) \<Rightarrow> Inl (Sleep ChInput))"

definition consolewrite :: "uchar list \<Rightarrow> console \<Rightarrow> kerror + int \<times> console" where
  "consolewrite cs s = bindE (consputs cs s) (\<lambda>s. Inr (int (length cs), s))"


section \<open>The screen\<close>

definition screen_ok :: "console \<Rightarrow> bool" where
  "screen_ok s \<longleftrightarrow> \<not> panicked s \<and> 0 \<le> crt_pos s \<and> crt_pos s < 24 * 80"

lemma consputc_ok:
  assumes "screen_ok s"
  shows "\<exists>s'. consputc c s = Inr s' \<and> screen_ok s'"
proof -
  have u: "screen_ok (uartputc d t)" if "screen_ok t" for d t using that by (simp add: screen_ok_def uartputc_def)
  have g: "\<exists>t'. cgaputc c t = Inr t' \<and> screen_ok t'" if "screen_ok t" for t
  proof -
    have p: "0 \<le> crt_pos t" "crt_pos t < 1920" using that by (auto simp: screen_ok_def)
    have "crt_pos t + (80 - crt_pos t mod 80) \<le> 1920" "0 < 80 - crt_pos t mod 80" using p by presburger+
    then have "0 \<le> crt_pos (cga_place c t)" "crt_pos (cga_place c t) \<le> 1920" "panicked (cga_place c t) = panicked t"
      using p by (auto simp: cga_place_def Let_def)
    moreover have "crt_pos (cga_place c t) div 80 \<ge> 24 \<longleftrightarrow> crt_pos (cga_place c t) = 1920"
      if "crt_pos (cga_place c t) \<le> 1920" using that by auto
    ultimately show ?thesis using that p
      by (auto simp: cgaputc_def cga_scroll_def screen_ok_def Let_def)
  qed
  show ?thesis using assms u g by (simp add: consputc_def screen_ok_def)
qed

lemma consputs_ok: "screen_ok s \<Longrightarrow> \<exists>s'. consputs cs s = Inr s' \<and> screen_ok s'"
proof (induction cs arbitrary: s)
  case (Cons c cs)
  obtain s1 where "consputc (ucast c) s = Inr s1" "screen_ok s1" using consputc_ok [OF Cons.prems] by blast
  with Cons.IH [of s1] show ?case by (auto simp: consputs_def)
qed (simp add: consputs_def)


section \<open>The input ring as a list\<close>

text \<open>The characters typed and not yet read, and those of them that a reader may take.\<close>

definition typed :: "console \<Rightarrow> uchar list" where
  "typed s = ring_list 128 (in_buf s) (in_r s) (in_e s)"

definition pending :: "console \<Rightarrow> uchar list" where
  "pending s = ring_list 128 (in_buf s) (in_r s) (in_w s)"

definition input_inv :: "console \<Rightarrow> bool" where
  "input_inv s \<longleftrightarrow> in_w s - in_r s \<le> in_e s - in_r s \<and> in_e s - in_r s \<le> INPUT_BUF"

lemma pending_typed: "input_inv s \<Longrightarrow> pending s = take (unat (in_w s - in_r s)) (typed s)"
  by (simp add: input_inv_def pending_def typed_def ring_list_def take_map word_le_nat_alt)

lemma insert_char_ok:
  assumes inv: "input_inv s" and scr: "screen_ok s" and c: "c \<noteq> 0" "in_e s - in_r s < INPUT_BUF"
  defines "c' \<equiv> ucast (if c = 13 then 10 else c) :: uchar"
  shows "\<exists>s'. insert_char c s = Inr s' \<and> typed s' = typed s @ [c'] \<and> input_inv s' \<and> screen_ok s'
    \<and> (pending s' = pending s \<or> pending s' = typed s')"
proof -
  let ?c = "if c = 13 then 10 else c"
  let ?s1 = "s\<lparr>in_buf := (in_buf s)(unat (in_e s mod INPUT_BUF) := ucast ?c), in_e := in_e s + 1\<rparr>"
  obtain s2 where s2: "consputc ?c ?s1 = Inr s2" "screen_ok s2"
    using consputc_ok [of ?s1 ?c] scr by (auto simp: screen_ok_def)
  note k = consputc_input [OF s2(1)]
  let ?d = "?c = 10 \<or> ?c = 4 \<or> in_e s2 = in_r s2 + INPUT_BUF"
  define s3 where "s3 = (if ?d then s2\<lparr>in_w := in_e s2, con_wakeups := con_wakeups s2 @ [ChInput]\<rparr> else s2)"
  have eq: "insert_char c s = Inr s3"
    using c s2(1) unfolding insert_char_def Let_def s3_def by simp
  let ?n = "unat (in_e s - in_r s)"
  have n: "?n < 128" using c(2) by (simp add: word_less_nat_alt)
  note sz = ring128.size_push [OF n]
  have f: "in_r s3 = in_r s" "in_e s3 = in_e s + 1" "in_w s3 = in_w s \<or> in_w s3 = in_e s3"
    "in_buf s3 = (in_buf s)(ring_slot 128 (in_e s) := c')"
    using k by (auto simp: s3_def c'_def ring_slot_def)
  have typed: "typed s3 = typed s @ [c']" using ring128.ring_list_push [OF n] by (simp add: typed_def f)
  have w: "unat (in_w s - in_r s) \<le> ?n" using inv by (simp add: input_inv_def word_le_nat_alt)
  have "pending s3 = pending s \<or> pending s3 = typed s3"
    using f(3) ring128.ring_list_keep [OF n w] by (auto simp: pending_def typed_def f)
  moreover have "input_inv s3"
    using f inv w n sz by (auto simp: input_inv_def word_le_nat_alt)
  moreover have "screen_ok s3" using s2(2) by (simp add: s3_def screen_ok_def)
  ultimately show ?thesis using eq typed by blast
qed

text \<open>Rubbing out a character removes the last one typed, and never one that a reader may take.\<close>

lemma rubout_typed:
  assumes inv: "input_inv s" and ne: "in_e s \<noteq> in_w s" and t: "in_r t = in_r s" "in_w t = in_w s"
    "in_e t = in_e s - 1" "in_buf t = in_buf s"
  shows "typed t = butlast (typed s)" and "pending t = pending s" and "input_inv t"
proof -
  let ?a = "in_w s - in_r s" and ?b = "in_e s - in_r s"
  have "?a \<noteq> ?b" using ne by simp
  then have "?a < ?b" using inv unfolding input_inv_def by (metis order_less_le)
  then have lt: "unat ?a < unat ?b" by (simp only: word_less_nat_alt)
  have m: "in_e s - 1 - in_r s = ?b - 1" by simp
  have u: "unat (in_e s - 1 - in_r s) = unat ?b - 1"
    unfolding m using lt by (intro unat_minus_one) auto
  obtain m where m: "unat ?b = Suc m" using lt by (cases "unat ?b") auto
  then show "typed t = butlast (typed s)" using t u by (simp add: typed_def ring_list_def)
  show "pending t = pending s" using t by (simp add: pending_def)
  show "input_inv t" using inv u lt t by (simp add: input_inv_def word_le_nat_alt) linarith
qed

lemma rubout_ok:
  assumes inv: "input_inv s" and scr: "screen_ok s" and ne: "in_e s \<noteq> in_w s"
  shows "\<exists>s'. consputc BACKSPACE (s\<lparr>in_e := in_e s - 1\<rparr>) = Inr s' \<and> typed s' = butlast (typed s)
    \<and> pending s' = pending s \<and> input_inv s' \<and> screen_ok s'"
proof -
  obtain s' where s': "consputc BACKSPACE (s\<lparr>in_e := in_e s - 1\<rparr>) = Inr s'" "screen_ok s'"
    using consputc_ok [of "s\<lparr>in_e := in_e s - 1\<rparr>"] scr by (auto simp: screen_ok_def)
  have "typed s' = butlast (typed s)" "pending s' = pending s" "input_inv s'"
    using rubout_typed [OF inv ne] consputc_input [OF s'(1)] by simp_all
  with s' show ?thesis by blast
qed

lemma kill_line_ok:
  "input_inv s \<Longrightarrow> screen_ok s \<Longrightarrow>
    \<exists>s'. kill_line s = Inr s' \<and> pending s' = pending s \<and> input_inv s' \<and> screen_ok s'"
proof (induction s rule: kill_line.induct)
  case (1 s)
  show ?case
  proof (cases "in_e s \<noteq> in_w s \<and> in_buf s (unat ((in_e s - 1) mod INPUT_BUF)) \<noteq> 10")
    case True
    obtain s1 where s1: "consputc BACKSPACE (s\<lparr>in_e := in_e s - 1\<rparr>) = Inr s1" "pending s1 = pending s"
      "input_inv s1" "screen_ok s1" using rubout_ok [OF 1(2,3)] True by blast
    with 1(1) [OF True s1(1)] True show ?thesis by (subst kill_line.simps) auto
  next
    case False
    with 1(2,3) show ?thesis by (subst kill_line.simps) auto
  qed
qed

text \<open>
  The interrupt handler keeps the ring well formed, whatever is typed, and what a reader may take
  only grows at its end.
\<close>

lemma consoleintr_char_ok:
  assumes "input_inv s" and "screen_ok s"
  shows "\<exists>dump' s'. consoleintr_char c (dump, s) = Inr (dump', s') \<and> input_inv s' \<and> screen_ok s'
    \<and> (\<exists>new. pending s' = pending s @ new)"
proof -
  consider "c = 15 \<or> c = 16" | "c = 21" | "c = 8 \<or> c = 0x7F" "in_e s \<noteq> in_w s" | "c = 8 \<or> c = 0x7F" "in_e s = in_w s"
    | "\<not> (c = 15 \<or> c = 16)" "c \<noteq> 21" "\<not> (c = 8 \<or> c = 0x7F)" "c \<noteq> 0 \<and> in_e s - in_r s < INPUT_BUF"
    | "\<not> (c = 15 \<or> c = 16)" "c \<noteq> 21" "\<not> (c = 8 \<or> c = 0x7F)" "\<not> (c \<noteq> 0 \<and> in_e s - in_r s < INPUT_BUF)"
    by argo
  then show ?thesis
  proof cases
    case 2
    then show ?thesis using kill_line_ok [OF assms] by (auto simp: consoleintr_char_def)
  next
    case 3
    then show ?thesis using rubout_ok [OF assms 3(2)] by (auto simp: consoleintr_char_def)
  next
    case 5
    obtain s' where s': "insert_char c s = Inr s'" "typed s' = typed s @ [ucast (if c = 13 then 10 else c)]"
      "input_inv s'" "screen_ok s'" "pending s' = pending s \<or> pending s' = typed s'"
      using insert_char_ok [OF assms, of c] 5(4) by blast
    have "\<exists>new. pending s' = pending s @ new"
      using s'(2,5) pending_typed [OF assms(1)] by (metis append.assoc append_Nil2 append_take_drop_id)
    with s' 5(1-3) show ?thesis by (simp add: consoleintr_char_def)
  qed (use assms in \<open>auto simp: consoleintr_char_def insert_char_def\<close>)
qed

lemma consoleintr_ok:
  assumes "input_inv s" and "screen_ok s"
  shows "\<exists>dump s'. consoleintr cs s = Inr (dump, s') \<and> input_inv s' \<and> screen_ok s'
    \<and> (\<exists>new. pending s' = pending s @ new)"
proof -
  have "input_inv s \<Longrightarrow> screen_ok s \<Longrightarrow> \<exists>dump' s'. foldE consoleintr_char cs (dump, s) = Inr (dump', s')
    \<and> input_inv s' \<and> screen_ok s' \<and> (\<exists>new. pending s' = pending s @ new)" for dump s
  proof (induction cs arbitrary: dump s)
    case (Cons c cs)
    obtain d1 s1 where s1: "consoleintr_char c (dump, s) = Inr (d1, s1)" "input_inv s1" "screen_ok s1"
      "\<exists>new. pending s1 = pending s @ new" using consoleintr_char_ok [OF Cons.prems] by blast
    with Cons.IH [OF s1(2,3), of d1] show ?case by (auto; metis append.assoc)
  qed auto
  with assms show ?thesis by (simp add: consoleintr_def)
qed

text \<open>
  What a read of at most \<open>n\<close> bytes takes from the pending characters: a line, or up to the end-of-file
  mark, which is left for the next read unless it comes first. The first component says whether the
  read is over; otherwise it has to wait for more.
\<close>

fun read_line :: "bool \<Rightarrow> nat \<Rightarrow> uchar list \<Rightarrow> bool \<times> uchar list \<times> uchar list" where
  "read_line first 0 cs = (True, [], cs)"
| "read_line first (Suc n) [] = (False, [], [])"
| "read_line first (Suc n) (c # cs) =
    (if c = 4 then (True, [], if first then cs else c # cs)
     else if c = 10 then (True, [c], cs)
     else let (over, l, rest) = read_line False n cs in (over, c # l, rest))"

text \<open>A read that had to wait goes on as if the characters had been there from the start.\<close>

lemma read_line_resume:
  "read_line first n cs = (False, l, rest) \<Longrightarrow>
    rest = [] \<and> length l < n \<and>
    read_line first n (cs @ new) =
      (case read_line (first \<and> l = []) (n - length l) new of (over, l', rest') \<Rightarrow> (over, l @ l', rest'))"
proof (induction first n cs arbitrary: l rest rule: read_line.induct)
  case (3 first n c cs)
  then show ?case by (auto simp: Let_def split: if_splits prod.splits)
qed (auto split: prod.splits)

lemma pending_Cons:
  "in_r s \<noteq> in_w s \<Longrightarrow> pending s = in_buf s (unat (in_r s mod INPUT_BUF)) # pending (s\<lparr>in_r := in_r s + 1\<rparr>)"
  by (simp add: pending_def ring_list_pop ring_slot_def)

lemma consoleread_loop_ok:
  "input_inv s \<Longrightarrow>
    (case read_line (got = []) n (pending s) of (over, l, rest) \<Rightarrow>
       \<exists>s'. consoleread_loop False n got s
           = (if over then ReadDone (int (length (got @ l))) else ReadWait (n - length l), got @ l, s')
         \<and> pending s' = rest \<and> input_inv s' \<and> in_w s' = in_w s \<and> in_e s' = in_e s)"
proof (induction n arbitrary: got s)
  case (Suc n)
  show ?case
  proof (cases "in_r s = in_w s")
    case True
    then have "pending s = []" by (simp add: pending_def)
    with True show ?thesis using Suc.prems by simp
  next
    case False
    let ?c = "in_buf s (unat (in_r s mod INPUT_BUF))" and ?s = "s\<lparr>in_r := in_r s + 1\<rparr>"
    note p = pending_Cons [OF False]
    have inv: "input_inv ?s"
    proof -
      have a: "in_w s - in_r s \<noteq> 0" "in_e s - in_r s \<noteq> 0"
        using False Suc.prems by (auto simp: input_inv_def)
      have b: "in_w s - (in_r s + 1) = (in_w s - in_r s) - 1" "in_e s - (in_r s + 1) = (in_e s - in_r s) - 1" by simp_all
      show ?thesis
        using Suc.prems by (simp add: input_inv_def word_le_nat_alt b unat_minus_one [OF a(1)] unat_minus_one [OF a(2)] del: diff_diff_eq)
          linarith
    qed
    have "s\<lparr>in_r := in_r s\<rparr> = s" by simp
    then show ?thesis
      using False p inv Suc.prems Suc.IH [of ?s "got @ [?c]", OF inv]
      by (auto simp: Let_def split: prod.splits)
  qed
qed simp


section \<open>Numbers\<close>

definition digit_value :: "uchar \<Rightarrow> nat" where
  "digit_value c = (if c < 58 then unat c - 48 else unat c - 87)"

text \<open>The value of digits, least significant first, and of a printed number.\<close>

definition digits_value :: "nat \<Rightarrow> uchar list \<Rightarrow> nat" where
  "digits_value base ds = foldr (\<lambda>c v. digit_value c + base * v) ds 0"

definition text_value :: "nat \<Rightarrow> uchar list \<Rightarrow> int" where
  "text_value base cs =
    (case cs of [] \<Rightarrow> 0
     | c # ds \<Rightarrow> if c = 45 then - int (digits_value base (rev ds)) else int (digits_value base (rev cs)))"

lemma digit_value_digit: "x < 16 \<Longrightarrow> digit_value (digit x) = unat x \<and> digit x \<noteq> 45"
proof -
  assume x: "x < 16"
  then have "unat x < 16" by (simp add: word_less_nat_alt)
  then have "unat x \<in> set [0..<16]" by simp
  moreover have "\<forall>k \<in> set [0..<16]. digit_value (digit (of_nat k)) = k \<and> digit (of_nat k) \<noteq> 45" by code_simp
  ultimately have "digit_value (digit (of_nat (unat x))) = unat x \<and> digit (of_nat (unat x)) \<noteq> 45" by blast
  then show ?thesis by simp
qed

lemma printint_digits_value:
  assumes "2 \<le> base" "base \<le> 16"
  shows "unat x < base ^ n \<Longrightarrow> 0 < n \<Longrightarrow>
    \<exists>ds. printint_digits n x (of_nat base) = Some ds \<and> digits_value base ds = unat x \<and> 45 \<notin> set ds \<and> ds \<noteq> []"
proof (induction n arbitrary: x)
  case (Suc n)
  have b: "unat (of_nat base :: uint) = base" using assms by (simp add: unat_of_nat)
  have q: "unat (x div of_nat base) = unat x div base" "unat (x mod of_nat base) = unat x mod base"
    by (simp_all add: unat_div_distrib unat_mod_distrib b)
  have "unat x mod base < base" using assms by simp
  then have "unat (x mod of_nat base) < 16" unfolding q using assms by linarith
  then have d: "digit_value (digit (x mod of_nat base)) = unat x mod base" "digit (x mod of_nat base) \<noteq> 45"
    using digit_value_digit [of "x mod of_nat base"] by (simp_all add: word_less_nat_alt q)
  show ?case
  proof (cases "x div of_nat base = 0")
    case True
    then have "unat x div base = 0" using q by (metis unat_0)
    then have "unat x mod base = unat x" using assms by (simp add: div_eq_0_iff)
    with True d show ?thesis by (simp add: digits_value_def)
  next
    case False
    then have "0 < unat x div base" using q by (metis neq0_conv unat_eq_zero)
    then have n: "0 < n" using Suc.prems by (cases n) (auto simp: div_eq_0_iff)
    have "unat (x div of_nat base) < base ^ n"
      unfolding q using Suc.prems(1) assms by (simp add: less_mult_imp_div_less mult.commute)
    from Suc.IH [OF this n] obtain ds where "printint_digits n (x div of_nat base) (of_nat base) = Some ds"
      "digits_value base ds = unat (x div of_nat base)" "45 \<notin> set ds" by blast
    with False d q show ?thesis by (simp add: digits_value_def)
  qed
qed simp

lemma printint_text_value:
  "\<exists>cs. printint_text xx 10 True = Some cs \<and> text_value 10 cs = sint xx"
proof -
  let ?neg = "sint xx < 0" and ?x = "if sint xx < 0 then - xx else xx"
  have "unat ?x < 10 ^ 16" using unat_uint_less [of ?x] by (rule less_trans) simp
  from printint_digits_value [of 10, OF _ _ this] obtain ds where
    ds: "printint_digits 16 ?x 10 = Some ds" "digits_value 10 ds = unat ?x" "45 \<notin> set ds" "ds \<noteq> []" by auto
  have v: "int (unat ?x) = \<bar>sint xx\<bar>"
  proof -
    have x: "?x = of_int \<bar>sint xx\<bar>" by (simp add: abs_if)
    have "\<bar>sint xx\<bar> < 4294967296" using sint_greater_eq [of xx] sint_less [of xx] by simp
    then have "Word.uint (of_int \<bar>sint xx\<bar> :: uint) = \<bar>sint xx\<bar>"
      by (simp add: uint_word_of_int_eq take_bit_int_eq_self)
    then show ?thesis unfolding x by simp
  qed
  show ?thesis
  proof (cases ?neg)
    case True
    then show ?thesis using ds v by (simp add: printint_text_def text_value_def Let_def)
  next
    case False
    have "hd (rev ds) \<noteq> 45" using ds(3,4) by (metis hd_in_set rev_is_Nil_conv set_rev)
    then have "text_value 10 (rev ds) = int (digits_value 10 ds)"
      using ds(4) by (cases "rev ds") (auto simp: text_value_def)
    with False ds v show ?thesis by (simp add: printint_text_def Let_def)
  qed
qed


section \<open>Properties\<close>

text \<open>
  C32. \<open>consoleintr\<close> keeps the invariants of the input ring and of the screen for every sequence of key codes, never panics, and
  a line that has been handed to readers is never changed by editing: what is pending only grows at its end.
\<close>

theorem consoleintr_preserves:
  assumes "input_inv s" and "screen_ok s"
  shows "\<exists>dump t. consoleintr cs s = Inr (dump, t) \<and> input_inv t \<and> screen_ok t \<and> (\<exists>new. pending t = pending s @ new)"
  using assms by (rule consoleintr_ok)

text \<open>The console as the kernel's static data has it, without a serial port.\<close>

definition bss_console :: console where
  "bss_console = \<lparr>panicked = False, uart = False, uart_out = [], crt = (\<lambda>_. 0), crt_pos = 0, in_buf = (\<lambda>_. 0), in_r = 0, in_w = 0,
     in_e = 0, con_wakeups = []\<rparr>"

lemma bss_console_ok: "input_inv bss_console" "screen_ok bss_console"
  by (simp_all add: bss_console_def input_inv_def screen_ok_def)

theorem consoleintr_preserves_witness:
  "\<exists>dump t. consoleintr [104, 105, 10] bss_console = Inr (dump, t) \<and> input_inv t"
  using consoleintr_preserves [OF bss_console_ok] by blast

text \<open>
  C33. \<open>consoleread\<close> gives the bytes of the first line that is pending, as \<open>read_line\<close> cuts it from the list: up to \<open>n\<close>
  bytes, through the first newline, up to an end-of-file mark, which it leaves for the next read unless it comes first; when the pending
  bytes do not end the read, it waits with them consumed.
\<close>

theorem consoleread_line:
  assumes "input_inv s" and "read_line True n (pending s) = (over, l, rest)"
  shows "\<exists>t. consoleread_loop False n [] s = (if over then ReadDone (int (length l)) else ReadWait (n - length l), l, t)
    \<and> pending t = rest \<and> input_inv t"
  using consoleread_loop_ok [OF assms(1), of n "[]"] assms(2) by auto

definition typed_hi :: console where
  "typed_hi = bss_console\<lparr>in_buf := (\<lambda>_. 0)(0 := 104, 1 := 105, 2 := 10), in_w := 3, in_e := 3\<rparr>"

theorem consoleread_line_witness:
  "\<exists>t. consoleread_loop False (Suc (Suc (Suc (Suc 0)))) [] typed_hi = (ReadDone 3, [104, 105, 10], t) \<and> pending t = []"
proof -
  have i: "input_inv typed_hi" by (simp add: typed_hi_def bss_console_def input_inv_def)
  have p: "pending typed_hi = [104, 105, 10]"
    by (simp add: pending_def typed_hi_def bss_console_def ring_list_def ring_slot_def upt_rec)
  have "read_line True (Suc (Suc (Suc (Suc 0)))) (pending typed_hi) = (True, [104, 105, 10], [])" by (simp add: p)
  from consoleread_line [OF i this] show ?thesis by auto
qed

text \<open>
  \<open>printint\<close> writes the number: reading the text back in base ten gives the signed value, for every 32-bit
  value, and the digits fit the 16-byte buffer.
\<close>

lemma printint_decimal:
  "\<exists>cs. printint_text xx 10 True = Some cs \<and> text_value 10 cs = sint xx"
  by (rule printint_text_value)

text \<open>C34. A character on a working screen leaves the cursor on the screen, so \<open>cgaputc\<close> never reaches its panic.\<close>

theorem consputc_on_screen:
  assumes "screen_ok s"
  shows "\<exists>t. consputc c s = Inr t \<and> 0 \<le> crt_pos t \<and> crt_pos t < 24 * 80"
  using consputc_ok [OF assms, of c] by (auto simp: screen_ok_def)

theorem consputc_on_screen_witness: "\<exists>t. consputc 10 (bss_console\<lparr>crt_pos := 1919\<rparr>) = Inr t \<and> crt_pos t < 1920"
  using consputc_on_screen [of "bss_console\<lparr>crt_pos := 1919\<rparr>" 10] by (auto simp: screen_ok_def bss_console_def)

end
