(* ===== verification/Fs.thy ===== *)
theory Fs
  imports Log Console
begin

text \<open>
  \<^verbatim>\<open>fs.c\<close>: block allocation, inodes, file contents, directories and path names, on the log and the
  buffer cache. Inodes are named by their index in \<open>icache.inode\<close>. \<open>readi\<close> returns the bytes it copies
  out and \<open>writei\<close> takes the bytes it copies in. The fields \<open>my_killed\<close> and \<open>my_cwd\<close> are the fields of
  \<open>myproc()\<close> that these functions read.
\<close>

section \<open>State\<close>

record inode =
  i_dev :: uint
  i_inum :: uint
  i_ref :: int
  i_lock :: sleeplock
  i_valid :: bool
  i_type :: ushort
  i_major :: ushort
  i_minor :: ushort
  i_nlink :: ushort
  i_size :: uint
  i_addrs :: "nat \<Rightarrow> uint"

datatype device = ConsoleDev

record fsst =
  lg :: logst
  sb :: superblock
  inodes :: "nat \<Rightarrow> inode"
  devsw_read :: "nat \<Rightarrow> device option"
  devsw_write :: "nat \<Rightarrow> device option"
  cons :: console
  my_killed :: bool
  my_cwd :: "nat option"

abbreviation (input) T_DIR :: ushort where "T_DIR \<equiv> 1"
abbreviation (input) T_FILE :: ushort where "T_FILE \<equiv> 2"
abbreviation (input) T_DEV :: ushort where "T_DEV \<equiv> 3"
abbreviation (input) NDIRECT :: nat where "NDIRECT \<equiv> 12"
abbreviation (input) NINDIRECT :: nat where "NINDIRECT \<equiv> 128"
abbreviation (input) DIRSIZ :: nat where "DIRSIZ \<equiv> 14"

definition fs_bio :: "fsst \<Rightarrow> bio" where
  "fs_bio s = lbio (lg s)"

definition set_bio :: "bio \<Rightarrow> fsst \<Rightarrow> fsst" where
  "set_bio t s = s\<lparr>lg := (lg s)\<lparr>lbio := t\<rparr>\<rparr>"

definition upd_inode :: "nat \<Rightarrow> (inode \<Rightarrow> inode) \<Rightarrow> fsst \<Rightarrow> fsst" where
  "upd_inode ip f s = s\<lparr>inodes := (inodes s)(ip := f (inodes s ip))\<rparr>"

text \<open>The operations of the lower layers on this state.\<close>

definition fs_bread :: "uint \<Rightarrow> uint \<Rightarrow> fsst \<Rightarrow> kerror + nat \<times> fsst" where
  "fs_bread dev k = lift fs_bio set_bio (bread dev k)"

definition fs_brelse :: "nat \<Rightarrow> fsst \<Rightarrow> kerror + fsst" where
  "fs_brelse b s = bindE (brelse b (fs_bio s)) (\<lambda>t. Inr (set_bio t s))"

definition fs_log_write :: "nat \<Rightarrow> fsst \<Rightarrow> kerror + fsst" where
  "fs_log_write b s = bindE (log_write b (lg s)) (\<lambda>l. Inr (s\<lparr>lg := l\<rparr>))"

definition fs_begin_op :: "fsst \<Rightarrow> kerror + fsst" where
  "fs_begin_op s = bindE (begin_op (lg s)) (\<lambda>l. Inr (s\<lparr>lg := l\<rparr>))"

definition fs_end_op :: "fsst \<Rightarrow> kerror + fsst" where
  "fs_end_op s = bindE (end_op (lg s)) (\<lambda>l. Inr (s\<lparr>lg := l\<rparr>))"

definition data :: "fsst \<Rightarrow> nat \<Rightarrow> uchar list" where
  "data s b = b_data (bufs (fs_bio s) b)"

definition set_data :: "nat \<Rightarrow> uchar list \<Rightarrow> fsst \<Rightarrow> fsst" where
  "set_data b d s = set_bio (upd_buf b (b_data_update (\<lambda>_. d)) (fs_bio s)) s"


section \<open>Blocks\<close>

definition bzero :: "uint \<Rightarrow> uint \<Rightarrow> fsst \<Rightarrow> kerror + fsst" where
  "bzero dev bno s =
    bindE (fs_bread dev bno s) (\<lambda>(bp, s).
      let s = set_data bp (replicate 512 0) s in
    bindE (fs_log_write bp s) (fs_brelse bp))"

definition BBLOCK :: "uint \<Rightarrow> superblock \<Rightarrow> uint" where
  "BBLOCK b sbk = b div 4096 + sb_bmapstart sbk"

text \<open>The bit of block \<open>b + bi\<close> in the bitmap block that starts with block \<open>b\<close>.\<close>

definition bit_used :: "uchar list \<Rightarrow> nat \<Rightarrow> bool" where
  "bit_used d bi \<longleftrightarrow> d ! (bi div 8) AND push_bit (bi mod 8) 1 \<noteq> 0"

definition set_bit_used :: "uchar list \<Rightarrow> nat \<Rightarrow> uchar list" where
  "set_bit_used d bi = d[bi div 8 := d ! (bi div 8) OR push_bit (bi mod 8) 1]"

definition clear_bit_used :: "uchar list \<Rightarrow> nat \<Rightarrow> uchar list" where
  "clear_bit_used d bi = d[bi div 8 := d ! (bi div 8) AND NOT (push_bit (bi mod 8) 1)]"

text \<open>The outer loop of \<open>balloc\<close> over the values \<open>b = 0, BPB, 2 * BPB, ...\<close> below \<open>sb.size\<close>.\<close>

fun balloc_loop :: "uint \<Rightarrow> nat list \<Rightarrow> fsst \<Rightarrow> kerror + uint \<times> fsst" where
  "balloc_loop dev [] s = Inl (Panic ''balloc: out of blocks'')"
| "balloc_loop dev (b # bs) s =
    bindE (fs_bread dev (BBLOCK (of_nat b) (sb s)) s) (\<lambda>(bp, s).
      case find (\<lambda>bi. \<not> bit_used (data s bp) bi) [0..<min 4096 (unat (sb_size (sb s)) - b)] of
        Some bi \<Rightarrow>
          let s = set_data bp (set_bit_used (data s bp) bi) s in
          bindE (fs_log_write bp s) (\<lambda>s.
          bindE (fs_brelse bp s) (\<lambda>s.
          bindE (bzero dev (of_nat (b + bi)) s) (\<lambda>s. Inr (of_nat (b + bi), s))))
      | None \<Rightarrow> bindE (fs_brelse bp s) (balloc_loop dev bs))"

definition balloc :: "uint \<Rightarrow> fsst \<Rightarrow> kerror + uint \<times> fsst" where
  "balloc dev s = balloc_loop dev (map (\<lambda>i. 4096 * i) [0..<(unat (sb_size (sb s)) + 4095) div 4096]) s"

definition bfree :: "uint \<Rightarrow> uint \<Rightarrow> fsst \<Rightarrow> kerror + fsst" where
  "bfree dev b s =
    bindE (fs_bread dev (BBLOCK b (sb s)) s) (\<lambda>(bp, s).
      let bi = unat (b mod 4096) in
      if \<not> bit_used (data s bp) bi then Inl (Panic ''freeing free block'')
      else
        let s = set_data bp (clear_bit_used (data s bp) bi) s in
        bindE (fs_log_write bp s) (fs_brelse bp))"


section \<open>Inodes\<close>

definition iinit :: "uint \<Rightarrow> fsst \<Rightarrow> kerror + fsst" where
  "iinit dev s =
    (let s = s\<lparr>inodes := (\<lambda>i. if i < NINODE then (inodes s i)\<lparr>i_lock := initsleeplock\<rparr> else inodes s i)\<rparr> in
     bindE (readsb dev (fs_bio s)) (\<lambda>(sbk, t).
       let s = (set_bio t s)\<lparr>sb := sbk\<rparr> in
     bindE (cprintf (\<lambda>_. [])
              (bytes ''sb: size %d nblocks %d ninodes %d nlog %d logstart %d inodestart %d bmap start %d'' @ [10])
              [sb_size sbk, sb_nblocks sbk, sb_ninodes sbk, sb_nlog sbk, sb_logstart sbk, sb_inodestart sbk, sb_bmapstart sbk]
              (cons s)) (\<lambda>c. Inr (s\<lparr>cons := c\<rparr>))))"

definition IBLOCK :: "uint \<Rightarrow> superblock \<Rightarrow> uint" where
  "IBLOCK i sbk = i div 8 + sb_inodestart sbk"

text \<open>Byte offset of inode \<open>inum\<close> in its block.\<close>

definition dip :: "uint \<Rightarrow> nat" where
  "dip inum = 64 * unat (inum mod 8)"

definition get_dinode :: "uchar list \<Rightarrow> nat \<Rightarrow> inode \<Rightarrow> inode" where
  "get_dinode d off x = x\<lparr>i_type := get16 d off, i_major := get16 d (off + 2), i_minor := get16 d (off + 4),
     i_nlink := get16 d (off + 6), i_size := get32 d (off + 8),
     i_addrs := (\<lambda>i. if i \<le> NDIRECT then get32 d (off + 12 + 4 * i) else i_addrs x i)\<rparr>"

definition put_dinode :: "inode \<Rightarrow> nat \<Rightarrow> uchar list \<Rightarrow> uchar list" where
  "put_dinode x off d =
    (let d = put16 d off (i_type x);
         d = put16 d (off + 2) (i_major x);
         d = put16 d (off + 4) (i_minor x);
         d = put16 d (off + 6) (i_nlink x);
         d = put32 d (off + 8) (i_size x)
     in fold (\<lambda>i d. put32 d (off + 12 + 4 * i) (i_addrs x i)) [0..<NDIRECT + 1] d)"

definition iget :: "uint \<Rightarrow> uint \<Rightarrow> fsst \<Rightarrow> kerror + nat \<times> fsst" where
  "iget dev inum s =
    (case find (\<lambda>i. i_ref (inodes s i) > 0 \<and> i_dev (inodes s i) = dev \<and> i_inum (inodes s i) = inum) [0..<NINODE] of
       Some ip \<Rightarrow> Inr (ip, upd_inode ip (\<lambda>x. x\<lparr>i_ref := i_ref x + 1\<rparr>) s)
     | None \<Rightarrow>
       (case find (\<lambda>i. i_ref (inodes s i) = 0) [0..<NINODE] of
          None \<Rightarrow> Inl (Panic ''iget: no inodes'')
        | Some ip \<Rightarrow>
            Inr (ip, upd_inode ip (\<lambda>x. x\<lparr>i_dev := dev, i_inum := inum, i_ref := 1, i_valid := False\<rparr>) s)))"

fun ialloc_loop :: "uint \<Rightarrow> ushort \<Rightarrow> nat list \<Rightarrow> fsst \<Rightarrow> kerror + nat \<times> fsst" where
  "ialloc_loop dev type [] s = Inl (Panic ''ialloc: no inodes'')"
| "ialloc_loop dev type (inum # is) s =
    bindE (fs_bread dev (IBLOCK (of_nat inum) (sb s)) s) (\<lambda>(bp, s).
      let off = dip (of_nat inum) in
      if get16 (data s bp) off = 0 then
        let s = set_data bp (put16 (splice (data s bp) off (replicate 64 0)) off type) s in
        bindE (fs_log_write bp s) (\<lambda>s.
        bindE (fs_brelse bp s) (iget dev (of_nat inum)))
      else bindE (fs_brelse bp s) (ialloc_loop dev type is))"

definition ialloc :: "uint \<Rightarrow> ushort \<Rightarrow> fsst \<Rightarrow> kerror + nat \<times> fsst" where
  "ialloc dev type s = ialloc_loop dev type [1..<unat (sb_ninodes (sb s))] s"

definition iupdate :: "nat \<Rightarrow> fsst \<Rightarrow> kerror + fsst" where
  "iupdate ip s =
    (let x = inodes s ip in
     bindE (fs_bread (i_dev x) (IBLOCK (i_inum x) (sb s)) s) (\<lambda>(bp, s).
       let s = set_data bp (put_dinode x (dip (i_inum x)) (data s bp)) s in
     bindE (fs_log_write bp s) (fs_brelse bp)))"

definition idup :: "nat \<Rightarrow> fsst \<Rightarrow> nat \<times> fsst" where
  "idup ip s = (ip, upd_inode ip (\<lambda>x. x\<lparr>i_ref := i_ref x + 1\<rparr>) s)"

text \<open>\<open>ilock\<close> and \<open>iunlock\<close> test their argument for null, which is \<open>None\<close>.\<close>

definition ilock :: "nat option \<Rightarrow> fsst \<Rightarrow> kerror + fsst" where
  "ilock ipo s =
    (case ipo of None \<Rightarrow> Inl (Panic ''ilock'')
     | Some ip \<Rightarrow>
       if i_ref (inodes s ip) < 1 then Inl (Panic ''ilock'')
       else
         bindE (acquiresleep (ChInode ip) (mypid (fs_bio s)) (i_lock (inodes s ip))) (\<lambda>lk.
           let s = upd_inode ip (\<lambda>x. x\<lparr>i_lock := lk\<rparr>) s; x = inodes s ip in
           if \<not> i_valid x then
             bindE (fs_bread (i_dev x) (IBLOCK (i_inum x) (sb s)) s) (\<lambda>(bp, s).
               let s = upd_inode ip (get_dinode (data s bp) (dip (i_inum x))) s in
             bindE (fs_brelse bp s) (\<lambda>s.
               let s = upd_inode ip (\<lambda>x. x\<lparr>i_valid := True\<rparr>) s in
               if i_type (inodes s ip) = 0 then Inl (Panic ''ilock: no type'') else Inr s))
           else Inr s))"

definition release_inode :: "nat \<Rightarrow> fsst \<Rightarrow> fsst" where
  "release_inode ip s =
    (let (lk, ws) = releasesleep (ChInode ip) (i_lock (inodes s ip));
         s = upd_inode ip (\<lambda>x. x\<lparr>i_lock := lk\<rparr>) s
     in set_bio ((fs_bio s)\<lparr>wakeups := wakeups (fs_bio s) @ ws\<rparr>) s)"

definition iunlock :: "nat option \<Rightarrow> fsst \<Rightarrow> kerror + fsst" where
  "iunlock ipo s =
    (case ipo of None \<Rightarrow> Inl (Panic ''iunlock'')
     | Some ip \<Rightarrow>
       if \<not> holdingsleep (mypid (fs_bio s)) (i_lock (inodes s ip)) \<or> i_ref (inodes s ip) < 1
       then Inl (Panic ''iunlock'')
       else Inr (release_inode ip s))"


section \<open>Contents of inodes\<close>

definition bmap :: "nat \<Rightarrow> uint \<Rightarrow> fsst \<Rightarrow> kerror + uint \<times> fsst" where
  "bmap ip bn s =
    (let dev = i_dev (inodes s ip) in
     if unat bn < NDIRECT then
       let addr = i_addrs (inodes s ip) (unat bn) in
       if addr = 0 then
         bindE (balloc dev s) (\<lambda>(addr, s).
           Inr (addr, upd_inode ip (\<lambda>x. x\<lparr>i_addrs := (i_addrs x)(unat bn := addr)\<rparr>) s))
       else Inr (addr, s)
     else
       let bn = unat bn - NDIRECT in
       if bn < NINDIRECT then
         bindE (if i_addrs (inodes s ip) NDIRECT = 0
                then bindE (balloc dev s) (\<lambda>(addr, s).
                  Inr (addr, upd_inode ip (\<lambda>x. x\<lparr>i_addrs := (i_addrs x)(NDIRECT := addr)\<rparr>) s))
                else Inr (i_addrs (inodes s ip) NDIRECT, s)) (\<lambda>(addr, s).
         bindE (fs_bread dev addr s) (\<lambda>(bp, s).
           let addr = get32 (data s bp) (4 * bn) in
           bindE (if addr = 0
                  then bindE (balloc dev s) (\<lambda>(addr, s).
                    let s = set_data bp (put32 (data s bp) (4 * bn) addr) s in
                    bindE (fs_log_write bp s) (\<lambda>s. Inr (addr, s)))
                  else Inr (addr, s)) (\<lambda>(addr, s).
           bindE (fs_brelse bp s) (\<lambda>s. Inr (addr, s)))))
       else Inl (Panic ''bmap: out of range''))"

definition itrunc_direct :: "nat \<Rightarrow> nat \<Rightarrow> fsst \<Rightarrow> kerror + fsst" where
  "itrunc_direct ip i s =
    (let addr = i_addrs (inodes s ip) i in
     if addr \<noteq> 0 then
       bindE (bfree (i_dev (inodes s ip)) addr s) (\<lambda>s.
         Inr (upd_inode ip (\<lambda>x. x\<lparr>i_addrs := (i_addrs x)(i := 0)\<rparr>) s))
     else Inr s)"

definition itrunc :: "nat \<Rightarrow> fsst \<Rightarrow> kerror + fsst" where
  "itrunc ip s =
    bindE (foldE (itrunc_direct ip) [0..<NDIRECT] s) (\<lambda>s.
    bindE (let ind = i_addrs (inodes s ip) NDIRECT; dev = i_dev (inodes s ip) in
       if ind \<noteq> 0 then
         bindE (fs_bread dev ind s) (\<lambda>(bp, s).
         bindE (foldE (\<lambda>j s. let a = get32 (data s bp) (4 * j) in if a \<noteq> 0 then bfree dev a s else Inr s)
                  [0..<NINDIRECT] s) (\<lambda>s.
         bindE (fs_brelse bp s) (\<lambda>s.
         bindE (bfree dev ind s) (\<lambda>s.
           Inr (upd_inode ip (\<lambda>x. x\<lparr>i_addrs := (i_addrs x)(NDIRECT := 0)\<rparr>) s)))))
       else Inr s) (\<lambda>s.
    iupdate ip (upd_inode ip (\<lambda>x. x\<lparr>i_size := 0\<rparr>) s)))"

definition iput :: "nat \<Rightarrow> fsst \<Rightarrow> kerror + fsst" where
  "iput ip s =
    bindE (acquiresleep (ChInode ip) (mypid (fs_bio s)) (i_lock (inodes s ip))) (\<lambda>lk.
      let s = upd_inode ip (\<lambda>x. x\<lparr>i_lock := lk\<rparr>) s in
    bindE (if i_valid (inodes s ip) \<and> i_nlink (inodes s ip) = 0 \<and> i_ref (inodes s ip) = 1 then
             bindE (itrunc ip s) (\<lambda>s.
             bindE (iupdate ip (upd_inode ip (\<lambda>x. x\<lparr>i_type := 0\<rparr>) s)) (\<lambda>s.
               Inr (upd_inode ip (\<lambda>x. x\<lparr>i_valid := False\<rparr>) s)))
           else Inr s) (\<lambda>s.
      Inr (upd_inode ip (\<lambda>x. x\<lparr>i_ref := i_ref x - 1\<rparr>) (release_inode ip s))))"

definition iunlockput :: "nat \<Rightarrow> fsst \<Rightarrow> kerror + fsst" where
  "iunlockput ip s = bindE (iunlock (Some ip) s) (iput ip)"

record stat =
  st_type :: ushort
  st_dev :: uint
  st_ino :: uint
  st_nlink :: ushort
  st_size :: uint

definition stati :: "inode \<Rightarrow> stat" where
  "stati x = \<lparr>st_type = i_type x, st_dev = i_dev x, st_ino = i_inum x, st_nlink = i_nlink x, st_size = i_size x\<rparr>"

text \<open>\<open>readi\<close> and \<open>writei\<close> on a device leave the inode unlocked while the device works.\<close>

definition dev_read :: "device \<Rightarrow> nat \<Rightarrow> int \<Rightarrow> fsst \<Rightarrow> kerror + (int \<times> uchar list) \<times> fsst" where
  "dev_read d ip n s =
    (case d of ConsoleDev \<Rightarrow>
      bindE (iunlock (Some ip) s) (\<lambda>s.
      bindE (consoleread (my_killed s) n (cons s)) (\<lambda>(r, c).
      bindE (ilock (Some ip) (s\<lparr>cons := c\<rparr>)) (\<lambda>s. Inr (r, s)))))"

definition dev_write :: "device \<Rightarrow> nat \<Rightarrow> uchar list \<Rightarrow> fsst \<Rightarrow> kerror + int \<times> fsst" where
  "dev_write d ip src s =
    (case d of ConsoleDev \<Rightarrow>
      bindE (iunlock (Some ip) s) (\<lambda>s.
      bindE (consolewrite src (cons s)) (\<lambda>(r, c).
      bindE (ilock (Some ip) (s\<lparr>cons := c\<rparr>)) (\<lambda>s. Inr (r, s)))))"

definition dev_entry :: "(nat \<Rightarrow> device option) \<Rightarrow> ushort \<Rightarrow> device option" where
  "dev_entry tab major = (if sint major < 0 \<or> sint major \<ge> int NDEV then None else tab (nat (sint major)))"

text \<open>The copying loops: \<open>left\<close> bytes remain, \<open>off\<close> is the current offset.\<close>

function readi_loop :: "nat \<Rightarrow> uint \<Rightarrow> nat \<Rightarrow> uchar list \<Rightarrow> fsst \<Rightarrow> kerror + uchar list \<times> fsst" where
  "readi_loop ip off left got s =
    (if left = 0 then Inr (got, s)
     else
       bindE (bmap ip (off div 512) s) (\<lambda>(addr, s).
       bindE (fs_bread (i_dev (inodes s ip)) addr s) (\<lambda>(bp, s).
         let m = min left (512 - unat (off mod 512));
             got = got @ slice (data s bp) (unat (off mod 512)) m in
       bindE (fs_brelse bp s) (readi_loop ip (off + of_nat m) (left - m) got))))"
  by pat_completeness auto
termination
proof (relation "measure (\<lambda>(ip, off, left, got, s). left)", simp, goal_cases)
  case (1 ip off left got s)
  have "unat (off mod 512) < 512" using mod_less_divisor [of 512 "unat off"] by (simp add: unat_mod_distrib)
  with 1 show ?case by auto
qed

declare readi_loop.simps [simp del]

definition readi :: "nat \<Rightarrow> uint \<Rightarrow> uint \<Rightarrow> fsst \<Rightarrow> kerror + (int \<times> uchar list) \<times> fsst" where
  "readi ip off n s =
    (let x = inodes s ip in
     if i_type x = T_DEV then
       (case dev_entry (devsw_read s) (i_major x) of
          None \<Rightarrow> Inr ((-1, []), s)
        | Some d \<Rightarrow> dev_read d ip (sint n) s)
     else if off > i_size x \<or> off + n < off then Inr ((-1, []), s)
     else
       let n = (if off + n > i_size x then i_size x - off else n) in
       bindE (readi_loop ip off (unat n) [] s) (\<lambda>(got, s). Inr ((sint n, got), s)))"

function writei_loop :: "nat \<Rightarrow> uint \<Rightarrow> uchar list \<Rightarrow> fsst \<Rightarrow> kerror + uint \<times> fsst" where
  "writei_loop ip off src s =
    (if src = [] then Inr (off, s)
     else
       bindE (bmap ip (off div 512) s) (\<lambda>(addr, s).
       bindE (fs_bread (i_dev (inodes s ip)) addr s) (\<lambda>(bp, s).
         let m = min (length src) (512 - unat (off mod 512));
             s = set_data bp (splice (data s bp) (unat (off mod 512)) (take m src)) s in
       bindE (fs_log_write bp s) (\<lambda>s.
       bindE (fs_brelse bp s) (writei_loop ip (off + of_nat m) (drop m src))))))"
  by pat_completeness auto
termination
proof (relation "measure (\<lambda>(ip, off, src, s). length src)", simp, goal_cases)
  case (1 ip off src s)
  have "unat (off mod 512) < 512" using mod_less_divisor [of 512 "unat off"] by (simp add: unat_mod_distrib)
  with 1 show ?case by auto
qed

declare writei_loop.simps [simp del]

definition writei :: "nat \<Rightarrow> uchar list \<Rightarrow> uint \<Rightarrow> fsst \<Rightarrow> kerror + int \<times> fsst" where
  "writei ip src off s =
    (let x = inodes s ip; n = of_nat (length src) :: uint in
     if i_type x = T_DEV then
       (case dev_entry (devsw_write s) (i_major x) of
          None \<Rightarrow> Inr (-1, s)
        | Some d \<Rightarrow> dev_write d ip src s)
     else if off > i_size x \<or> off + n < off then Inr (-1, s)
     else if off + n > 140 * 512 then Inr (-1, s)
     else
       bindE (writei_loop ip off src s) (\<lambda>(off, s).
       bindE (if n > 0 \<and> off > i_size (inodes s ip)
              then iupdate ip (upd_inode ip (\<lambda>x. x\<lparr>i_size := off\<rparr>) s)
              else Inr s) (\<lambda>s. Inr (sint n, s))))"


section \<open>Directories\<close>

definition namecmp :: "uchar list \<Rightarrow> uchar list \<Rightarrow> int" where
  "namecmp s t = strncmp s t DIRSIZ"

definition de_inum :: "uchar list \<Rightarrow> ushort" where
  "de_inum de = get16 de 0"

definition de_name :: "uchar list \<Rightarrow> uchar list" where
  "de_name de = slice de 2 DIRSIZ"

text \<open>The offsets of the entries of a directory of the given size.\<close>

definition de_offsets :: "uint \<Rightarrow> nat list" where
  "de_offsets n = map (\<lambda>i. 16 * i) [0..<(unat n + 15) div 16]"

text \<open>The value is the inode with the offset of its entry (\<open>*poff\<close>), or nothing.\<close>

fun dirlookup_loop :: "nat \<Rightarrow> uchar list \<Rightarrow> nat list \<Rightarrow> fsst \<Rightarrow> kerror + (nat \<times> nat) option \<times> fsst" where
  "dirlookup_loop dp name [] s = Inr (None, s)"
| "dirlookup_loop dp name (off # offs) s =
    bindE (readi dp (of_nat off) 16 s) (\<lambda>((r, de), s).
      if r \<noteq> 16 then Inl (Panic ''dirlookup read'')
      else if de_inum de = 0 then dirlookup_loop dp name offs s
      else if namecmp name (de_name de) = 0 then
        bindE (iget (i_dev (inodes s dp)) (ucast (de_inum de)) s) (\<lambda>(ip, s). Inr (Some (ip, off), s))
      else dirlookup_loop dp name offs s)"

definition dirlookup :: "nat \<Rightarrow> uchar list \<Rightarrow> fsst \<Rightarrow> kerror + (nat \<times> nat) option \<times> fsst" where
  "dirlookup dp name s =
    (if i_type (inodes s dp) \<noteq> T_DIR then Inl (Panic ''dirlookup not DIR'')
     else dirlookup_loop dp name (de_offsets (i_size (inodes s dp))) s)"

text \<open>The search of \<open>dirlink\<close> for a free entry; without one the loop ends behind the last entry.\<close>

fun dirlink_scan :: "nat \<Rightarrow> nat list \<Rightarrow> nat \<Rightarrow> fsst \<Rightarrow> kerror + nat \<times> fsst" where
  "dirlink_scan dp [] fin s = Inr (fin, s)"
| "dirlink_scan dp (off # offs) fin s =
    bindE (readi dp (of_nat off) 16 s) (\<lambda>((r, de), s).
      if r \<noteq> 16 then Inl (Panic ''dirlink read'')
      else if de_inum de = 0 then Inr (off, s)
      else dirlink_scan dp offs fin s)"

definition dirlink :: "nat \<Rightarrow> uchar list \<Rightarrow> uint \<Rightarrow> fsst \<Rightarrow> kerror + int \<times> fsst" where
  "dirlink dp name inum s =
    bindE (dirlookup dp name s) (\<lambda>(found, s).
      case found of
        Some (ip, _) \<Rightarrow> bindE (iput ip s) (\<lambda>s. Inr (-1, s))
      | None \<Rightarrow>
        bindE (let offs = de_offsets (i_size (inodes s dp)) in dirlink_scan dp offs (16 * length offs) s) (\<lambda>(off, s).
          let de = le16 (ucast inum) @ strncpy name DIRSIZ in
        bindE (writei dp de (of_nat off) s) (\<lambda>(r, s).
          if r \<noteq> 16 then Inl (Panic ''dirlink'') else Inr (0, s))))"


section \<open>Paths\<close>

text \<open>
  A path is the bytes of its string. The value of \<open>skipelem\<close> is the rest of the path with the bytes of
  the element in \<open>name\<close>: all of them, or the first \<open>DIRSIZ\<close>.
\<close>

definition skipelem :: "uchar list \<Rightarrow> (uchar list \<times> uchar list) option" where
  "skipelem path =
    (let path = dropWhile (\<lambda>c. c = 47) path in
     if hd0 path = 0 then None
     else
       let elem = takeWhile (\<lambda>c. c \<noteq> 47 \<and> c \<noteq> 0) path;
           path = dropWhile (\<lambda>c. c \<noteq> 47 \<and> c \<noteq> 0) path
       in Some (dropWhile (\<lambda>c. c = 47) path, if length elem \<ge> DIRSIZ then take DIRSIZ elem else elem))"

lemma skipelem_shorter:
  assumes "skipelem path = Some (rest, name)"
  shows "length rest < length path"
proof -
  let ?p = "dropWhile (\<lambda>c. c = 47) path"
  have ne: "hd0 ?p \<noteq> 0" and rest: "rest = dropWhile (\<lambda>c. c = 47) (dropWhile (\<lambda>c. c \<noteq> 47 \<and> c \<noteq> 0) ?p)"
    using assms by (auto simp: skipelem_def Let_def split: if_splits)
  then obtain c cs where p: "?p = c # cs" by (cases ?p) auto
  then have "c \<noteq> 47" using hd_dropWhile [of "\<lambda>c. c = 47" path] by simp
  with ne p have "length (dropWhile (\<lambda>c. c \<noteq> 47 \<and> c \<noteq> 0) ?p) \<le> length cs"
    by (simp add: length_dropWhile_le)
  then have "length rest \<le> length cs" unfolding rest using length_dropWhile_le le_trans by blast
  moreover have "length ?p \<le> length path" by (rule length_dropWhile_le)
  ultimately show ?thesis using p by simp
qed

text \<open>
  The loop of \<open>namex\<close>: the value is the inode found with the last element copied to \<open>name\<close>.
\<close>

function namex_loop ::
    "bool \<Rightarrow> nat \<Rightarrow> uchar list \<Rightarrow> uchar list \<Rightarrow> fsst \<Rightarrow> kerror + (nat \<times> uchar list) option \<times> fsst" where
  "namex_loop parent ip path name s =
    (case skipelem path of
       None \<Rightarrow> if parent then bindE (iput ip s) (\<lambda>s. Inr (None, s)) else Inr (Some (ip, name), s)
     | Some (path, name) \<Rightarrow>
       bindE (ilock (Some ip) s) (\<lambda>s.
         if i_type (inodes s ip) \<noteq> T_DIR then bindE (iunlockput ip s) (\<lambda>s. Inr (None, s))
         else if parent \<and> hd0 path = 0 then bindE (iunlock (Some ip) s) (\<lambda>s. Inr (Some (ip, name), s))
         else
           bindE (dirlookup ip name s) (\<lambda>(next, s).
             case next of
               None \<Rightarrow> bindE (iunlockput ip s) (\<lambda>s. Inr (None, s))
             | Some (next, _) \<Rightarrow> bindE (iunlockput ip s) (namex_loop parent next path name))))"
  by pat_completeness auto
termination
  by (relation "measure (\<lambda>(parent, ip, path, name, s). length path)") (auto dest: skipelem_shorter)

declare namex_loop.simps [simp del]

definition namex :: "uchar list \<Rightarrow> bool \<Rightarrow> fsst \<Rightarrow> kerror + (nat \<times> uchar list) option \<times> fsst" where
  "namex path parent s =
    bindE (if hd0 path = 47 then iget 1 1 s
           else case my_cwd s of None \<Rightarrow> Inl (Fault ''namex cwd'') | Some cwd \<Rightarrow> Inr (idup cwd s)) (\<lambda>(ip, s).
      namex_loop parent ip path [] s)"

definition namei :: "uchar list \<Rightarrow> fsst \<Rightarrow> kerror + nat option \<times> fsst" where
  "namei path s = bindE (namex path False s) (\<lambda>(r, s). Inr (map_option fst r, s))"

definition nameiparent :: "uchar list \<Rightarrow> fsst \<Rightarrow> kerror + (nat \<times> uchar list) option \<times> fsst" where
  "nameiparent path s = namex path True s"

text \<open>
  \<open>itoa\<close>: the bytes stored from \<open>b\<close> on. \<open>i *= -1\<close> leaves the smallest \<open>int\<close> negative, and \<open>digit\<close> is then
  indexed with a negative number.
\<close>

fun itoa_digits :: "nat \<Rightarrow> nat \<Rightarrow> uchar list" where
  "itoa_digits 0 i = []"
| "itoa_digits (Suc n) i = (if i div 10 \<noteq> 0 then itoa_digits n (i div 10) else []) @ [48 + of_nat (i mod 10)]"

definition itoa :: "uint \<Rightarrow> kerror + uchar list" where
  "itoa i =
    (let j = (if sint i < 0 then - i else i) in
     if sint j < 0 then Inl (Fault ''itoa digit'')
     else Inr ((if sint i < 0 then [45] else []) @ itoa_digits 10 (unat j) @ [0]))"

end
