(* ===== verification/Pipe.thy ===== *)
theory Pipe
  imports Ring
begin

text \<open>
  \<^verbatim>\<open>pipe.c\<close>, the part that works on a \<open>struct pipe\<close>: closing an end, and the loops of \<open>pipewrite\<close> and
  \<open>piperead\<close> between two calls of \<open>sleep\<close>. A writer that has to wait keeps the bytes it still has to
  write. The theory refines a pipe to the list of bytes in it, and shows that readers get the bytes
  in the order in which writers put them, over any interleaving of the two sides.
\<close>

record pipe =
  pdata :: "nat \<Rightarrow> uchar"
  nread :: uint
  nwrite :: uint
  readopen :: bool
  writeopen :: bool

abbreviation (input) PIPESIZE :: "'a::numeral" where "PIPESIZE \<equiv> 512"

definition pipe_init :: "(nat \<Rightarrow> uchar) \<Rightarrow> pipe" where
  "pipe_init d = \<lparr>pdata = d, nread = 0, nwrite = 0, readopen = True, writeopen = True\<rparr>"

text \<open>\<open>pipe_close\<close> is \<open>pipeclose\<close> up to the test of both ends; the result says whether the pipe is freed.\<close>

definition pipe_close :: "bool \<Rightarrow> pipe \<Rightarrow> bool \<times> pipe" where
  "pipe_close writable p =
    (let p = (if writable then p\<lparr>writeopen := False\<rparr> else p\<lparr>readopen := False\<rparr>) in
     (\<not> readopen p \<and> \<not> writeopen p, p))"

datatype pipe_result = Wrote | Failed | MustSleep "uchar list"

fun pipewrite_loop :: "bool \<Rightarrow> uchar list \<Rightarrow> pipe \<Rightarrow> pipe_result \<times> pipe" where
  "pipewrite_loop killed [] p = (Wrote, p)"
| "pipewrite_loop killed (c # cs) p =
    (if nwrite p = nread p + PIPESIZE then
       (if \<not> readopen p \<or> killed then (Failed, p) else (MustSleep (c # cs), p))
     else
       pipewrite_loop killed cs
         (p\<lparr>pdata := (pdata p)(unat (nwrite p mod PIPESIZE) := c), nwrite := nwrite p + 1\<rparr>))"

fun piperead_copy :: "nat \<Rightarrow> pipe \<Rightarrow> uchar list \<times> pipe" where
  "piperead_copy 0 p = ([], p)"
| "piperead_copy (Suc n) p =
    (if nread p = nwrite p then ([], p)
     else
       let (cs, q) = piperead_copy n (p\<lparr>nread := nread p + 1\<rparr>) in
       (pdata p (unat (nread p mod PIPESIZE)) # cs, q))"

text \<open>\<open>None\<close>: the reader has to sleep; otherwise the return value with the bytes stored.\<close>

definition piperead_try :: "bool \<Rightarrow> nat \<Rightarrow> pipe \<Rightarrow> (int \<times> uchar list) option \<times> pipe" where
  "piperead_try killed n p =
    (if nread p = nwrite p \<and> writeopen p then ((if killed then Some (-1, []) else None), p)
     else let (cs, p) = piperead_copy n p in (Some (int (length cs), cs), p))"


section \<open>A pipe as a list of bytes\<close>

definition pipe_bytes :: "pipe \<Rightarrow> uchar list" where
  "pipe_bytes p = ring_list PIPESIZE (pdata p) (nread p) (nwrite p)"

definition pipe_inv :: "pipe \<Rightarrow> bool" where
  "pipe_inv p \<longleftrightarrow> nwrite p - nread p \<le> PIPESIZE"

lemma pipe_init_ok: "pipe_inv (pipe_init d)" "pipe_bytes (pipe_init d) = []"
  by (simp_all add: pipe_inv_def pipe_bytes_def pipe_init_def)

lemma pipe_full: "nwrite p = nread p + PIPESIZE \<longleftrightarrow> length (pipe_bytes p) = PIPESIZE"
proof
  assume "length (pipe_bytes p) = PIPESIZE"
  then have "unat (nwrite p - nread p) = unat (512 :: uint)" by (simp add: pipe_bytes_def)
  then have "nwrite p - nread p = 512" by (simp only: unat_inject)
  then show "nwrite p = nread p + PIPESIZE" by (simp add: diff_eq_eq add.commute)
qed (simp add: pipe_bytes_def)

lemma pipe_push:
  fixes c :: uchar
  assumes "pipe_inv p" and "nwrite p \<noteq> nread p + PIPESIZE"
  defines "q \<equiv> p\<lparr>pdata := (pdata p)(unat (nwrite p mod PIPESIZE) := c), nwrite := nwrite p + 1\<rparr>"
  shows "pipe_bytes q = pipe_bytes p @ [c]" and "pipe_inv q"
proof -
  have "nwrite p - nread p \<noteq> PIPESIZE" using assms(2) by (auto simp: algebra_simps)
  then have "nwrite p - nread p < PIPESIZE" using assms(1) unfolding pipe_inv_def by (metis order_less_le)
  then have n: "unat (nwrite p - nread p) < 512" by (simp add: word_less_nat_alt)
  show "pipe_bytes q = pipe_bytes p @ [c]"
    using ring512.ring_list_push [OF n] by (simp add: pipe_bytes_def q_def ring_slot_def)
  show "pipe_inv q" using ring512.size_push [OF n] n by (simp add: pipe_inv_def q_def word_le_nat_alt)
qed

lemma pipe_pop:
  assumes "nread p \<noteq> nwrite p" and "pipe_inv p"
  shows "pipe_bytes p = pdata p (unat (nread p mod PIPESIZE)) # pipe_bytes (p\<lparr>nread := nread p + 1\<rparr>)"
    and "pipe_inv (p\<lparr>nread := nread p + 1\<rparr>)"
  using assms unat_diff_Suc [OF assms(1)]
  by (simp_all add: pipe_bytes_def ring_list_pop ring_slot_def pipe_inv_def word_le_nat_alt)

text \<open>Why a write stops with \<open>rest\<close> still to write.\<close>

definition write_stop :: "bool \<Rightarrow> pipe_result \<Rightarrow> uchar list \<Rightarrow> pipe \<Rightarrow> bool" where
  "write_stop killed r rest q \<longleftrightarrow>
    (case r of Wrote \<Rightarrow> rest = []
     | Failed \<Rightarrow> rest \<noteq> [] \<and> length (pipe_bytes q) = PIPESIZE \<and> (\<not> readopen q \<or> killed)
     | MustSleep left \<Rightarrow> rest = left \<and> left \<noteq> [] \<and> length (pipe_bytes q) = PIPESIZE \<and> readopen q \<and> \<not> killed)"

text \<open>A write appends a prefix of its bytes; it stops early only when the pipe is full.\<close>

lemma pipewrite_loop_ok:
  "pipe_inv p \<Longrightarrow> pipewrite_loop killed cs p = (r, q) \<Longrightarrow>
    pipe_inv q \<and> readopen q = readopen p \<and> writeopen q = writeopen p \<and>
    (\<exists>done rest. cs = done @ rest \<and> pipe_bytes q = pipe_bytes p @ done \<and> write_stop killed r rest q
       \<and> nwrite q = nwrite p + of_nat (length done))"
proof (induction cs arbitrary: p)
  case (Cons c cs)
  show ?case
  proof (cases "nwrite p = nread p + PIPESIZE")
    case True
    then have "length (pipe_bytes p) = PIPESIZE" using pipe_full [of p] by simp
    with True Cons.prems show ?thesis by (auto simp: write_stop_def split: if_splits)
  next
    case False
    let ?p = "p\<lparr>pdata := (pdata p)(unat (nwrite p mod PIPESIZE) := c), nwrite := nwrite p + 1\<rparr>"
    note push = pipe_push [OF Cons.prems(1) False, of c]
    have "pipewrite_loop killed cs ?p = (r, q)" using Cons.prems(2) False by simp
    from Cons.IH [OF push(2) this] push(1) obtain "done" rest where
      "pipe_inv q" "readopen q = readopen p" "writeopen q = writeopen p" "c # cs = (c # done) @ rest"
      "pipe_bytes q = pipe_bytes p @ (c # done)" "write_stop killed r rest q"
      "nwrite q = nwrite p + of_nat (length (c # done))"
      by (auto simp: add.assoc)
    then show ?thesis by blast
  qed
qed (auto simp: write_stop_def)

lemma piperead_copy_ok:
  "pipe_inv p \<Longrightarrow> piperead_copy n p = (cs, q) \<Longrightarrow>
    cs = take n (pipe_bytes p) \<and> pipe_bytes q = drop n (pipe_bytes p) \<and> pipe_inv q
    \<and> readopen q = readopen p \<and> writeopen q = writeopen p"
proof (induction n arbitrary: p cs)
  case (Suc n)
  show ?case
  proof (cases "nread p = nwrite p")
    case True
    with Suc.prems show ?thesis by (auto simp: pipe_bytes_def)
  next
    case False
    note pop = pipe_pop [OF False Suc.prems(1)]
    obtain cs' where "piperead_copy n (p\<lparr>nread := nread p + 1\<rparr>) = (cs', q)"
      "cs = pdata p (unat (nread p mod PIPESIZE)) # cs'"
      using Suc.prems(2) False by (auto split: prod.splits)
    with Suc.IH [OF pop(2)] pop(1) show ?thesis by auto
  qed
qed auto


section \<open>Writers and readers\<close>

text \<open>
  \<open>pipe_run p ins outs\<close>: from a fresh pipe, some sequence of writes, reads and closes of either end,
  each up to its next \<open>sleep\<close>, leads to \<open>p\<close>; \<open>ins\<close> are the bytes that went in and \<open>outs\<close> the bytes that
  readers got.
\<close>

inductive pipe_run :: "pipe \<Rightarrow> uchar list \<Rightarrow> uchar list \<Rightarrow> bool" where
  start: "pipe_run (pipe_init d) [] []"
| put: "pipe_run p ins outs \<Longrightarrow> pipewrite_loop killed cs p = (r, q) \<Longrightarrow>
    pipe_run q (ins @ take (unat (nwrite q - nwrite p)) cs) outs"
| get: "pipe_run p ins outs \<Longrightarrow> piperead_try killed n p = (Some (r, bs), q) \<Longrightarrow> pipe_run q ins (outs @ bs)"
| shut: "pipe_run p ins outs \<Longrightarrow> pipe_close writable p = (freed, q) \<Longrightarrow> pipe_run q ins outs"

lemma pipe_run_fifo: "pipe_run p ins outs \<Longrightarrow> pipe_inv p \<and> ins = outs @ pipe_bytes p"
proof (induction rule: pipe_run.induct)
  case (put p ins outs killed cs r q)
  then obtain "done" rest where w: "pipe_inv q" "cs = done @ rest" "pipe_bytes q = pipe_bytes p @ done"
    "nwrite q = nwrite p + of_nat (length done)"
    using pipewrite_loop_ok by blast
  have "length done \<le> length (pipe_bytes q)" using w(3) by simp
  also have "\<dots> \<le> 512" using w(1) by (simp add: pipe_inv_def pipe_bytes_def word_le_nat_alt)
  finally have "unat (of_nat (length done) :: uint) = length done" by (simp add: unat_of_nat)
  with w put.IH show ?case by simp
next
  case (get p ins outs killed n r bs q)
  show ?case
  proof (cases "nread p = nwrite p \<and> writeopen p")
    case True
    with get show ?thesis by (auto simp: piperead_try_def split: if_splits)
  next
    case False
    obtain cs where "piperead_copy n p = (cs, q)" "bs = cs"
      using get.hyps(2) False by (auto simp: piperead_try_def split: prod.splits)
    with piperead_copy_ok [of p n cs q] get.IH show ?thesis by simp
  qed
qed (auto simp: pipe_init_def pipe_close_def pipe_inv_def pipe_bytes_def Let_def)


section \<open>Properties\<close>

text \<open>
  C29. A pipe is a first-in first-out queue: after any sequence of writes, reads and closes, what was put into
  the pipe is what was taken out followed by what the buffer still holds, and the buffer never holds more than
  \<open>PIPESIZE\<close> bytes, also after the 32-bit counters have wrapped.
\<close>

theorem pipe_fifo:
  assumes "pipe_run p ins outs"
  shows "ins = outs @ pipe_bytes p \<and> length (pipe_bytes p) \<le> PIPESIZE"
  using pipe_run_fifo [OF assms] by (auto simp: pipe_inv_def pipe_bytes_def word_le_nat_alt)

theorem pipe_fifo_witness:
  "\<exists>p. pipe_run p [1, 2, 3] [1, 2] \<and> pipe_bytes p = [3]"
proof -
  define q where "q = snd (pipewrite_loop False [1, 2, 3] (pipe_init (\<lambda>_. 0)))"
  define p where "p = snd (piperead_try False (Suc (Suc 0)) q)"
  have "pipe_run q ([] @ take (unat (nwrite q - nwrite (pipe_init (\<lambda>_. 0)))) [1, 2, 3]) []"
    by (rule pipe_run.put [OF pipe_run.start, where killed = False
          and r = "fst (pipewrite_loop False [1, 2, 3] (pipe_init (\<lambda>_. 0)))"]) (simp add: q_def)
  then have "pipe_run q [1, 2, 3] []" by (simp add: q_def pipe_init_def)
  then have "pipe_run p [1, 2, 3] ([] @ [1, 2])"
    by (rule pipe_run.get [where killed = False and n = "Suc (Suc 0)" and r = 2])
      (simp add: p_def q_def pipe_init_def piperead_try_def Let_def)
  then show ?thesis using pipe_fifo [of p "[1, 2, 3]" "[1, 2]"] by auto
qed

text \<open>
  \<open>pipewrite\<close> copies the longest prefix that fits; it then reports success, or an error when the read side is
  closed or the writer has been killed, or sleeps on a full pipe with the rest still to be written.
\<close>

lemma pipewrite_outcome:
  assumes "pipe_inv p" and "pipewrite_loop killed cs p = (r, q)"
  shows "\<exists>done rest. cs = done @ rest \<and> pipe_bytes q = pipe_bytes p @ done \<and> pipe_inv q \<and>
    (case r of Wrote \<Rightarrow> rest = []
     | Failed \<Rightarrow> rest \<noteq> [] \<and> length (pipe_bytes q) = PIPESIZE \<and> (\<not> readopen p \<or> killed)
     | MustSleep left \<Rightarrow> rest = left \<and> left \<noteq> [] \<and> length (pipe_bytes q) = PIPESIZE \<and> readopen p \<and> \<not> killed)"
proof -
  obtain put rest where d: "pipe_inv q" "readopen q = readopen p" "cs = put @ rest" "pipe_bytes q = pipe_bytes p @ put"
    "write_stop killed r rest q"
    using pipewrite_loop_ok [OF assms] by blast
  show ?thesis
    by (rule exI [of _ put], rule exI [of _ rest], cases r) (use d in \<open>simp_all add: write_stop_def\<close>)
qed

definition full_pipe :: pipe where
  "full_pipe = \<lparr>pdata = (\<lambda>_. 7), nread = 0, nwrite = 512, readopen = False, writeopen = True\<rparr>"

end
