(* ===== verification/Kalloc.thy ===== *)
theory Kalloc
  imports Strings
begin

text \<open>
  \<^verbatim>\<open>kalloc.c\<close>, the physical page allocator. The free list is a null-terminated list threaded through
  the first word of every free page, in the same byte memory in which page tables and user pages
  live. \<open>kend\<close> is the linker's symbol \<open>end\<close>, the first address after the kernel image. The pool of free
  pages is the abstraction, and \<open>page_allocator\<close> the interface, that the clients use.
\<close>

record kmem =
  mem :: memory
  kend :: uint
  freelist :: uint
  use_lock :: bool
  total_free_pages :: int

definition kfree :: "uint \<Rightarrow> kmem \<Rightarrow> kerror + kmem" where
  "kfree v s =
    (let s = s\<lparr>total_free_pages := total_free_pages s + 1\<rparr> in
     if v mod PGSIZE \<noteq> 0 \<or> v < kend s \<or> V2P v \<ge> PHYSTOP then Inl (Panic ''kfree'')
     else
       let s = s\<lparr>mem := memset (mem s) v 1 PGSIZE\<rparr>;
           s = s\<lparr>mem := st32 (mem s) v (freelist s)\<rparr>
       in Inr (s\<lparr>freelist := v\<rparr>))"

definition kalloc :: "kmem \<Rightarrow> uint \<times> kmem" where
  "kalloc s =
    (let s = s\<lparr>total_free_pages := total_free_pages s - 1\<rparr>;
         r = freelist s
     in if r \<noteq> 0 then (r, s\<lparr>freelist := ld32 (mem s) r\<rparr>) else (r, s))"

lemma kfree_bounds:
  assumes "kfree p s = Inr s'"
  shows "KERNBASE \<le> p" and "p < 0x8E000000"
proof -
  have "V2P p < PHYSTOP"
    using assms by (auto simp: kfree_def Let_def split: if_splits)
  then have "p - KERNBASE < PHYSTOP" by (simp add: V2P_def)
  then show "KERNBASE \<le> p" and "p < 0x8E000000"
    by (auto simp: word_less_nat_alt word_le_nat_alt unat_sub_if' split: if_splits)
qed

function freerange_loop :: "uint \<Rightarrow> uint \<Rightarrow> kmem \<Rightarrow> kerror + kmem" where
  "freerange_loop p vend s =
    (if p + PGSIZE \<le> vend then bindE (kfree p s) (freerange_loop (p + PGSIZE) vend) else Inr s)"
  by pat_completeness auto
termination
proof (relation "measure (\<lambda>(p, vend, s). 0x8E001000 - unat p)")
  fix p vend s x
  assume "kfree p s = Inr x"
  then have "KERNBASE \<le> p" "p < 0x8E000000" by (rule kfree_bounds)+
  then show "((p + PGSIZE, vend, x), (p, vend, s)) \<in> measure (\<lambda>(p, vend, s). 0x8E001000 - unat p)"
    by (simp add: word_less_nat_alt unat_word_ariths)
qed simp

declare freerange_loop.simps [simp del]

definition freerange :: "uint \<Rightarrow> uint \<Rightarrow> kmem \<Rightarrow> kerror + kmem" where
  "freerange vstart vend s = freerange_loop (PGROUNDUP vstart) vend s"

definition kinit1 :: "uint \<Rightarrow> uint \<Rightarrow> kmem \<Rightarrow> kerror + kmem" where
  "kinit1 vstart vend s = freerange vstart vend (s\<lparr>use_lock := False\<rparr>)"

definition kinit2 :: "uint \<Rightarrow> uint \<Rightarrow> kmem \<Rightarrow> kerror + kmem" where
  "kinit2 vstart vend s = bindE (freerange vstart vend s) (\<lambda>s. Inr (s\<lparr>use_lock := True\<rparr>))"


section \<open>The pool of free pages\<close>

text \<open>A page the allocator may own: page aligned, above the kernel image, below \<open>PHYSTOP\<close>.\<close>

definition kpage :: "kmem \<Rightarrow> uint \<Rightarrow> bool" where
  "kpage s v \<longleftrightarrow> pg_aligned v \<and> kend s \<le> v \<and> V2P v < PHYSTOP"

definition free_pages :: "kmem \<Rightarrow> uint list \<Rightarrow> bool" where
  "free_pages s ps \<longleftrightarrow> chain ld32 (mem s) (freelist s) ps \<and> distinct ps \<and> (\<forall>p \<in> set ps. kpage s p)"

lemma kpage_nonzero: "kpage s v \<Longrightarrow> v \<noteq> 0"
  by (auto simp: kpage_def V2P_def)

lemma pg_aligned_w_aligned: "pg_aligned a \<Longrightarrow> w_aligned a"
proof -
  assume "pg_aligned a"
  then have "4096 dvd unat a" by (simp only: pg_aligned_unat mod_eq_0_iff_dvd)
  then have "4 dvd unat a" by (rule dvd_trans [rotated]) simp
  then show ?thesis by (simp only: w_aligned_unat mod_eq_0_iff_dvd)
qed

lemma kpage_w_aligned: "kpage s v \<Longrightarrow> w_aligned v"
  by (simp add: kpage_def pg_aligned_w_aligned)

lemma page_offset_less:
  assumes "pg_aligned a" and "k < 4096"
  shows "unat (a + of_nat k) = unat a + k"
proof -
  have "unat a mod 4096 = 0" using assms(1) by (simp only: pg_aligned_unat)
  from aligned_add_less [OF this unat_uint_less _ assms(2)] have "unat a + k < 4294967296" by simp
  moreover have "unat (of_nat k :: uint) = k" using assms(2) by (simp add: unat_of_nat)
  ultimately show ?thesis by (simp add: unat_word_ariths)
qed

lemma page_disjoint:
  assumes "pg_aligned a" "pg_aligned b" "a \<noteq> b" "j < 4096"
  shows "\<not> in_range a 4096 (b + of_nat j)"
proof
  assume "in_range a 4096 (b + of_nat j)"
  then have i: "unat (b + of_nat j - a) < 4096" by (simp add: in_range_def)
  let ?i = "unat (b + of_nat j - a)"
  have "a + of_nat ?i = b + of_nat j" by simp
  then have "unat a + ?i = unat b + j"
    using page_offset_less [OF assms(1) i] page_offset_less [OF assms(2,4)] by simp
  moreover have "unat a mod 4096 = 0" "unat b mod 4096 = 0"
    using assms(1,2) by (simp_all only: pg_aligned_unat)
  ultimately have "unat a = unat b" using aligned_unique [of "unat a" 4096 "unat b" ?i j] i assms(4) by simp
  with assms(3) show False by (simp only: unat_inject)
qed

lemma memset_apply: "memset m v c n x = (if in_range v (unat n) x then ucast c else m x)"
proof -
  have n: "unat n \<le> 4294967295" using unat_uint_less [of n] by simp
  have l: "length (replicate (unat n) (ucast c :: uchar)) \<le> 4294967296" using n by simp
  show ?thesis
    unfolding memset_eq [OF n] mwrite_apply [OF l] by (auto simp: in_range_def)
qed

lemma memset_page_apply:
  "memset m v c PGSIZE x = (if in_range v 4096 x then ucast c else m x)"
  by (simp only: memset_apply) simp

lemma ld32_memset_other:
  assumes "pg_aligned v" "pg_aligned p" "v \<noteq> p" "k + 3 < 4096"
  shows "ld32 (memset m v c PGSIZE) (p + of_nat k) = ld32 m (p + of_nat k)"
proof (rule ld32_cong)
  fix i :: nat assume "i < 4"
  with assms have "\<not> in_range v 4096 (p + of_nat (k + i))" by (intro page_disjoint) auto
  then show "memset m v c PGSIZE (p + of_nat k + of_nat i) = m (p + of_nat k + of_nat i)"
    by (simp add: memset_page_apply add.assoc)
qed

text \<open>What \<open>kfree\<close> does to memory: only the page itself is written.\<close>

lemma kfree_ok:
  assumes "free_pages s ps" and "kpage s v" and "v \<notin> set ps"
  obtains s' where "kfree v s = Inr s'" and "free_pages s' (v # ps)" and "kend s' = kend s"
    and "total_free_pages s' = total_free_pages s + 1" and "use_lock s' = use_lock s"
    and "\<And>x. \<not> in_range v 4096 x \<Longrightarrow> mem s' x = mem s x"
proof -
  let ?m = "memset (mem s) v 1 PGSIZE"
  let ?s = "s\<lparr>total_free_pages := total_free_pages s + 1, mem := st32 ?m v (freelist s), freelist := v\<rparr>"
  have v: "pg_aligned v" "w_aligned v" "v \<noteq> 0"
    using assms(2) kpage_nonzero [OF assms(2)] by (auto simp: kpage_def pg_aligned_w_aligned)
  have ps: "chain ld32 (mem s) (freelist s) ps" "distinct ps"
    "\<And>p. p \<in> set ps \<Longrightarrow> kpage s p"
    using assms(1) by (auto simp: free_pages_def)
  have "chain ld32 ?m (freelist s) ps"
  proof (subst chain_cong)
    fix p assume p: "p \<in> set ps"
    then have "pg_aligned p" "v \<noteq> p" using ps(3) assms(3) by (auto simp: kpage_def)
    from ld32_memset_other [OF v(1) this, of 0] show "ld32 ?m p = ld32 (mem s) p" by simp
  qed (rule ps(1))
  then have "chain ld32 (st32 ?m v (freelist s)) v (v # ps)"
    by (rule w32.chain_push) (use v ps(3) assms(3) in \<open>auto dest: kpage_w_aligned\<close>)
  then have fp: "free_pages ?s (v # ps)"
    using ps assms(2,3) by (simp add: free_pages_def kpage_def)
  have eq: "kfree v s = Inr ?s"
    using assms(2) by (simp add: kfree_def Let_def kpage_def pg_aligned_def not_less not_le)
  have frame: "mem ?s x = mem s x" if "\<not> in_range v 4096 x" for x
  proof -
    have "st32 ?m v (freelist s) x = ?m x"
    proof (rule st32_other)
      fix k :: nat assume "k < 4"
      then have "in_range v 4096 (v + of_nat k)" by (simp add: in_range_def unat_of_nat)
      with that show "x \<noteq> v + of_nat k" by auto
    qed
    then show ?thesis using that by (simp add: memset_page_apply)
  qed
  show thesis by (rule that [OF eq fp]) (use frame in simp_all)
qed

lemma kalloc_some:
  assumes "free_pages s (p # ps)"
  obtains s' where "kalloc s = (p, s')" and "free_pages s' ps" and "mem s' = mem s"
    and "kend s' = kend s" and "use_lock s' = use_lock s"
    and "total_free_pages s' = total_free_pages s - 1"
proof -
  let ?s = "s\<lparr>total_free_pages := total_free_pages s - 1, freelist := ld32 (mem s) p\<rparr>"
  have "freelist s = p" "p \<noteq> 0" using assms by (auto simp: free_pages_def)
  then have eq: "kalloc s = (p, ?s)" by (simp add: kalloc_def Let_def)
  have fp: "free_pages ?s ps" using assms by (simp add: free_pages_def kpage_def)
  show thesis by (rule that [OF eq fp]) simp_all
qed

lemma kalloc_none:
  assumes "free_pages s []"
  shows "kalloc s = (0, s\<lparr>total_free_pages := total_free_pages s - 1\<rparr>)"
  using assms by (simp add: free_pages_def kalloc_def Let_def)


section \<open>The allocator's interface\<close>

locale page_allocator =
  fixes alloc :: "'s \<Rightarrow> uint \<times> 's"
    and free :: "uint \<Rightarrow> 's \<Rightarrow> kerror + 's"
    and pool :: "'s \<Rightarrow> uint list \<Rightarrow> bool"
    and page :: "'s \<Rightarrow> uint \<Rightarrow> bool"
  assumes alloc_none: "pool s [] \<Longrightarrow> fst (alloc s) = 0 \<and> pool (snd (alloc s)) []"
    and alloc_some: "pool s (p # ps) \<Longrightarrow> fst (alloc s) = p \<and> pool (snd (alloc s)) ps"
    and alloc_page: "page (snd (alloc s)) q = page s q"
    and free_ok: "pool s ps \<Longrightarrow> page s p \<Longrightarrow> p \<notin> set ps \<Longrightarrow> \<exists>s'. free p s = Inr s' \<and> pool s' (p # ps)"
    and pool_pages: "pool s ps \<Longrightarrow> distinct ps \<and> (\<forall>p \<in> set ps. page s p \<and> p \<noteq> 0)"
begin

text \<open>A page that has been handed out is not handed out again before it is freed.\<close>

lemma alloc_distinct:
  assumes "pool s ps" and "alloc s = (p, s1)" and "alloc s1 = (q, s2)" and "q \<noteq> 0"
  shows "p \<noteq> q \<and> page s p"
proof (cases ps)
  case Nil
  with assms alloc_none have "pool s1 []" by (metis snd_conv)
  with assms(3,4) alloc_none show ?thesis by (metis fst_conv)
next
  case (Cons x xs)
  with assms alloc_some have s1: "p = x" "pool s1 xs" by (metis fst_conv, metis snd_conv)
  show ?thesis
  proof (cases xs)
    case Nil
    with s1 assms(3,4) alloc_none show ?thesis by (metis fst_conv)
  next
    case (Cons y ys)
    with s1 assms(3) alloc_some have "q = y" by (metis fst_conv)
    with \<open>ps = x # xs\<close> \<open>xs = y # ys\<close> s1 pool_pages [OF assms(1)] show ?thesis by auto
  qed
qed

text \<open>Freeing a page and allocating again gives the same page back.\<close>

lemma alloc_after_free:
  assumes "pool s ps" and "page s p" and "p \<notin> set ps"
  shows "\<exists>s' s''. free p s = Inr s' \<and> alloc s' = (p, s'') \<and> pool s'' ps"
proof -
  obtain s' where "free p s = Inr s'" "pool s' (p # ps)" using free_ok assms by blast
  moreover from this alloc_some have "fst (alloc s') = p" "pool (snd (alloc s')) ps" by auto
  ultimately show ?thesis by (metis prod.collapse)
qed

end

interpretation kpool: page_allocator kalloc kfree free_pages kpage
proof (unfold_locales, goal_cases)
  case (1 s)
  then show ?case by (simp add: kalloc_none free_pages_def kpage_def)
next
  case (2 s p ps)
  then show ?case by (metis kalloc_some fst_conv snd_conv)
next
  case (3 s q)
  then show ?case by (simp add: kalloc_def Let_def kpage_def)
next
  case (4 s ps p)
  then show ?case by (metis kfree_ok)
next
  case (5 s ps)
  then show ?case by (auto simp: free_pages_def dest: kpage_nonzero)
qed


section \<open>Properties\<close>

definition page_range :: "uint \<Rightarrow> nat \<Rightarrow> uint list" where
  "page_range p n = map (\<lambda>i. p + of_nat (4096 * i)) [0..<n]"

lemma page_range_Suc: "page_range p (Suc n) = p # page_range (p + PGSIZE) n"
  by (simp add: page_range_def upt_conv_Cons map_Suc_upt [symmetric] algebra_simps del: upt_Suc)

lemma page_range_0 [simp]: "page_range p 0 = []"
  by (simp add: page_range_def)

lemma freerange_loop_ok:
  assumes "free_pages s ps" and "pg_aligned p" and "0x80000000 \<le> unat (kend s)" and "kend s \<le> p"
    and "unat p + 4096 * n \<le> unat vend" and "unat vend < unat p + 4096 * Suc n" and "unat vend \<le> 0x8E000000"
    and "\<forall>q \<in> set ps. q < p \<or> vend \<le> q"
  shows "\<exists>t. freerange_loop p vend s = Inr t \<and> free_pages t (rev (page_range p n) @ ps) \<and> kend t = kend s
    \<and> total_free_pages t = total_free_pages s + int n \<and> use_lock t = use_lock s"
  using assms
proof (induction n arbitrary: p s ps)
  case 0
  then have "\<not> p + PGSIZE \<le> vend" by (simp add: word_le_nat_alt unat_word_ariths)
  then show ?case using 0 by (simp add: freerange_loop.simps)
next
  case (Suc n)
  have lt: "unat p < 0x8E000000" using Suc.prems(5,7) by simp
  have up: "unat (p + PGSIZE) = unat p + 4096" using lt by (simp add: unat_word_ariths)
  have "kpage s p"
    using Suc.prems(2-4) lt by (auto simp: kpage_def V2P_def word_less_nat_alt word_le_nat_alt unat_sub_if')
  moreover have "p \<notin> set ps" using Suc.prems(5,8) by (auto simp: word_le_nat_alt)
  ultimately obtain t where t: "kfree p s = Inr t" "free_pages t (p # ps)" "kend t = kend s"
    "total_free_pages t = total_free_pages s + 1" "use_lock t = use_lock s"
    using kfree_ok [OF Suc.prems(1)] by metis
  have "\<exists>u. freerange_loop (p + PGSIZE) vend t = Inr u \<and> free_pages u (rev (page_range (p + PGSIZE) n) @ p # ps) \<and> kend u = kend t
    \<and> total_free_pages u = total_free_pages t + int n \<and> use_lock u = use_lock t"
  proof (rule Suc.IH [OF t(2)])
    show "pg_aligned (p + PGSIZE)" using Suc.prems(2) by (intro pg_aligned_add) simp_all
    show "\<forall>q \<in> set (p # ps). q < p + PGSIZE \<or> vend \<le> q"
      using Suc.prems(8) up by (auto simp: word_less_nat_alt)
  qed (use Suc.prems t(3) up in \<open>auto simp: word_le_nat_alt\<close>)
  moreover have "p + PGSIZE \<le> vend" using up Suc.prems(5) by (simp add: word_le_nat_alt)
  ultimately show ?case using t by (auto simp: freerange_loop.simps [of p] page_range_Suc)
qed

lemma unat_PGROUNDUP:
  assumes "unat a \<le> 0xFFFFF000"
  shows "unat (PGROUNDUP a) = (unat a + 4095) div 4096 * 4096"
proof -
  have "unat (a + 4095) = unat a + 4095" using assms by (simp add: unat_word_ariths)
  then show ?thesis
    by (simp add: PGROUNDUP_def unat_and_not_FFF [simplified] add_diff_eq [symmetric] minus_mod_eq_div_mult)
qed

lemma page_range_append: "page_range p (a + b) = page_range p a @ page_range (p + of_nat (4096 * a)) b"
proof -
  have "map (\<lambda>i. p + of_nat (4096 * i)) [a..<a + b] = map (\<lambda>i. p + of_nat (4096 * a) + of_nat (4096 * i)) [0..<b]"
    by (auto intro!: nth_equalityI simp: algebra_simps)
  then show ?thesis by (simp add: page_range_def upt_add_eq_append [of 0 a b, simplified])
qed

text \<open>
  C30. After \<open>kinit1\<close> and \<open>kinit2\<close>, as \<open>main\<close> calls them, the free list has every page between the end of the kernel and
  \<open>PHYSTOP\<close> exactly once, and \<open>total_free_pages\<close> counts them.
\<close>

theorem kinit_pool:
  assumes "free_pages s []" and "0x80000000 \<le> unat (kend s)" and "unat (kend s) \<le> 0x803FF000"
  shows "\<exists>t u. kinit1 (kend s) (P2V 0x400000) s = Inr t \<and> kinit2 (P2V 0x400000) (P2V PHYSTOP) t = Inr u
    \<and> free_pages u (rev (page_range (PGROUNDUP (kend s)) ((0x8E000000 - unat (PGROUNDUP (kend s))) div 4096)))
    \<and> total_free_pages u = total_free_pages s + int ((0x8E000000 - unat (PGROUNDUP (kend s))) div 4096) \<and> use_lock u"
proof -
  let ?p = "PGROUNDUP (kend s)"
  have up: "unat ?p = (unat (kend s) + 4095) div 4096 * 4096" using assms(3) by (intro unat_PGROUNDUP) simp
  have al: "pg_aligned ?p" by (simp add: pg_aligned_unat up)
  have le: "unat (kend s) \<le> unat ?p" "unat ?p \<le> 0x80400000" using assms(3) unfolding up by linarith+
  define a where "a = (0x80400000 - unat ?p) div 4096"
  have a: "unat ?p + 4096 * a = 0x80400000" using al le by (auto simp: a_def pg_aligned_unat)
  obtain t where t: "freerange_loop ?p 0x80400000 (s\<lparr>use_lock := False\<rparr>) = Inr t" "free_pages t (rev (page_range ?p a))"
    "kend t = kend s" "total_free_pages t = total_free_pages s + int a"
    using freerange_loop_ok [where s = "s\<lparr>use_lock := False\<rparr>" and ps = "[]" and p = ?p and n = a and vend = "0x80400000"] assms al le a
    by (auto simp: free_pages_def kpage_def word_le_nat_alt)
  have ru: "PGROUNDUP 0x80400000 = 0x80400000" by (simp add: PGROUNDUP_def)
  have hi: "q < 0x80400000" if q: "q \<in> set (page_range ?p a)" for q
  proof -
    obtain i where i: "i < a" "q = ?p + of_nat (4096 * i)" using q by (auto simp: page_range_def)
    then have "unat q = unat ?p + 4096 * i" using a by (simp add: unat_word_ariths unat_of_nat)
    then show ?thesis using i a by (simp add: word_less_nat_alt)
  qed
  obtain u where u: "freerange_loop 0x80400000 0x8E000000 t = Inr u"
    "free_pages u (rev (page_range 0x80400000 56320) @ rev (page_range ?p a))"
    "total_free_pages u = total_free_pages t + 56320"
    using freerange_loop_ok [OF t(2), where p = "0x80400000" and n = 56320 and vend = "0x8E000000"] assms(2,3) t(3) hi
    by (auto simp: word_le_nat_alt pg_aligned_unat)
  have n: "(0x8E000000 - unat ?p) div 4096 = a + 56320"
  proof -
    have "0x8E000000 - unat ?p = 4096 * (a + 56320)" using a by simp
    then show ?thesis by simp
  qed
  have w: "?p + of_nat (4096 * a) = 0x80400000" using a by (simp add: unat_inject [symmetric] unat_word_ariths unat_of_nat)
  show ?thesis
    unfolding n page_range_append w
    using t u ru by (simp add: kinit1_def kinit2_def freerange_def P2V_def free_pages_def kpage_def)
qed

text \<open>The static state of the allocator, for a kernel that ends at \<open>0x801154A8\<close>.\<close>

definition bss_kmem :: kmem where
  "bss_kmem = \<lparr>mem = (\<lambda>_. 0), kend = 0x801154A8, freelist = 0, use_lock = False, total_free_pages = 0\<rparr>"

lemma bss_kmem_pool: "free_pages bss_kmem []"
  by (simp add: free_pages_def bss_kmem_def)

theorem kinit_pool_witness:
  "\<exists>t u. kinit1 0x801154A8 (P2V 0x400000) bss_kmem = Inr t \<and> kinit2 (P2V 0x400000) (P2V PHYSTOP) t = Inr u
    \<and> free_pages u (rev (page_range 0x80116000 57066)) \<and> total_free_pages u = 57066"
  using kinit_pool [OF bss_kmem_pool] by (auto simp: bss_kmem_def PGROUNDUP_def)

text \<open>
  A page that is freed can be allocated again: \<open>kfree\<close> then \<open>kalloc\<close> gives the same page and the pool as it was,
  and the memory of all other pages is untouched.
\<close>

lemma kfree_kalloc:
  assumes "free_pages s ps" and "kpage s p" and "p \<notin> set ps"
  shows "\<exists>t u. kfree p s = Inr t \<and> kalloc t = (p, u) \<and> free_pages u ps \<and> total_free_pages u = total_free_pages s
    \<and> (\<forall>x. \<not> in_range p 4096 x \<longrightarrow> mem u x = mem s x)"
proof -
  obtain t where t: "kfree p s = Inr t" "free_pages t (p # ps)" "total_free_pages t = total_free_pages s + 1"
    "\<And>x. \<not> in_range p 4096 x \<Longrightarrow> mem t x = mem s x"
    using kfree_ok [OF assms] by metis
  obtain u where "kalloc t = (p, u)" "free_pages u ps" "mem u = mem t" "total_free_pages u = total_free_pages t - 1"
    using kalloc_some [OF t(2)] by metis
  then show ?thesis using t by auto
qed

text \<open>Two calls of \<open>kalloc\<close> that both succeed return different pages of the allocator, until one is freed.\<close>

lemma kalloc_twice:
  assumes "free_pages s ps" and "kalloc s = (p, t)" and "kalloc t = (q, u)" and "q \<noteq> 0"
  shows "p \<noteq> q \<and> kpage s p \<and> pg_aligned p \<and> p \<notin> set (drop 1 ps) \<and> free_pages u (drop 2 ps)"
proof -
  have ne: "p \<noteq> q" "kpage s p" using kpool.alloc_distinct [OF assms] by simp_all
  obtain a b r where ps: "ps = a # b # r"
  proof (cases ps)
    case Nil
    then show ?thesis using assms kalloc_none [of s] kalloc_none [of t] by (auto simp: free_pages_def)
  next
    case (Cons a qs)
    then have "free_pages t qs" using assms(1,2) kpool.alloc_some [of s a qs] by simp
    then show ?thesis using assms(3,4) Cons that kalloc_none [of t] by (cases qs) auto
  qed
  then have "free_pages t (b # r)" "p = a" using assms(1,2) kpool.alloc_some [of s a "b # r"] by simp_all
  moreover from this(1) have "free_pages u r" using assms(3) kpool.alloc_some [of t b r] by simp
  ultimately show ?thesis using ne ps assms(1) by (auto simp: free_pages_def kpage_def)
qed

text \<open>
  C31. \<open>kalloc\<close> on an empty free list returns 0, and \<open>total_free_pages\<close>, which counted the free pages exactly, is then
  one too low.
\<close>

theorem kalloc_miscounts:
  assumes "free_pages s []" and "total_free_pages s = 0"
  shows "fst (kalloc s) = 0 \<and> free_pages (snd (kalloc s)) [] \<and> total_free_pages (snd (kalloc s)) = - 1"
  using assms kalloc_none [OF assms(1)] by (simp add: free_pages_def)

theorem kalloc_miscounts_witness: "fst (kalloc bss_kmem) = 0 \<and> total_free_pages (snd (kalloc bss_kmem)) = - 1"
  using kalloc_miscounts [OF bss_kmem_pool] by (simp add: bss_kmem_def)

end
