(* ===== verification/Pgtable.thy ===== *)
theory Pgtable
  imports Kalloc
begin

text \<open>
  The two-level x86 page tables of \<^verbatim>\<open>vm.c\<close>: \<open>walkpgdir\<close> and \<open>mappages\<close>, on the allocator's memory. The
  abstraction is the entry that a page directory gives for a virtual address; the theory shows that
  \<open>mappages\<close> terminates and installs exactly the entries of its range.
\<close>

definition walkpgdir :: "uint \<Rightarrow> uint \<Rightarrow> bool \<Rightarrow> kmem \<Rightarrow> uint \<times> kmem" where
  "walkpgdir pgdir va alloc s =
    (let pde = pgdir + 4 * PDX va in
     if ld32 (mem s) pde AND PTE_P \<noteq> 0 then (P2V (PTE_ADDR (ld32 (mem s) pde)) + 4 * PTX va, s)
     else if \<not> alloc then (0, s)
     else
       let (pgtab, s) = kalloc s in
       if pgtab = 0 then (0, s)
       else
         let s = s\<lparr>mem := memset (mem s) pgtab 0 PGSIZE\<rparr>;
             s = s\<lparr>mem := st32 (mem s) pde (V2P pgtab OR PTE_P OR PTE_W OR PTE_U)\<rparr>
         in (pgtab + 4 * PTX va, s))"

text \<open>The message that \<open>mappages\<close> prints before it panics is not modelled: page tables lie below the console, and a panic ends the run.\<close>

partial_function (option) mappages_loop ::
    "uint \<Rightarrow> uint \<Rightarrow> uint \<Rightarrow> uint \<Rightarrow> uint \<Rightarrow> kmem \<Rightarrow> (kerror + int \<times> kmem) option" where
  "mappages_loop pgdir a lst pa perm s =
    (case walkpgdir pgdir a True s of (pte, s) \<Rightarrow>
       if pte = 0 then Some (Inr (-1, s))
       else if ld32 (mem s) pte AND PTE_P \<noteq> 0 then Some (Inl (Panic ''remap''))
       else
         let s = s\<lparr>mem := st32 (mem s) pte (pa OR perm OR PTE_P)\<rparr> in
         if a = lst then Some (Inr (0, s))
         else mappages_loop pgdir (a + PGSIZE) lst (pa + PGSIZE) perm s)"

definition mappages :: "uint \<Rightarrow> uint \<Rightarrow> uint \<Rightarrow> uint \<Rightarrow> uint \<Rightarrow> kmem \<Rightarrow> kerror + int \<times> kmem" where
  "mappages pgdir va sz pa perm s =
    (let a = PGROUNDDOWN va; lst = PGROUNDDOWN (va + sz - 1) in
     if sz AND (PGSIZE - 1) \<noteq> 0 then Inl (Panic ''mappages: size not multiple of PGSIZE'')
     else case mappages_loop pgdir a lst pa perm s of None \<Rightarrow> Inl Hang | Some r \<Rightarrow> r)"


section \<open>Words of pages\<close>

lemma unat_page_word: "pg_aligned p \<Longrightarrow> unat k < 1024 \<Longrightarrow> unat (p + 4 * k) = unat p + 4 * unat k"
proof -
  assume a: "pg_aligned p" "unat k < 1024"
  have "4 * k = of_nat (4 * unat k)" by simp
  then show ?thesis using page_offset_less [OF a(1), of "4 * unat k"] a(2) by simp
qed

lemma w_aligned_page_word: "pg_aligned p \<Longrightarrow> unat k < 1024 \<Longrightarrow> w_aligned (p + 4 * k)"
proof -
  assume a: "pg_aligned p" "unat k < 1024"
  have "4 dvd unat p" using pg_aligned_w_aligned [OF a(1)] by (simp only: w_aligned_unat mod_eq_0_iff_dvd)
  then show ?thesis using unat_page_word [OF a] by (simp add: w_aligned_unat dvd_add mod_0_imp_dvd dvd_imp_mod_0)
qed

lemma page_word_inject:
  assumes "pg_aligned p" "pg_aligned q" "unat k < 1024" "unat j < 1024" "p + 4 * k = q + 4 * j"
  shows "p = q \<and> k = j"
proof -
  have e: "unat p + 4 * unat k = unat q + 4 * unat j"
    using assms unat_page_word by metis
  have m: "unat p mod 4096 = 0" "unat q mod 4096 = 0" using assms(1,2) by (simp_all only: pg_aligned_unat)
  have "unat p = unat q"
    using aligned_unique [of "unat p" 4096 "unat q" "4 * unat k" "4 * unat j"] e m assms(3,4) by simp
  moreover from this e have "unat k = unat j" by simp
  ultimately show ?thesis by (simp only: unat_inject)
qed

text \<open>Stores and fills of a page that is not free leave the free list alone.\<close>

lemma free_pages_mem:
  assumes "free_pages s ps" and "\<And>q. q \<in> set ps \<Longrightarrow> ld32 m q = ld32 (mem s) q"
  shows "free_pages (s\<lparr>mem := m\<rparr>) ps"
  using assms chain_cong [of ps ld32 m "mem s"] by (simp add: free_pages_def kpage_def)

lemma ld32_page_store:
  assumes "pg_aligned p" "pg_aligned q" "unat k < 1024" "unat j < 1024" "p \<noteq> q \<or> k \<noteq> j"
  shows "ld32 (st32 m (p + 4 * k) v) (q + 4 * j) = ld32 m (q + 4 * j)"
  using page_word_inject [OF assms(1-4)] assms(5)
  by (intro ld32_st32_other w_aligned_page_word assms) metis

lemma free_pages_store:
  assumes "free_pages s ps" "pg_aligned p" "p \<notin> set ps" "unat k < 1024"
  shows "free_pages (s\<lparr>mem := st32 (mem s) (p + 4 * k) v\<rparr>) ps"
proof (rule free_pages_mem [OF assms(1)])
  fix q assume q: "q \<in> set ps"
  then have "pg_aligned q" "p \<noteq> q" using assms(1,3) by (auto simp: free_pages_def kpage_def)
  then show "ld32 (st32 (mem s) (p + 4 * k) v) q = ld32 (mem s) q"
    using ld32_page_store [of p q k 0] assms(2,4) by simp
qed

lemma ld32_memset_page:
  "pg_aligned v \<Longrightarrow> pg_aligned p \<Longrightarrow> v \<noteq> p \<Longrightarrow> unat k < 1024 \<Longrightarrow>
    ld32 (memset m v c PGSIZE) (p + 4 * k) = ld32 m (p + 4 * k)"
  using ld32_memset_other [of v p "4 * unat k" m c] by simp

lemma free_pages_memset:
  assumes "free_pages s ps" "pg_aligned p" "p \<notin> set ps"
  shows "free_pages (s\<lparr>mem := memset (mem s) p c PGSIZE\<rparr>) ps"
proof (rule free_pages_mem [OF assms(1)])
  fix q assume q: "q \<in> set ps"
  then have "pg_aligned q" "p \<noteq> q" using assms(1,3) by (auto simp: free_pages_def kpage_def)
  then show "ld32 (memset (mem s) p c PGSIZE) q = ld32 (mem s) q"
    using ld32_memset_page [of p q 0] assms(2) by simp
qed

lemma in_range_offset: "n < 4096 \<Longrightarrow> in_range p 4096 (p + of_nat n)"
  by (simp add: in_range_def unat_of_nat)

lemma ld32_memset_zero:
  assumes "pg_aligned p" "unat k < 1024"
  shows "ld32 (memset m p 0 PGSIZE) (p + 4 * k) = 0"
proof -
  have "memset m p 0 PGSIZE (p + 4 * k + of_nat i) = 0" if "i < 4" for i
  proof -
    have "p + 4 * k + of_nat i = p + of_nat (4 * unat k + i)" by (simp add: add.assoc)
    moreover have "in_range p 4096 (p + of_nat (4 * unat k + i))"
      by (rule in_range_offset) (use that assms(2) in simp)
    ultimately show ?thesis by (simp only: memset_page_apply) simp
  qed
  from this [of 0] this [of 1] this [of 2] this [of 3] show ?thesis by (simp add: ld32_def)
qed


section \<open>The entries of a page directory\<close>

definition pde :: "memory \<Rightarrow> uint \<Rightarrow> uint \<Rightarrow> uint" where
  "pde m pgdir i = ld32 m (pgdir + 4 * i)"

definition pgtab :: "memory \<Rightarrow> uint \<Rightarrow> uint \<Rightarrow> uint" where
  "pgtab m pgdir i = P2V (PTE_ADDR (pde m pgdir i))"

text \<open>The entry for a virtual address; zero where there is no page table.\<close>

definition pte_of :: "memory \<Rightarrow> uint \<Rightarrow> uint \<Rightarrow> uint" where
  "pte_of m pgdir va =
    (if pde m pgdir (PDX va) AND PTE_P \<noteq> 0 then ld32 m (pgtab m pgdir (PDX va) + 4 * PTX va) else 0)"

text \<open>The directory and its tables are different pages of the allocator, none of them free.\<close>

definition pt_ok :: "kmem \<Rightarrow> uint \<Rightarrow> uint list \<Rightarrow> bool" where
  "pt_ok s pgdir ps \<longleftrightarrow> free_pages s ps \<and> kpage s pgdir \<and> pgdir \<notin> set ps \<and>
    (\<forall>i. unat i < 1024 \<longrightarrow> pde (mem s) pgdir i AND PTE_P \<noteq> 0 \<longrightarrow>
       kpage s (pgtab (mem s) pgdir i) \<and> pgtab (mem s) pgdir i \<notin> set ps \<and> pgtab (mem s) pgdir i \<noteq> pgdir) \<and>
    (\<forall>i j. unat i < 1024 \<longrightarrow> unat j < 1024 \<longrightarrow> pde (mem s) pgdir i AND PTE_P \<noteq> 0 \<longrightarrow>
       pde (mem s) pgdir j AND PTE_P \<noteq> 0 \<longrightarrow> pgtab (mem s) pgdir i = pgtab (mem s) pgdir j \<longrightarrow> i = j)"

lemma pt_okD:
  assumes "pt_ok s pgdir ps"
  shows "free_pages s ps" "kpage s pgdir" "pgdir \<notin> set ps" "pg_aligned pgdir"
    and "unat i < 1024 \<Longrightarrow> pde (mem s) pgdir i AND PTE_P \<noteq> 0 \<Longrightarrow>
       kpage s (pgtab (mem s) pgdir i) \<and> pgtab (mem s) pgdir i \<notin> set ps \<and> pgtab (mem s) pgdir i \<noteq> pgdir"
    and "unat i < 1024 \<Longrightarrow> unat j < 1024 \<Longrightarrow> pde (mem s) pgdir i AND PTE_P \<noteq> 0 \<Longrightarrow>
       pde (mem s) pgdir j AND PTE_P \<noteq> 0 \<Longrightarrow> pgtab (mem s) pgdir i = pgtab (mem s) pgdir j \<Longrightarrow> i = j"
  using assms by (auto simp: pt_ok_def kpage_def)

lemma pg_aligned_pgtab [simp]: "pg_aligned (pgtab m pgdir i)"
  by (simp add: pgtab_def)

text \<open>Storing an entry of a page table changes that entry only.\<close>

lemma pt_store:
  fixes v :: uint
  assumes ok: "pt_ok s pgdir ps" and i: "unat i < 1024" and j: "unat j < 1024"
    and pres: "pde (mem s) pgdir i AND PTE_P \<noteq> 0"
  defines "m \<equiv> st32 (mem s) (pgtab (mem s) pgdir i + 4 * j) v"
  shows "pt_ok (s\<lparr>mem := m\<rparr>) pgdir ps"
    and "unat k < 1024 \<Longrightarrow> pde m pgdir k = pde (mem s) pgdir k"
    and "pte_of m pgdir va = (if PDX va = i \<and> PTX va = j then v else pte_of (mem s) pgdir va)"
proof -
  note o = pt_okD [OF ok]
  let ?t = "pgtab (mem s) pgdir i"
  have t: "?t \<notin> set ps" "?t \<noteq> pgdir" using o(5) [OF i pres] by auto
  have pd: "pde m pgdir k = pde (mem s) pgdir k" if "unat k < 1024" for k
    unfolding pde_def m_def by (rule ld32_page_store) (use o(4) t j that in auto)
  then show "unat k < 1024 \<Longrightarrow> pde m pgdir k = pde (mem s) pgdir k" .
  have tab: "pgtab m pgdir k = pgtab (mem s) pgdir k" if "unat k < 1024" for k
    using pd [OF that] by (simp add: pgtab_def)
  have "free_pages (s\<lparr>mem := m\<rparr>) ps"
    unfolding m_def by (rule free_pages_store) (use o(1) t j in auto)
  then show "pt_ok (s\<lparr>mem := m\<rparr>) pgdir ps"
    using o(2,3,5,6) pd tab by (simp add: pt_ok_def kpage_def)
  show "pte_of m pgdir va = (if PDX va = i \<and> PTX va = j then v else pte_of (mem s) pgdir va)"
  proof (cases "PDX va = i \<and> PTX va = j")
    case True
    then show ?thesis
      using pres pd [OF i] tab [OF i] by (simp add: pte_of_def) (simp add: m_def ld32_st32_same)
  next
    case False
    have "ld32 m (pgtab (mem s) pgdir (PDX va) + 4 * PTX va) = ld32 (mem s) (pgtab (mem s) pgdir (PDX va) + 4 * PTX va)"
      if "pde (mem s) pgdir (PDX va) AND PTE_P \<noteq> 0"
      unfolding m_def using o(6) [OF PDX_less i that pres] False
      by (intro ld32_page_store) (use j PTX_less in auto)
    then have "pte_of m pgdir va = pte_of (mem s) pgdir va"
      using pd [OF PDX_less, of va] tab [OF PDX_less, of va] by (simp add: pte_of_def)
    with False show ?thesis by (simp only: if_False)
  qed
qed

lemma walk_present:
  "pde (mem s) pgdir (PDX va) AND PTE_P \<noteq> 0 \<Longrightarrow>
    walkpgdir pgdir va alloc s = (pgtab (mem s) pgdir (PDX va) + 4 * PTX va, s)"
  by (simp add: walkpgdir_def pde_def pgtab_def)

lemma walk_absent: "pde (mem s) pgdir (PDX va) AND PTE_P = 0 \<Longrightarrow> walkpgdir pgdir va False s = (0, s)"
  by (simp add: walkpgdir_def pde_def)

text \<open>A missing page table is taken from the free pages and zeroed.\<close>

lemma walk_new:
  assumes ok: "pt_ok s pgdir (p # ps)" and abs: "pde (mem s) pgdir (PDX va) AND PTE_P = 0"
  obtains s' where "walkpgdir pgdir va True s = (p + 4 * PTX va, s')" and "pt_ok s' pgdir ps"
    and "pde (mem s') pgdir (PDX va) AND PTE_P \<noteq> 0" and "pgtab (mem s') pgdir (PDX va) = p"
    and "\<And>va'. pte_of (mem s') pgdir va' = pte_of (mem s) pgdir va'" and "kend s' = kend s"
proof -
  note o = pt_okD [OF ok]
  let ?i = "PDX va"
  obtain s1 where s1: "kalloc s = (p, s1)" "free_pages s1 ps" "mem s1 = mem s" "kend s1 = kend s"
    using kalloc_some [OF o(1)] by metis
  have p: "kpage s p" "pg_aligned p" "p \<noteq> 0" "p \<notin> set ps" "p \<noteq> pgdir"
    using o(1,3) by (auto simp: free_pages_def kpage_def dest: kpage_nonzero)
  let ?m1 = "memset (mem s) p 0 PGSIZE" and ?v = "V2P p OR PTE_P OR PTE_W OR PTE_U"
  let ?m = "st32 ?m1 (pgdir + 4 * ?i) ?v"
  define s' where "s' = s1\<lparr>mem := ?m\<rparr>"
  have eq: "walkpgdir pgdir va True s = (p + 4 * PTX va, s')"
    using abs p(3) s1(1,3) by (simp add: walkpgdir_def pde_def s'_def)
  have old: "ld32 ?m1 (q + 4 * k) = ld32 (mem s) (q + 4 * k)" if "pg_aligned q" "q \<noteq> p" "unat k < 1024" for q k
    using ld32_memset_page [OF p(2) that(1)] that by simp
  have pd: "pde ?m pgdir k = (if k = ?i then ?v else pde (mem s) pgdir k)" if k: "unat k < 1024" for k
  proof (cases "k = ?i")
    case False
    then have "ld32 ?m (pgdir + 4 * k) = ld32 ?m1 (pgdir + 4 * k)"
      by (intro ld32_page_store) (use o(4) PDX_less k in auto)
    with False show ?thesis using old [OF o(4) p(5) [symmetric] k] by (simp add: pde_def)
  qed (simp add: pde_def ld32_st32_same)
  have v: "?v AND PTE_P \<noteq> 0" "P2V (PTE_ADDR ?v) = p"
  proof -
    show "?v AND PTE_P \<noteq> 0" by (simp add: flag_simps bit_simps)
    have "PTE_ADDR ?v = V2P p" using PTE_ADDR_or [of "V2P p" 7] p(2) by simp
    then show "P2V (PTE_ADDR ?v) = p" by simp
  qed
  have tab: "pgtab ?m pgdir k = (if k = ?i then p else pgtab (mem s) pgdir k)" if "unat k < 1024" for k
    using pd [OF that] v(2) by (simp add: pgtab_def)
  have zero: "ld32 ?m (p + 4 * PTX va') = 0" for va'
    using ld32_page_store [OF o(4) p(2) PDX_less PTX_less, of va va' ?m1 ?v] p(5)
      ld32_memset_zero [OF p(2) PTX_less] by auto
  have keep: "pte_of ?m pgdir va' = pte_of (mem s) pgdir va'" for va'
  proof (cases "PDX va' = ?i")
    case True
    then show ?thesis using pd [OF PDX_less, of va'] tab [OF PDX_less, of va'] zero abs v(1) by (simp add: pte_of_def)
  next
    case False
    have "ld32 ?m (pgtab (mem s) pgdir (PDX va') + 4 * PTX va') = ld32 (mem s) (pgtab (mem s) pgdir (PDX va') + 4 * PTX va')"
      if pr: "pde (mem s) pgdir (PDX va') AND PTE_P \<noteq> 0"
    proof -
      have "pgtab (mem s) pgdir (PDX va') \<noteq> p" "pgtab (mem s) pgdir (PDX va') \<noteq> pgdir"
        using o(5) [OF PDX_less pr] by auto
      then show ?thesis
        using ld32_page_store [OF o(4) pg_aligned_pgtab PDX_less PTX_less] old [OF pg_aligned_pgtab _ PTX_less] by metis
    qed
    with False show ?thesis using pd [OF PDX_less, of va'] tab [OF PDX_less, of va'] by (simp add: pte_of_def)
  qed
  have "free_pages (s1\<lparr>mem := ?m1\<rparr>) ps" using free_pages_memset [OF s1(2) p(2,4)] s1(3) by simp
  from free_pages_store [OF this o(4) _ PDX_less, of va ?v] o(3)
  have "free_pages s' ps" by (simp add: s'_def)
  moreover have "kpage s' q = kpage s q" for q using s1(4) by (simp add: s'_def kpage_def)
  moreover have "mem s' = ?m" by (simp add: s'_def)
  ultimately have ok': "pt_ok s' pgdir ps"
    using o(2,3,5,6) pd tab p by (simp add: pt_ok_def) (metis (no_types, lifting))
  show thesis
    by (rule that [OF eq ok']) (use pd [OF PDX_less, of va] tab [OF PDX_less, of va] v keep s1(4) in \<open>simp_all add: s'_def\<close>)
qed


section \<open>Mapping a range of pages\<close>

lemma PTE_ADDR_index: "PDX (PTE_ADDR va) = PDX va" "PTX (PTE_ADDR va) = PTX va"
proof -
  have "unat (PTE_ADDR va) = unat va div 4096 * 4096"
    unfolding unat_PTE_ADDR by (simp add: minus_mod_eq_div_mult)
  then have d: "unat (PTE_ADDR va) div 4096 = unat va div 4096" by simp
  have "n div 2 ^ 22 = n div 4096 div 1024" "n div 2 ^ 12 = n div 4096" for n :: nat
    by (simp_all add: div_mult2_eq [symmetric])
  then have "unat (PDX (PTE_ADDR va)) = unat (PDX va)" "unat (PTX (PTE_ADDR va)) = unat (PTX va)"
    using d by (simp_all only: unat_PDX unat_PTX)
  then show "PDX (PTE_ADDR va) = PDX va" "PTX (PTE_ADDR va) = PTX va" by (simp_all only: unat_inject)
qed

lemma same_page: "pg_aligned a \<Longrightarrow> PDX va = PDX a \<and> PTX va = PTX a \<longleftrightarrow> PTE_ADDR va = a"
  using page_index_inject [of "PTE_ADDR va" a] PTE_ADDR_index [of va] by auto

text \<open>The loop comes to its end: the last page is a whole number of pages away.\<close>

lemma page_step:
  fixes a lst :: uint
  assumes "pg_aligned a" "pg_aligned lst" "a \<noteq> lst"
  shows "unat (lst - (a + PGSIZE)) < unat (lst - a)"
proof -
  have al: "pg_aligned (lst - a)" using assms by blast
  have "lst - a \<noteq> 0" using assms(3) by simp
  then have "0 < unat (lst - a)" by (simp add: unat_gt_0)
  with al have "4096 \<le> unat (lst - a)" by (auto simp: pg_aligned_dvd dest: dvd_imp_le)
  then have "unat ((lst - a) - 4096) = unat (lst - a) - 4096" by (subst unat_sub) (simp_all add: word_le_nat_alt)
  moreover have e: "lst - (a + 4096) = (lst - a) - 4096" by simp
  ultimately have "unat (lst - (a + 4096)) = unat (lst - a) - 4096" by (simp only:)
  then show ?thesis using \<open>4096 \<le> unat (lst - a)\<close> by linarith
qed

lemma mappages_loop_ends:
  "pg_aligned a \<Longrightarrow> pg_aligned lst \<Longrightarrow> \<exists>r. mappages_loop pgdir a lst pa perm s = Some r"
proof (induction "unat (lst - a)" arbitrary: a pa s rule: less_induct)
  case less
  show ?case
  proof (cases "a = lst")
    case True
    then show ?thesis by (subst mappages_loop.simps) (auto split: prod.splits simp: Let_def)
  next
    case False
    have al: "pg_aligned (a + 4096)" using less.prems(1) by auto
    from less.hyps [OF page_step [OF less.prems False] al less.prems(2)] False
    show ?thesis by (subst mappages_loop.simps) (auto split: prod.splits simp: Let_def)
  qed
qed

lemma walk_alloc:
  assumes ok: "pt_ok s pgdir ps" and "ps \<noteq> []"
  shows "\<exists>s' ps'. walkpgdir pgdir va True s = (pgtab (mem s') pgdir (PDX va) + 4 * PTX va, s')
    \<and> pt_ok s' pgdir ps' \<and> pde (mem s') pgdir (PDX va) AND PTE_P \<noteq> 0
    \<and> (\<forall>va'. pte_of (mem s') pgdir va' = pte_of (mem s) pgdir va') \<and> kend s' = kend s
    \<and> (ps' = ps \<or> ps' = tl ps)"
proof (cases "pde (mem s) pgdir (PDX va) AND PTE_P = 0")
  case True
  obtain p qs where ps: "ps = p # qs" using assms(2) by (cases ps) auto
  obtain s' where "walkpgdir pgdir va True s = (p + 4 * PTX va, s')" "pt_ok s' pgdir qs"
    "pde (mem s') pgdir (PDX va) AND PTE_P \<noteq> 0" "pgtab (mem s') pgdir (PDX va) = p"
    "\<forall>va'. pte_of (mem s') pgdir va' = pte_of (mem s) pgdir va'" "kend s' = kend s"
    using walk_new [OF ok [unfolded ps] True] by metis
  then show ?thesis using ps by (metis list.sel(3))
next
  case False
  then show ?thesis using walk_present [OF False] ok by metis
qed

lemma page_word_nonzero: "kpage s p \<Longrightarrow> unat k < 1024 \<Longrightarrow> p + 4 * k \<noteq> 0"
proof -
  assume a: "kpage s p" "unat k < 1024"
  then have "0 < unat p" using kpage_nonzero [OF a(1)] by (simp add: unat_gt_0)
  then have "0 < unat (p + 4 * k)" using unat_page_word [of p k] a by (simp add: kpage_def)
  then show ?thesis by (metis unat_0 less_irrefl)
qed

text \<open>Mapping one page.\<close>

lemma map_page:
  assumes ok: "pt_ok s pgdir ps" and "ps \<noteq> []" and a: "pg_aligned a" and free: "pte_of (mem s) pgdir a AND PTE_P = 0"
  shows "\<exists>pte s1 ps'. walkpgdir pgdir a True s = (pte, s1) \<and> pte \<noteq> 0 \<and> ld32 (mem s1) pte AND PTE_P = 0
    \<and> pt_ok (s1\<lparr>mem := st32 (mem s1) pte v\<rparr>) pgdir ps' \<and> kend s1 = kend s \<and> (ps' = ps \<or> ps' = tl ps)
    \<and> (\<forall>va. pte_of (st32 (mem s1) pte v) pgdir va = (if PTE_ADDR va = a then v else pte_of (mem s) pgdir va))"
proof -
  obtain s1 ps' where w: "walkpgdir pgdir a True s = (pgtab (mem s1) pgdir (PDX a) + 4 * PTX a, s1)"
    "pt_ok s1 pgdir ps'" "pde (mem s1) pgdir (PDX a) AND PTE_P \<noteq> 0"
    "\<And>va'. pte_of (mem s1) pgdir va' = pte_of (mem s) pgdir va'" "kend s1 = kend s" "ps' = ps \<or> ps' = tl ps"
    using walk_alloc [OF ok assms(2), of a] by blast
  let ?pte = "pgtab (mem s1) pgdir (PDX a) + 4 * PTX a"
  have "?pte \<noteq> 0" by (rule page_word_nonzero) (use pt_okD(5) [OF w(2) PDX_less w(3)] PTX_less in auto)
  moreover have "ld32 (mem s1) ?pte AND PTE_P = 0" using free w(3) w(4) [of a] by (simp add: pte_of_def)
  moreover note pt_store(1) [OF w(2) PDX_less PTX_less w(3), of a v]
  moreover have "pte_of (st32 (mem s1) ?pte v) pgdir va = (if PTE_ADDR va = a then v else pte_of (mem s) pgdir va)" for va
    using pt_store(3) [OF w(2) PDX_less PTX_less w(3), of a v va] w(4) same_page [OF a, of va] by simp
  ultimately show ?thesis using w(1,5,6) by blast
qed

text \<open>With a free page for every page mapped, the whole range is mapped, and nothing else changes.\<close>

lemma mappages_loop_ok:
  assumes "pt_ok s pgdir ps" "pg_aligned a" "n < length ps" "n < 1048576"
    and "\<And>i. i \<le> n \<Longrightarrow> pte_of (mem s) pgdir (a + of_nat (4096 * i)) AND PTE_P = 0"
  shows "\<exists>s' ps'. mappages_loop pgdir a (a + of_nat (4096 * n)) pa perm s = Some (Inr (0, s'))
    \<and> pt_ok s' pgdir ps' \<and> kend s' = kend s \<and> (\<exists>qs. ps = qs @ ps')
    \<and> (\<forall>va. pte_of (mem s') pgdir va =
         (if unat (PTE_ADDR va - a) \<le> 4096 * n then (pa + (PTE_ADDR va - a)) OR perm OR PTE_P
          else pte_of (mem s) pgdir va))"
  using assms
proof (induction n arbitrary: a pa s ps)
  case 0
  have "ps \<noteq> []" "pte_of (mem s) pgdir a AND PTE_P = 0" using 0(3) 0(5) [of 0] by auto
  from map_page [OF 0(1) this(1) 0(2) this(2), of "pa OR perm OR PTE_P"] obtain pte s1 ps' where
    w: "walkpgdir pgdir a True s = (pte, s1)" "pte \<noteq> 0" "ld32 (mem s1) pte AND PTE_P = 0"
    "pt_ok (s1\<lparr>mem := st32 (mem s1) pte (pa OR perm OR PTE_P)\<rparr>) pgdir ps'" "kend s1 = kend s" "ps' = ps \<or> ps' = tl ps"
    "\<And>va. pte_of (st32 (mem s1) pte (pa OR perm OR PTE_P)) pgdir va =
      (if PTE_ADDR va = a then pa OR perm OR PTE_P else pte_of (mem s) pgdir va)" by blast
  let ?s = "s1\<lparr>mem := st32 (mem s1) pte (pa OR perm OR PTE_P)\<rparr>"
  have "mappages_loop pgdir a (a + of_nat (4096 * 0)) pa perm s = Some (Inr (0, ?s))"
    using w(1-3) by (subst mappages_loop.simps) simp
  moreover have "\<exists>qs. ps = qs @ ps'" using w(6) by (metis append_Nil drop_0 drop_Suc append_take_drop_id)
  moreover have "(unat (PTE_ADDR va - a) \<le> 4096 * 0) = (PTE_ADDR va = a)" for va by (simp add: unat_eq_zero)
  ultimately show ?case using w(4,5,7) by (intro exI [of _ ?s] exI [of _ ps']) auto
next
  case (Suc n)
  let ?v = "pa OR perm OR PTE_P"
  have "ps \<noteq> []" "pte_of (mem s) pgdir a AND PTE_P = 0" using Suc.prems(3) Suc.prems(5) [of 0] by auto
  from map_page [OF Suc.prems(1) this(1) Suc.prems(2) this(2), of ?v] obtain pte s1 ps1 where
    w: "walkpgdir pgdir a True s = (pte, s1)" "pte \<noteq> 0" "ld32 (mem s1) pte AND PTE_P = 0"
    "pt_ok (s1\<lparr>mem := st32 (mem s1) pte ?v\<rparr>) pgdir ps1" "kend s1 = kend s" "ps1 = ps \<or> ps1 = tl ps"
    "\<And>va. pte_of (st32 (mem s1) pte ?v) pgdir va = (if PTE_ADDR va = a then ?v else pte_of (mem s) pgdir va)"
    by blast
  let ?s = "s1\<lparr>mem := st32 (mem s1) pte ?v\<rparr>" and ?a = "a + 4096"
  have al: "pg_aligned ?a" using Suc.prems(2) by auto
  have off: "a + of_nat (4096 * Suc i) = ?a + of_nat (4096 * i)" for i by (simp add: algebra_simps)
  have ne: "?a + of_nat (4096 * i) \<noteq> a" if "i \<le> n" for i
  proof
    assume "?a + of_nat (4096 * i) = a"
    then have "of_nat (4096 * Suc i) = (0 :: uint)" by (simp add: algebra_simps)
    then have "unat (of_nat (4096 * Suc i) :: uint) = 0" by (simp only: unat_0)
    moreover have "4096 * Suc i < 4294967296" using that Suc.prems(4) by simp
    then have "unat (of_nat (4096 * Suc i) :: uint) = 4096 * Suc i" by (rule unat_of_nat_uint)
    ultimately show False by (metis nat.simps(3) mult_eq_0_iff zero_neq_numeral)
  qed
  have free: "pte_of (mem ?s) pgdir (?a + of_nat (4096 * i)) AND PTE_P = 0" if "i \<le> n" for i
  proof -
    have "pg_aligned (?a + of_nat (4096 * i))" using al by (intro pg_aligned_add [OF _ pg_aligned_of_nat])
    then have "PTE_ADDR (?a + of_nat (4096 * i)) \<noteq> a" using ne [OF that] by (simp add: PTE_ADDR_aligned)
    then show ?thesis using w(7) Suc.prems(5) [of "Suc i"] that off [of i] by (simp add: add.assoc)
  qed
  have "n < length ps1" "n < 1048576" using Suc.prems(3,4) w(6) by auto
  from Suc.IH [OF w(4) al this free, of "pa + 4096"] obtain s' ps' qs where
    r: "mappages_loop pgdir ?a (?a + of_nat (4096 * n)) (pa + 4096) perm ?s = Some (Inr (0, s'))"
    "pt_ok s' pgdir ps'" "kend s' = kend ?s" "ps1 = qs @ ps'"
    "\<And>va. pte_of (mem s') pgdir va =
         (if unat (PTE_ADDR va - ?a) \<le> 4096 * n then (pa + 4096 + (PTE_ADDR va - ?a)) OR perm OR PTE_P
          else pte_of (mem ?s) pgdir va)" by blast
  have "mappages_loop pgdir a (a + of_nat (4096 * Suc n)) pa perm s = Some (Inr (0, s'))"
    using w(1-3) r(1) ne [of n] off [of n] by (subst mappages_loop.simps) (simp add: Let_def add.assoc)
  moreover have "\<exists>qs. ps = qs @ ps'" using w(6) r(4) by (metis append.assoc append_Nil drop_0 drop_Suc append_take_drop_id)
  moreover have "pte_of (mem s') pgdir va =
         (if unat (PTE_ADDR va - a) \<le> 4096 * Suc n then (pa + (PTE_ADDR va - a)) OR perm OR PTE_P
          else pte_of (mem s) pgdir va)" for va
  proof (cases "PTE_ADDR va = a")
    case True
    have "unat (- 4096 :: uint) = 4294963200" by simp
    then have "\<not> unat (PTE_ADDR va - ?a) \<le> 4096 * n" using True Suc.prems(4) by simp
    then show ?thesis using r(5) [of va] w(7) [of va] True by simp
  next
    case False
    have d: "pg_aligned (PTE_ADDR va - a)" using Suc.prems(2) by auto
    have "PTE_ADDR va - a \<noteq> 0" using False by simp
    then have "0 < unat (PTE_ADDR va - a)" by (simp add: unat_gt_0)
    with d have ge: "4096 \<le> unat (PTE_ADDR va - a)" by (auto simp: pg_aligned_dvd dest: dvd_imp_le)
    have e: "PTE_ADDR va - ?a = (PTE_ADDR va - a) - 4096" by simp
    have "unat ((PTE_ADDR va - a) - 4096) = unat (PTE_ADDR va - a) - 4096"
      using ge by (subst unat_sub) (simp_all add: word_le_nat_alt)
    then have u: "unat (PTE_ADDR va - ?a) \<le> 4096 * n \<longleftrightarrow> unat (PTE_ADDR va - a) \<le> 4096 * Suc n"
      unfolding e by (simp only: le_diff_conv mult_Suc_right add.commute)
    have "pa + 4096 + (PTE_ADDR va - ?a) = pa + (PTE_ADDR va - a)" by simp
    then show ?thesis using r(5) [of va] w(7) [of va] False u by simp
  qed
  ultimately show ?case using r(2,3) w(5) by (intro exI [of _ s'] exI [of _ ps']) simp
qed


section \<open>Properties\<close>

lemma mappages_loop_no_hang: "pg_aligned a \<Longrightarrow> pg_aligned lst \<Longrightarrow> mappages_loop pgdir a lst pa perm s \<noteq> Some (Inl Hang)"
proof (induction "unat (lst - a)" arbitrary: a pa s rule: less_induct)
  case less
  have step: "pg_aligned (a + PGSIZE)" using less.prems(1) by (intro pg_aligned_add) simp_all
  show ?case
    using less.hyps [OF page_step [OF less.prems] step less.prems(2)]
    by (subst mappages_loop.simps) (auto split: prod.splits simp: Let_def)
qed

text \<open>
  \<open>mappages\<close> ends for every argument, also when the range wraps around the end of the address space: its loop
  reaches the last page after finitely many pages, an allocation failure or a page that is mapped already.
\<close>

lemma mappages_terminates: "mappages pgdir va sz pa perm s \<noteq> Inl Hang"
proof -
  have al: "pg_aligned (PGROUNDDOWN va)" "pg_aligned (PGROUNDDOWN (va + sz - 1))"
    by (simp_all add: PGROUNDDOWN_eq_PTE_ADDR)
  obtain r where "mappages_loop pgdir (PGROUNDDOWN va) (PGROUNDDOWN (va + sz - 1)) pa perm s = Some r"
    using mappages_loop_ends [OF al] by blast
  with mappages_loop_no_hang [OF al, of pgdir pa perm s] show ?thesis by (auto simp: mappages_def Let_def)
qed

lemma last_page:
  assumes "pg_aligned va" and "unat va + 4096 * Suc n \<le> 4294967296"
  shows "PGROUNDDOWN (va + of_nat (4096 * Suc n) - 1) = va + of_nat (4096 * n)"
proof -
  obtain k where k: "unat va = 4096 * k" using assms(1) by (auto simp: pg_aligned_dvd)
  have e: "va + of_nat (4096 * Suc n) - 1 = va + of_nat (4096 * n + 4095)" by simp
  have "unat (va + of_nat (4096 * n + 4095)) = 4096 * (k + n) + 4095"
    using k assms(2) by (simp add: unat_word_ariths unat_of_nat_uint del: of_nat_add of_nat_mult)
  then have "unat (PTE_ADDR (va + of_nat (4096 * n + 4095))) = 4096 * (k + n)"
    by (simp only: unat_PTE_ADDR mod_mult_self4) simp
  moreover have "unat (va + of_nat (4096 * n)) = 4096 * (k + n)"
    using k assms(2) by (simp add: unat_word_ariths unat_of_nat_uint del: of_nat_add of_nat_mult)
  ultimately show ?thesis unfolding e PGROUNDDOWN_eq_PTE_ADDR by (simp add: unat_inject [symmetric])
qed

lemma page_in_range:
  assumes "pg_aligned va" and "unat va + 4096 * Suc n \<le> 4294967296"
  shows "unat (PTE_ADDR x - va) \<le> 4096 * n \<longleftrightarrow> unat va \<le> unat x \<and> unat x < unat va + 4096 * Suc n"
proof -
  obtain k where k: "unat va = 4096 * k" using assms(1) by (auto simp: pg_aligned_dvd)
  define j where "j = unat x div 4096"
  have d: "unat (PTE_ADDR x) = 4096 * j" by (simp add: unat_PTE_ADDR j_def minus_mod_eq_mult_div)
  have x: "4096 * j \<le> unat x" "unat x < 4096 * j + 4096" "unat x < 4294967296" by (simp_all add: j_def unat_uint_less)
  show ?thesis
  proof (cases "unat va \<le> unat (PTE_ADDR x)")
    case True
    then have "unat (PTE_ADDR x - va) = 4096 * j - 4096 * k" using d k by (simp add: unat_sub word_le_nat_alt)
    moreover have "unat x < unat va + 4096 * Suc n \<longleftrightarrow> j \<le> k + n"
    proof
      assume "unat x < unat va + 4096 * Suc n"
      then have "4096 * j < 4096 * (k + Suc n)" using x k by simp
      then show "j \<le> k + n" by simp
    next
      assume "j \<le> k + n"
      then have "4096 * j + 4096 \<le> 4096 * (k + Suc n)" by simp
      then show "unat x < unat va + 4096 * Suc n" using x k by simp
    qed
    moreover have "unat va \<le> unat x" using True x d by simp
    ultimately show ?thesis by auto
  next
    case False
    then have "unat (PTE_ADDR x - va) = 4294967296 + 4096 * j - 4096 * k" using d k by (simp add: unat_sub_if')
    moreover have "4096 * (j + 1) \<le> 4096 * k" using False d k by (intro mult_le_mono2) simp
    then have "\<not> unat va \<le> unat x" using x k by simp
    ultimately show ?thesis using assms(2) k by simp
  qed
qed

text \<open>
  C6. \<open>mappages\<close> maps exactly what it is asked to: with enough free pages for page tables and no page of the range
  mapped, every address of the range gets the physical page at the same offset with the permissions, and the
  translation of every other address is unchanged; the page tables stay well formed and apart from the free pages.
\<close>

theorem mappages_exact:
  assumes "pt_ok s pgdir ps" and "pg_aligned va" and "n < length ps" and "unat va + 4096 * Suc n \<le> 4294967296"
    and "\<forall>i \<le> n. pte_of (mem s) pgdir (va + of_nat (4096 * i)) AND PTE_P = 0"
  shows "\<exists>t qs. mappages pgdir va (of_nat (4096 * Suc n)) pa perm s = Inr (0, t) \<and> pt_ok t pgdir qs \<and>
    (\<forall>x. pte_of (mem t) pgdir x =
       (if unat va \<le> unat x \<and> unat x < unat va + 4096 * Suc n then (pa + (PTE_ADDR x - va)) OR perm OR PTE_P
        else pte_of (mem s) pgdir x))"
proof -
  have small: "n < 1048576" using assms(4) by simp
  have lo: "PGROUNDDOWN va = va" using assms(2) by (simp add: PGROUNDDOWN_eq_PTE_ADDR PTE_ADDR_aligned)
  have "unat ((of_nat (4096 * Suc n) :: uint) AND 0xFFF) = 0"
    unfolding unat_and_FFF unat_of_nat by (simp add: take_bit_eq_mod mod_mod_cancel)
  then have al: "(of_nat (4096 * Suc n) :: uint) AND (PGSIZE - 1) = 0" by (simp add: unat_eq_0)
  obtain t qs where t: "mappages_loop pgdir va (va + of_nat (4096 * n)) pa perm s = Some (Inr (0, t))" "pt_ok t pgdir qs"
    "\<And>x. pte_of (mem t) pgdir x = (if unat (PTE_ADDR x - va) \<le> 4096 * n then (pa + (PTE_ADDR x - va)) OR perm OR PTE_P
       else pte_of (mem s) pgdir x)"
    using mappages_loop_ok [OF assms(1,2,3) small] assms(5) by blast
  then show ?thesis
    using page_in_range [OF assms(2,4)] last_page [OF assms(2,4)] lo al by (auto simp: mappages_def Let_def)
qed

lemma pt_ok_example: "\<exists>s. pt_ok s 0x80400000 [0x80200000] \<and> (\<forall>va. pte_of (mem s) 0x80400000 va = 0)"
proof -
  have pg: "kpage bss_kmem 0x80200000" "kpage bss_kmem 0x80400000"
    by (simp_all add: kpage_def bss_kmem_def V2P_def pg_aligned_unat)
  obtain s where s: "free_pages s [0x80200000]" "kend s = kend bss_kmem"
    "\<And>x. \<not> in_range 0x80200000 4096 x \<Longrightarrow> mem s x = mem bss_kmem x"
    using kfree_ok [OF bss_kmem_pool pg(1)] by auto
  have z: "pde (mem s) 0x80400000 i = 0" if "unat i < 1024" for i
  proof -
    have "ld32 (mem s) (0x80400000 + 4 * i) = ld32 (\<lambda>_. 0) (0x80400000 + 4 * i)"
    proof (rule ld32_cong)
      fix k :: nat assume "k < 4"
      have "(0x80400000 :: uint) + 4 * i + of_nat k = 0x80400000 + of_nat (4 * unat i + k)" by simp
      moreover have "\<not> in_range 0x80200000 4096 ((0x80400000 :: uint) + of_nat (4 * unat i + k))"
        by (rule page_disjoint) (use that \<open>k < 4\<close> in \<open>auto simp: pg_aligned_unat\<close>)
      ultimately show "mem s (0x80400000 + 4 * i + of_nat k) = 0" using s(3) by (simp add: bss_kmem_def add.assoc)
    qed
    then show ?thesis by (simp add: pde_def ld32_def)
  qed
  have "kpage s 0x80400000" using pg(2) s(2) by (simp add: kpage_def)
  then show ?thesis using s(1) z PDX_less by (intro exI [of _ s]) (auto simp: pt_ok_def pte_of_def)
qed

theorem mappages_exact_witness:
  "\<exists>s t. mappages 0x80400000 0x3000 0x1000 0x5000 PTE_W s = Inr (0, t) \<and> pte_of (mem t) 0x80400000 0x3004 = 0x5003
    \<and> pte_of (mem t) 0x80400000 0x4000 = 0"
proof -
  obtain s where s: "pt_ok s 0x80400000 [0x80200000]" "\<And>va. pte_of (mem s) 0x80400000 va = 0"
    using pt_ok_example by blast
  obtain t where "mappages 0x80400000 0x3000 0x1000 0x5000 PTE_W s = Inr (0, t)"
    "\<And>x. pte_of (mem t) 0x80400000 x = (if 0x3000 \<le> unat x \<and> unat x < 0x4000
       then (0x5000 + (PTE_ADDR x - 0x3000)) OR PTE_W OR PTE_P else 0)"
    using mappages_exact [OF s(1), of "0x3000" 0 "0x5000" PTE_W] s(2) by (auto simp: pg_aligned_unat)
  then show ?thesis by (intro exI [of _ s] exI [of _ t]) (simp add: PTE_ADDR_def)
qed

end
