(* ===== verification/File.thy ===== *)
theory File
  imports Fs Pipe Pgtable
begin

text \<open>
  \<^verbatim>\<open>file.c\<close> and the file side of \<^verbatim>\<open>pipe.c\<close>: the table of open files, on the file system, the pipes and
  the page allocator. A pipe is named by the address of the page \<open>pipealloc\<close> takes for it. Reads return
  the bytes they store, writes take the bytes they copy.
\<close>

section \<open>State\<close>

datatype ftype = FD_NONE | FD_PIPE | FD_INODE

record struct_file =
  f_type :: ftype
  f_ref :: int
  readable :: bool
  writable :: bool
  f_pipe :: uint
  f_ip :: nat
  f_off :: uint

record filest =
  fsys :: fsst
  ftable :: "nat \<Rightarrow> struct_file"
  pipes :: "uint \<Rightarrow> pipe"
  km :: kmem

definition fil_fs :: "(fsst \<Rightarrow> kerror + fsst) \<Rightarrow> filest \<Rightarrow> kerror + filest" where
  "fil_fs f s = bindE (f (fsys s)) (\<lambda>t. Inr (s\<lparr>fsys := t\<rparr>))"

definition fil_fs_val :: "(fsst \<Rightarrow> kerror + 'a \<times> fsst) \<Rightarrow> filest \<Rightarrow> kerror + 'a \<times> filest" where
  "fil_fs_val = lift fsys (\<lambda>t. fsys_update (\<lambda>_. t))"

definition upd_file :: "nat \<Rightarrow> (struct_file \<Rightarrow> struct_file) \<Rightarrow> filest \<Rightarrow> filest" where
  "upd_file f g s = s\<lparr>ftable := (ftable s)(f := g (ftable s f))\<rparr>"

text \<open>Record a call of \<open>wakeup\<close>.\<close>

definition fil_wakeup :: "wchan \<Rightarrow> filest \<Rightarrow> filest" where
  "fil_wakeup ch s =
    s\<lparr>fsys := set_bio ((fs_bio (fsys s))\<lparr>wakeups := wakeups (fs_bio (fsys s)) @ [ch]\<rparr>) (fsys s)\<rparr>"


section \<open>Pipes\<close>

definition pipeclose :: "uint \<Rightarrow> bool \<Rightarrow> filest \<Rightarrow> kerror + filest" where
  "pipeclose pp wr s =
    (let (freed, p) = pipe_close wr (pipes s pp);
         s = fil_wakeup (if wr then ChPipeRead pp else ChPipeWrite pp) (s\<lparr>pipes := (pipes s)(pp := p)\<rparr>)
     in if freed then bindE (kfree pp (km s)) (\<lambda>k. Inr (s\<lparr>km := k\<rparr>)) else Inr s)"

definition pipewrite :: "uint \<Rightarrow> uchar list \<Rightarrow> filest \<Rightarrow> kerror + int \<times> filest" where
  "pipewrite pp src s =
    (let (r, p) = pipewrite_loop (my_killed (fsys s)) src (pipes s pp);
         s = s\<lparr>pipes := (pipes s)(pp := p)\<rparr>
     in case r of
          Wrote \<Rightarrow> Inr (int (length src), fil_wakeup (ChPipeRead pp) s)
        | Failed \<Rightarrow> Inr (-1, s)
        | MustSleep rest \<Rightarrow> Inl (Sleep (ChPipeWrite pp)))"

definition piperead :: "uint \<Rightarrow> int \<Rightarrow> filest \<Rightarrow> kerror + (int \<times> uchar list) \<times> filest" where
  "piperead pp n s =
    (let (r, p) = piperead_try (my_killed (fsys s)) (nat n) (pipes s pp);
         s = s\<lparr>pipes := (pipes s)(pp := p)\<rparr>
     in case r of
          None \<Rightarrow> Inl (Sleep (ChPipeRead pp))
        | Some (m, bs) \<Rightarrow> Inr ((m, bs), if m < 0 then s else fil_wakeup (ChPipeWrite pp) s))"


section \<open>Open files\<close>

definition filealloc :: "filest \<Rightarrow> nat option \<times> filest" where
  "filealloc s =
    (case find (\<lambda>f. f_ref (ftable s f) = 0) [0..<NFILE] of
       Some f \<Rightarrow> (Some f, upd_file f (f_ref_update (\<lambda>_. 1)) s)
     | None \<Rightarrow> (None, s))"

definition filedup :: "nat \<Rightarrow> filest \<Rightarrow> kerror + nat \<times> filest" where
  "filedup f s =
    (if f_ref (ftable s f) < 1 then Inl (Panic ''filedup'')
     else Inr (f, upd_file f (f_ref_update (\<lambda>r. r + 1)) s))"

definition fileclose :: "nat \<Rightarrow> filest \<Rightarrow> kerror + filest" where
  "fileclose f s =
    (if f_ref (ftable s f) < 1 then Inl (Panic ''fileclose'')
     else
       let s = upd_file f (f_ref_update (\<lambda>r. r - 1)) s in
       if f_ref (ftable s f) > 0 then Inr s
       else
         let ff = ftable s f; s = upd_file f (\<lambda>x. x\<lparr>f_ref := 0, f_type := FD_NONE\<rparr>) s in
         case f_type ff of
           FD_PIPE \<Rightarrow> pipeclose (f_pipe ff) (writable ff) s
         | FD_INODE \<Rightarrow> bindE (fil_fs fs_begin_op s) (\<lambda>s. bindE (fil_fs (iput (f_ip ff)) s) (fil_fs fs_end_op))
         | FD_NONE \<Rightarrow> Inr s)"

definition filestat :: "nat \<Rightarrow> filest \<Rightarrow> kerror + stat option \<times> filest" where
  "filestat f s =
    (let ip = f_ip (ftable s f) in
     if f_type (ftable s f) = FD_INODE then
       bindE (fil_fs (ilock (Some ip)) s) (\<lambda>s.
         let st = stati (inodes (fsys s) ip) in
       bindE (fil_fs (iunlock (Some ip)) s) (\<lambda>s. Inr (Some st, s)))
     else Inr (None, s))"

definition fileread :: "nat \<Rightarrow> int \<Rightarrow> filest \<Rightarrow> kerror + (int \<times> uchar list) \<times> filest" where
  "fileread f n s =
    (let ff = ftable s f in
     if \<not> readable ff then Inr ((-1, []), s)
     else case f_type ff of
       FD_PIPE \<Rightarrow> piperead (f_pipe ff) n s
     | FD_INODE \<Rightarrow>
         bindE (fil_fs (ilock (Some (f_ip ff))) s) (\<lambda>s.
         bindE (fil_fs_val (readi (f_ip ff) (f_off (ftable s f)) (of_int n)) s) (\<lambda>((r, bs), s).
           let s = (if r > 0 then upd_file f (f_off_update (\<lambda>off. off + of_int r)) s else s) in
         bindE (fil_fs (iunlock (Some (f_ip ff))) s) (\<lambda>s. Inr ((r, bs), s))))
     | FD_NONE \<Rightarrow> Inl (Panic ''fileread''))"

text \<open>The loop of \<open>filewrite\<close> over what is left to write; the value says whether all of it was written.\<close>

function filewrite_loop :: "nat \<Rightarrow> uchar list \<Rightarrow> filest \<Rightarrow> kerror + bool \<times> filest" where
  "filewrite_loop f src s =
    (if src = [] then Inr (True, s)
     else
       let n1 = min (length src) 1536; ip = f_ip (ftable s f) in
       bindE (fil_fs fs_begin_op s) (\<lambda>s.
       bindE (fil_fs (ilock (Some ip)) s) (\<lambda>s.
       bindE (fil_fs_val (writei ip (take n1 src) (f_off (ftable s f))) s) (\<lambda>(r, s).
         let s = (if r > 0 then upd_file f (f_off_update (\<lambda>off. off + of_int r)) s else s) in
       bindE (fil_fs (iunlock (Some ip)) s) (\<lambda>s.
       bindE (fil_fs fs_end_op s) (\<lambda>s.
         if r < 0 then Inr (False, s)
         else if r \<noteq> int n1 then Inl (Panic ''short filewrite'')
         else filewrite_loop f (drop n1 src) s))))))"
  by pat_completeness auto
termination
  by (relation "measure (\<lambda>(f, src, s). length src)") auto

declare filewrite_loop.simps [simp del]

definition filewrite :: "nat \<Rightarrow> uchar list \<Rightarrow> filest \<Rightarrow> kerror + int \<times> filest" where
  "filewrite f src s =
    (let ff = ftable s f in
     if \<not> writable ff then Inr (-1, s)
     else case f_type ff of
       FD_PIPE \<Rightarrow> pipewrite (f_pipe ff) src s
     | FD_INODE \<Rightarrow> bindE (filewrite_loop f src s) (\<lambda>(ok, s). Inr (if ok then int (length src) else -1, s))
     | FD_NONE \<Rightarrow> Inl (Panic ''filewrite''))"

text \<open>The path \<open>bad\<close> of \<open>pipealloc\<close> is reached before there is a pipe.\<close>

definition pipealloc_bad :: "nat option \<Rightarrow> nat option \<Rightarrow> filest \<Rightarrow> kerror + (nat \<times> nat) option \<times> filest" where
  "pipealloc_bad f0 f1 s =
    bindE (case f0 of None \<Rightarrow> Inr s | Some f \<Rightarrow> fileclose f s) (\<lambda>s.
    bindE (case f1 of None \<Rightarrow> Inr s | Some f \<Rightarrow> fileclose f s) (\<lambda>s. Inr (None, s)))"

definition pipealloc :: "filest \<Rightarrow> kerror + (nat \<times> nat) option \<times> filest" where
  "pipealloc s =
    (case filealloc s of
       (None, s) \<Rightarrow> pipealloc_bad None None s
     | (Some f0, s) \<Rightarrow>
       (case filealloc s of
          (None, s) \<Rightarrow> pipealloc_bad (Some f0) None s
        | (Some f1, s) \<Rightarrow>
          let (p, k) = kalloc (km s); s = s\<lparr>km := k\<rparr> in
          if p = 0 then pipealloc_bad (Some f0) (Some f1) s
          else
            let s = s\<lparr>pipes := (pipes s)(p := pipe_init (pdata (pipes s p)))\<rparr>;
                s = upd_file f0 (\<lambda>x. x\<lparr>f_type := FD_PIPE, readable := True, writable := False, f_pipe := p\<rparr>) s;
                s = upd_file f1 (\<lambda>x. x\<lparr>f_type := FD_PIPE, readable := False, writable := True, f_pipe := p\<rparr>) s
            in Inr (Some (f0, f1), s)))"

end
