(* ===== verification/Dirs.thy ===== *)
theory Dirs
  imports Fs
begin

text \<open>
  The parts of \<^verbatim>\<open>sysfile.c\<close> that work on directories and on nothing but the file system: \<open>isdirempty\<close>,
  \<open>create\<close>, and the transactions of \<open>sys_unlink\<close>, \<open>sys_link\<close> and \<open>sys_chdir\<close> on the strings they have fetched
  from the user. \<open>removeSwapFile\<close> of \<^verbatim>\<open>fs.c\<close> runs the transaction of \<open>sys_unlink\<close>.
\<close>

fun isdirempty_loop :: "nat \<Rightarrow> nat list \<Rightarrow> fsst \<Rightarrow> kerror + bool \<times> fsst" where
  "isdirempty_loop dp [] s = Inr (True, s)"
| "isdirempty_loop dp (off # offs) s =
    bindE (readi dp (of_nat off) 16 s) (\<lambda>((r, de), s).
      if r \<noteq> 16 then Inl (Panic ''isdirempty: readi'')
      else if de_inum de \<noteq> 0 then Inr (False, s)
      else isdirempty_loop dp offs s)"

definition isdirempty :: "nat \<Rightarrow> fsst \<Rightarrow> kerror + bool \<times> fsst" where
  "isdirempty dp s = isdirempty_loop dp (drop 2 (de_offsets (i_size (inodes s dp)))) s"

text \<open>Change the link count of an inode by \<open>d\<close> and write the inode back.\<close>

definition add_nlink :: "nat \<Rightarrow> ushort \<Rightarrow> fsst \<Rightarrow> kerror + fsst" where
  "add_nlink ip d s = iupdate ip (upd_inode ip (\<lambda>x. x\<lparr>i_nlink := i_nlink x + d\<rparr>) s)"

definition create_dots :: "nat \<Rightarrow> nat \<Rightarrow> fsst \<Rightarrow> kerror + fsst" where
  "create_dots dp ip s =
    bindE (add_nlink dp 1 s) (\<lambda>s.
    bindE (dirlink ip [46] (i_inum (inodes s ip)) s) (\<lambda>(r, s).
      if r < 0 then Inl (Panic ''create dots'')
      else bindE (dirlink ip [46, 46] (i_inum (inodes s dp)) s) (\<lambda>(r, s).
        if r < 0 then Inl (Panic ''create dots'') else Inr s)))"

definition create :: "uchar list \<Rightarrow> ushort \<Rightarrow> ushort \<Rightarrow> ushort \<Rightarrow> fsst \<Rightarrow> kerror + nat option \<times> fsst" where
  "create path type major minor s =
    bindE (nameiparent path s) (\<lambda>(r, s).
      case r of None \<Rightarrow> Inr (None, s)
      | Some (dp, name) \<Rightarrow>
        bindE (ilock (Some dp) s) (\<lambda>s.
        bindE (dirlookup dp name s) (\<lambda>(r, s).
          case r of
            Some (ip, _) \<Rightarrow>
              bindE (iunlockput dp s) (\<lambda>s.
              bindE (ilock (Some ip) s) (\<lambda>s.
                if type = T_FILE \<and> i_type (inodes s ip) = T_FILE then Inr (Some ip, s)
                else bindE (iunlockput ip s) (\<lambda>s. Inr (None, s))))
          | None \<Rightarrow>
              bindE (ialloc (i_dev (inodes s dp)) type s) (\<lambda>(ip, s).
              bindE (ilock (Some ip) s) (\<lambda>s.
                let s = upd_inode ip (\<lambda>x. x\<lparr>i_major := major, i_minor := minor, i_nlink := 1\<rparr>) s in
              bindE (iupdate ip s) (\<lambda>s.
              bindE (if type = T_DIR then create_dots dp ip s else Inr s) (\<lambda>s.
              bindE (dirlink dp name (i_inum (inodes s ip)) s) (\<lambda>(r, s).
                if r < 0 then Inl (Panic ''create: dirlink'')
                else bindE (iunlockput dp s) (\<lambda>s. Inr (Some ip, s))))))))))"


section \<open>Unlinking\<close>

definition unlink_bad :: "nat \<Rightarrow> fsst \<Rightarrow> kerror + int \<times> fsst" where
  "unlink_bad dp s = bindE (iunlockput dp s) (\<lambda>s. bindE (fs_end_op s) (\<lambda>s. Inr (-1, s)))"

text \<open>Clear the entry at \<open>off\<close> of the locked directory \<open>dp\<close> and drop the link to the locked inode \<open>ip\<close>.\<close>

definition unlink_entry :: "nat \<Rightarrow> nat \<Rightarrow> nat \<Rightarrow> fsst \<Rightarrow> kerror + int \<times> fsst" where
  "unlink_entry dp ip off s =
    bindE (writei dp (replicate 16 0) (of_nat off) s) (\<lambda>(r, s).
      if r \<noteq> 16 then Inl (Panic ''unlink: writei'')
      else
        bindE (if i_type (inodes s ip) = T_DIR then add_nlink dp (-1) s else Inr s) (\<lambda>s.
        bindE (iunlockput dp s) (\<lambda>s.
        bindE (add_nlink ip (-1) s) (\<lambda>s.
        bindE (iunlockput ip s) (\<lambda>s.
        bindE (fs_end_op s) (\<lambda>s. Inr (0, s)))))))"

definition unlink_path :: "uchar list \<Rightarrow> fsst \<Rightarrow> kerror + int \<times> fsst" where
  "unlink_path path s =
    bindE (fs_begin_op s) (\<lambda>s.
    bindE (nameiparent path s) (\<lambda>(r, s).
      case r of None \<Rightarrow> bindE (fs_end_op s) (\<lambda>s. Inr (-1, s))
      | Some (dp, name) \<Rightarrow>
        bindE (ilock (Some dp) s) (\<lambda>s.
          if namecmp name [46] = 0 \<or> namecmp name [46, 46] = 0 then unlink_bad dp s
          else bindE (dirlookup dp name s) (\<lambda>(r, s).
            case r of None \<Rightarrow> unlink_bad dp s
            | Some (ip, off) \<Rightarrow>
              bindE (ilock (Some ip) s) (\<lambda>s.
                if sint (i_nlink (inodes s ip)) < 1 then Inl (Panic ''unlink: nlink < 1'')
                else bindE (if i_type (inodes s ip) = T_DIR then isdirempty ip s else Inr (True, s)) (\<lambda>(e, s).
                  if \<not> e then bindE (iunlockput ip s) (unlink_bad dp)
                  else unlink_entry dp ip off s))))))"


section \<open>Linking\<close>

definition link_bad :: "nat \<Rightarrow> fsst \<Rightarrow> kerror + int \<times> fsst" where
  "link_bad ip s =
    bindE (ilock (Some ip) s) (\<lambda>s.
    bindE (add_nlink ip (-1) s) (\<lambda>s.
    bindE (iunlockput ip s) (\<lambda>s.
    bindE (fs_end_op s) (\<lambda>s. Inr (-1, s)))))"

definition link_path :: "uchar list \<Rightarrow> uchar list \<Rightarrow> fsst \<Rightarrow> kerror + int \<times> fsst" where
  "link_path old new s =
    bindE (fs_begin_op s) (\<lambda>s.
    bindE (namei old s) (\<lambda>(r, s).
      case r of None \<Rightarrow> bindE (fs_end_op s) (\<lambda>s. Inr (-1, s))
      | Some ip \<Rightarrow>
        bindE (ilock (Some ip) s) (\<lambda>s.
          if i_type (inodes s ip) = T_DIR then
            bindE (iunlockput ip s) (\<lambda>s. bindE (fs_end_op s) (\<lambda>s. Inr (-1, s)))
          else
            bindE (add_nlink ip 1 s) (\<lambda>s.
            bindE (iunlock (Some ip) s) (\<lambda>s.
            bindE (nameiparent new s) (\<lambda>(r, s).
              case r of None \<Rightarrow> link_bad ip s
              | Some (dp, name) \<Rightarrow>
                bindE (ilock (Some dp) s) (\<lambda>s.
                bindE (if i_dev (inodes s dp) \<noteq> i_dev (inodes s ip) then Inr (-1, s)
                       else dirlink dp name (i_inum (inodes s ip)) s) (\<lambda>(r, s).
                  if r < 0 then bindE (iunlockput dp s) (link_bad ip)
                  else
                    bindE (iunlockput dp s) (\<lambda>s.
                    bindE (iput ip s) (\<lambda>s.
                    bindE (fs_end_op s) (\<lambda>s. Inr (0, s))))))))))))"

text \<open>
  \<open>chdir_path\<close> is \<open>sys_chdir\<close> between \<open>begin_op\<close> and the assignment to \<open>curproc->cwd\<close>: the value is the new
  directory, or nothing.
\<close>

definition chdir_path :: "uchar list \<Rightarrow> fsst \<Rightarrow> kerror + nat option \<times> fsst" where
  "chdir_path path s =
    bindE (namei path s) (\<lambda>(r, s).
      case r of None \<Rightarrow> bindE (fs_end_op s) (\<lambda>s. Inr (None, s))
      | Some ip \<Rightarrow>
        bindE (ilock (Some ip) s) (\<lambda>s.
          if i_type (inodes s ip) \<noteq> T_DIR then
            bindE (iunlockput ip s) (\<lambda>s. bindE (fs_end_op s) (\<lambda>s. Inr (None, s)))
          else
            bindE (iunlock (Some ip) s) (\<lambda>s.
            bindE (case my_cwd s of None \<Rightarrow> Inl (Fault ''sys_chdir cwd'') | Some cwd \<Rightarrow> iput cwd s) (\<lambda>s.
            bindE (fs_end_op s) (\<lambda>s. Inr (Some ip, s))))))"

end
