(* ===== verification/Kernel.thy ===== *)
theory Kernel
  imports File Dirs
begin

text \<open>
  The process table of \<^verbatim>\<open>proc.h\<close> and the state of the whole kernel. Processes are named by their slot
  in \<open>ptable.proc\<close>. The trap frame and the saved context of a process, which the code keeps on its
  kernel stack, are fields of its record. The kernel runs on behalf of \<open>cur\<close>, the value of \<open>myproc()\<close>;
  before an operation of a lower layer the fields of \<open>myproc()\<close> that the layer reads are copied into
  its state.
\<close>

section \<open>Processes\<close>

datatype procstate = UNUSED | EMBRYO | SLEEPING | RUNNABLE | RUNNING | ZOMBIE

record trapframe =
  tf_edi :: uint
  tf_esi :: uint
  tf_ebp :: uint
  tf_oesp :: uint
  tf_ebx :: uint
  tf_edx :: uint
  tf_ecx :: uint
  tf_eax :: uint
  tf_gs :: ushort
  tf_fs :: ushort
  tf_es :: ushort
  tf_ds :: ushort
  tf_trapno :: uint
  tf_err :: uint
  tf_eip :: uint
  tf_cs :: ushort
  tf_eflags :: uint
  tf_esp :: uint
  tf_ss :: ushort

definition zero_tf :: trapframe where
  "zero_tf = \<lparr>tf_edi = 0, tf_esi = 0, tf_ebp = 0, tf_oesp = 0, tf_ebx = 0, tf_edx = 0, tf_ecx = 0, tf_eax = 0,
     tf_gs = 0, tf_fs = 0, tf_es = 0, tf_ds = 0, tf_trapno = 0, tf_err = 0, tf_eip = 0, tf_cs = 0,
     tf_eflags = 0, tf_esp = 0, tf_ss = 0\<rparr>"

text \<open>Where \<open>swtch\<close> to a process goes: to \<open>forkret\<close> the first time, then back into \<open>sched\<close>.\<close>

datatype kcontext = ToForkret | ToSched

record proc =
  p_sz :: uint
  p_pgdir :: uint
  p_kstack :: uint
  p_state :: procstate
  p_pid :: uint
  p_parent :: "nat option"
  p_tf :: trapframe
  p_context :: kcontext
  p_chan :: "wchan option"
  p_killed :: bool
  p_ofile :: "nat \<Rightarrow> nat option"
  p_cwd :: "nat option"
  p_name :: "uchar list"
  p_swapFile :: "nat option"
  VPA_Swap :: "uint list"
  VPA_Memory :: "uint list"
  size_mem :: uint
  q_head :: int
  q_tail :: int

record kst =
  fil :: filest
  procs :: "nat \<Rightarrow> proc"
  cur :: "nat option"
  nextpid :: uint
  initproc :: "nat option"
  ticks :: uint
  cr3 :: uint
  kpgdir :: uint
  kdata :: uint
  forkret_first :: bool

definition upd_proc :: "nat \<Rightarrow> (proc \<Rightarrow> proc) \<Rightarrow> kst \<Rightarrow> kst" where
  "upd_proc p f s = s\<lparr>procs := (procs s)(p := f (procs s p))\<rparr>"

text \<open>Code that uses the result of \<open>myproc()\<close>.\<close>

definition with_me :: "(nat \<Rightarrow> kst \<Rightarrow> kerror + 'a) \<Rightarrow> kst \<Rightarrow> kerror + 'a" where
  "with_me f s = (case cur s of None \<Rightarrow> Inl (Fault ''myproc'') | Some p \<Rightarrow> f p s)"


section \<open>Lower layers\<close>

definition enter :: "kst \<Rightarrow> filest" where
  "enter s =
    (case cur s of None \<Rightarrow> fil s
     | Some p \<Rightarrow>
       let t = fil s; x = procs s p;
           b = (fs_bio (fsys t))\<lparr>mypid := sint (p_pid x)\<rparr>;
           f = (set_bio b (fsys t))\<lparr>my_killed := p_killed x, my_cwd := p_cwd x\<rparr>
       in t\<lparr>fsys := f\<rparr>)"

definition kfil :: "(filest \<Rightarrow> kerror + filest) \<Rightarrow> kst \<Rightarrow> kerror + kst" where
  "kfil f s = bindE (f (enter s)) (\<lambda>t. Inr (s\<lparr>fil := t\<rparr>))"

definition kfil_val :: "(filest \<Rightarrow> kerror + 'a \<times> filest) \<Rightarrow> kst \<Rightarrow> kerror + 'a \<times> kst" where
  "kfil_val = lift enter (\<lambda>t. fil_update (\<lambda>_. t))"

definition kfs :: "(fsst \<Rightarrow> kerror + fsst) \<Rightarrow> kst \<Rightarrow> kerror + kst" where
  "kfs f = kfil (fil_fs f)"

definition kfs_val :: "(fsst \<Rightarrow> kerror + 'a \<times> fsst) \<Rightarrow> kst \<Rightarrow> kerror + 'a \<times> kst" where
  "kfs_val f = kfil_val (fil_fs_val f)"

definition kinodes :: "kst \<Rightarrow> nat \<Rightarrow> inode" where
  "kinodes s = inodes (fsys (fil s))"

text \<open>The page allocator and memory.\<close>

definition kmm :: "kst \<Rightarrow> kmem" where
  "kmm s = km (fil s)"

definition set_kmm :: "kmem \<Rightarrow> kst \<Rightarrow> kst" where
  "set_kmm k s = s\<lparr>fil := (fil s)\<lparr>km := k\<rparr>\<rparr>"

definition kmemory :: "kst \<Rightarrow> memory" where
  "kmemory s = mem (kmm s)"

definition set_memory :: "memory \<Rightarrow> kst \<Rightarrow> kst" where
  "set_memory m s = set_kmm ((kmm s)\<lparr>mem := m\<rparr>) s"

definition k_kalloc :: "kst \<Rightarrow> uint \<times> kst" where
  "k_kalloc s = (let (p, k) = kalloc (kmm s) in (p, set_kmm k s))"

definition k_kfree :: "uint \<Rightarrow> kst \<Rightarrow> kerror + kst" where
  "k_kfree v s = bindE (kfree v (kmm s)) (\<lambda>k. Inr (set_kmm k s))"

definition k_walkpgdir :: "uint \<Rightarrow> uint \<Rightarrow> bool \<Rightarrow> kst \<Rightarrow> uint \<times> kst" where
  "k_walkpgdir pgdir va alloc s = (let (pte, k) = walkpgdir pgdir va alloc (kmm s) in (pte, set_kmm k s))"

definition k_mappages :: "uint \<Rightarrow> uint \<Rightarrow> uint \<Rightarrow> uint \<Rightarrow> uint \<Rightarrow> kst \<Rightarrow> kerror + int \<times> kst" where
  "k_mappages pgdir va sz pa perm = lift kmm set_kmm (mappages pgdir va sz pa perm)"

text \<open>A 32-bit word of kernel memory, and a store to it.\<close>

definition kld :: "kst \<Rightarrow> uint \<Rightarrow> uint" where
  "kld s a = ld32 (kmemory s) a"

definition kst32 :: "uint \<Rightarrow> uint \<Rightarrow> kst \<Rightarrow> kst" where
  "kst32 a v s = set_memory (st32 (kmemory s) a v) s"

text \<open>Messages on the console.\<close>

definition kprintf_str :: "(uint \<Rightarrow> uchar list) \<Rightarrow> uchar list \<Rightarrow> uint list \<Rightarrow> kst \<Rightarrow> kerror + kst" where
  "kprintf_str str fmt args s =
    (let t = fsys (fil s) in
     bindE (cprintf str fmt args (cons t)) (\<lambda>c. Inr (s\<lparr>fil := (fil s)\<lparr>fsys := t\<lparr>cons := c\<rparr>\<rparr>\<rparr>)))"

definition kprintf :: "uchar list \<Rightarrow> uint list \<Rightarrow> kst \<Rightarrow> kerror + kst" where
  "kprintf = kprintf_str (\<lambda>_. [])"

text \<open>The macros \<open>ERROR_STR\<close> and \<open>DEBUG_STR\<close> of \<^verbatim>\<open>defs.h\<close>, on a message that ends with a newline.\<close>

definition ERROR_STR :: "string \<Rightarrow> uchar list" where
  "ERROR_STR x = [27] @ bytes ''[31m'' @ bytes x @ [10] @ [27] @ bytes ''[0m''"

definition DEBUG_STR :: "string \<Rightarrow> uchar list" where
  "DEBUG_STR x = [27] @ bytes ''[34m'' @ bytes x @ [10] @ [27] @ bytes ''[0m''"


section \<open>What the lower layers leave alone\<close>

definition same_procs :: "kst \<Rightarrow> kst \<Rightarrow> bool" where
  "same_procs s s' \<longleftrightarrow> procs s' = procs s \<and> cur s' = cur s \<and> cr3 s' = cr3 s"

lemma same_procs_refl [simp]: "same_procs s s"
  by (simp add: same_procs_def)

lemma same_procs_trans [trans]: "same_procs s t \<Longrightarrow> same_procs t u \<Longrightarrow> same_procs s u"
  by (simp add: same_procs_def)

lemma kfil_procs: "kfil f s = Inr s' \<Longrightarrow> same_procs s s'"
  by (auto simp: same_procs_def kfil_def bindE_eq_Inr)

lemma kfil_val_procs: "kfil_val f s = Inr (x, s') \<Longrightarrow> same_procs s s'"
  by (auto simp: same_procs_def kfil_val_def lift_eq_Inr)

lemma kprintf_str_procs: "kprintf_str str fmt args s = Inr s' \<Longrightarrow> same_procs s s'"
  by (auto simp: same_procs_def kprintf_str_def Let_def bindE_eq_Inr)

lemma kprintf_procs: "kprintf fmt args s = Inr s' \<Longrightarrow> same_procs s s'"
  using kprintf_str_procs by (simp add: kprintf_def)

lemma set_kmm_procs [simp]: "procs (set_kmm k s) = procs s" "cur (set_kmm k s) = cur s" "cr3 (set_kmm k s) = cr3 s"
  by (simp_all add: set_kmm_def)

lemma set_memory_procs [simp]:
  "procs (set_memory m s) = procs s" "cur (set_memory m s) = cur s" "cr3 (set_memory m s) = cr3 s"
  by (simp_all add: set_memory_def)

lemma kst32_procs [simp]: "procs (kst32 a v s) = procs s" "cur (kst32 a v s) = cur s" "cr3 (kst32 a v s) = cr3 s"
  by (simp_all add: kst32_def)

lemma k_kalloc_procs: "k_kalloc s = (p, s') \<Longrightarrow> same_procs s s'"
  by (auto simp: same_procs_def k_kalloc_def split: prod.splits)

lemma k_kfree_procs: "k_kfree v s = Inr s' \<Longrightarrow> same_procs s s'"
  by (auto simp: same_procs_def k_kfree_def bindE_eq_Inr)

lemma k_walkpgdir_procs: "k_walkpgdir pgdir va alloc s = (pte, s') \<Longrightarrow> same_procs s s'"
  by (auto simp: same_procs_def k_walkpgdir_def split: prod.splits)

lemma k_mappages_procs: "k_mappages pgdir va sz pa perm s = Inr (r, s') \<Longrightarrow> same_procs s s'"
  by (auto simp: same_procs_def k_mappages_def lift_eq_Inr)

lemmas layer_procs = kfil_procs kfil_val_procs kprintf_procs k_kalloc_procs k_kfree_procs
  k_walkpgdir_procs k_mappages_procs

lemma procs_upd_proc [simp]:
  "procs (upd_proc p f s) q = (if q = p then f (procs s p) else procs s q)"
  "cur (upd_proc p f s) = cur s" "cr3 (upd_proc p f s) = cr3 s"
  by (simp_all add: upd_proc_def)

end
