(* ===== verification/Swap.thy ===== *)
theory Swap
  imports Kernel
begin

text \<open>
  The swap files at the end of \<^verbatim>\<open>fs.c\<close> and the page replacement of \<^verbatim>\<open>swap.c\<close>. A process has up to
  \<open>MAX_PSYC_PAGES\<close> pages in memory (\<open>VPA_Memory\<close>, with a use counter in the low bits) and up to
  \<open>MAX_SWAP_PAGES\<close> in its swap file (\<open>VPA_Swap\<close>, with the bit \<open>SWAP_P\<close>); slot \<open>i\<close> of \<open>VPA_Swap\<close> is page \<open>i\<close> of
  the file. The kernel is built with \<open>NFU_SWAP\<close>; the functions that \<open>FIFO_SWAP\<close> replaces carry the
  suffix \<open>_fifo\<close>.
\<close>

abbreviation (input) SWAP_P :: uint where "SWAP_P \<equiv> 0x800"

definition SWAP_ADDR :: "uint \<Rightarrow> uint" where "SWAP_ADDR x = x AND NOT 0xFFF"
definition MEM_ADDR :: "uint \<Rightarrow> uint" where "MEM_ADDR x = x AND NOT 0xFFF"
definition NFU_MEM_COUNTER :: "uint \<Rightarrow> uint" where "NFU_MEM_COUNTER x = x AND 0x7FF"


section \<open>Swap files\<close>

text \<open>The path \<open>/.swap<pid>\<close>, which has to fit into \<open>path[DIGITS]\<close>.\<close>

definition swap_path :: "uint \<Rightarrow> kerror + uchar list" where
  "swap_path pid =
    bindE (itoa pid) (\<lambda>d.
      if 6 + length d > 14 then Inl (Fault ''swap file path'') else Inr (bytes ''/.swap'' @ d))"

definition removeSwapFile :: "nat \<Rightarrow> kst \<Rightarrow> kerror + int \<times> kst" where
  "removeSwapFile p s =
    bindE (swap_path (p_pid (procs s p))) (\<lambda>path.
      case p_swapFile (procs s p) of None \<Rightarrow> Inr (-1, s)
      | Some f \<Rightarrow> bindE (kfil (fileclose f) s) (kfs_val (unlink_path path)))"

definition createSwapFile :: "nat \<Rightarrow> kst \<Rightarrow> kerror + int \<times> kst" where
  "createSwapFile p s =
    bindE (swap_path (p_pid (procs s p))) (\<lambda>path.
    bindE (kfs fs_begin_op s) (\<lambda>s.
    bindE (kfs_val (create path T_FILE 0 0) s) (\<lambda>(ip, s).
    bindE (kfs (iunlock ip) s) (\<lambda>s.
      case filealloc (fil s) of
        (None, t) \<Rightarrow> Inl (Panic ''no slot for files on /store'')
      | (Some f, t) \<Rightarrow>
        let s = upd_proc p (\<lambda>x. x\<lparr>p_swapFile := Some f\<rparr>) (s\<lparr>fil := t\<rparr>);
            s = s\<lparr>fil := upd_file f (\<lambda>x. x\<lparr>f_ip := (case ip of None \<Rightarrow> 0 | Some i \<Rightarrow> i), f_type := FD_INODE, f_off := 0,
                   readable := True, writable := True\<rparr>) (fil s)\<rparr>
        in bindE (kfs fs_end_op s) (\<lambda>s. Inr (0, s))))))"

definition writeToSwapFile :: "nat \<Rightarrow> uchar list \<Rightarrow> uint \<Rightarrow> kst \<Rightarrow> kerror + int \<times> kst" where
  "writeToSwapFile p buffer placeOnFile s =
    (case p_swapFile (procs s p) of None \<Rightarrow> Inl (Fault ''swapFile'')
     | Some f \<Rightarrow> kfil_val (\<lambda>t. filewrite f buffer (upd_file f (f_off_update (\<lambda>_. placeOnFile)) t)) s)"

text \<open>\<open>readFromSwapFile\<close> stores the bytes it reads at \<open>buffer\<close> in kernel memory.\<close>

definition readFromSwapFile :: "nat \<Rightarrow> uint \<Rightarrow> uint \<Rightarrow> uint \<Rightarrow> kst \<Rightarrow> kerror + int \<times> kst" where
  "readFromSwapFile p buffer placeOnFile n s =
    (case p_swapFile (procs s p) of None \<Rightarrow> Inl (Fault ''swapFile'')
     | Some f \<Rightarrow>
       bindE (kfil_val (\<lambda>t. fileread f (sint n) (upd_file f (f_off_update (\<lambda>_. placeOnFile)) t)) s) (\<lambda>((r, bs), s).
         Inr (r, set_memory (mwrite (kmemory s) buffer bs) s)))"


section \<open>Swap state of a process\<close>

fun initSwap_loop :: "nat \<Rightarrow> nat \<Rightarrow> uint \<Rightarrow> nat list \<Rightarrow> nat \<Rightarrow> kst \<Rightarrow> kerror + int \<times> kst" where
  "initSwap_loop p pp buff [] j s = Inr (0, s)"
| "initSwap_loop p pp buff (i # is) j s =
    (if VPA_Swap (procs s p) ! i AND SWAP_P = 0 then initSwap_loop p pp buff is j s
     else
       bindE (readFromSwapFile pp buff (of_nat (i * PGSIZE)) PGSIZE s) (\<lambda>(r, s).
         if r < 0 then
           bindE (kprintf (ERROR_STR ''initSwap: readFromParentSwapFile failed'') [] s) (\<lambda>s.
           bindE (removeSwapFile p s) (\<lambda>(_, s). Inr (-1, s)))
         else
           let s = (if j \<noteq> i then upd_proc p (\<lambda>x. x\<lparr>VPA_Swap := (VPA_Swap x)[j := VPA_Swap x ! i, i := 0]\<rparr>) s else s) in
           bindE (writeToSwapFile p (mread (kmemory s) buff PGSIZE) (of_nat (j * PGSIZE)) s) (\<lambda>(r, s).
             if r < 0 then
               bindE (kprintf (ERROR_STR ''initSwap: writeToSwapFile failed'') [] s) (\<lambda>s.
               bindE (removeSwapFile p s) (\<lambda>(_, s). Inr (-1, s)))
             else initSwap_loop p pp buff is (j + 1) s)))"

definition initSwap :: "nat \<Rightarrow> kst \<Rightarrow> kerror + int \<times> kst" where
  "initSwap p s =
    (case p_parent (procs s p) of None \<Rightarrow> Inl (Panic ''p->parent!=0'')
     | Some pp \<Rightarrow>
       let y = procs s pp;
           s = upd_proc p (\<lambda>x. x\<lparr>VPA_Swap := VPA_Swap y, VPA_Memory := VPA_Memory y, size_mem := size_mem y\<rparr>) s
       in bindE (createSwapFile p s) (\<lambda>(r, s).
            if r < 0 then bindE (kprintf (ERROR_STR ''initSwap: createSwapFile failed'') [] s) (\<lambda>s. Inr (-1, s))
            else
              let (buff, s) = k_kalloc s in
              bindE (assertE (buff \<noteq> 0) ''(buff = kalloc()) != 0'') (\<lambda>_.
              bindE (initSwap_loop p pp buff [0..<MAX_SWAP_PAGES] 0 s) (\<lambda>(r, s).
                if r < 0 then Inr (r, s) else bindE (k_kfree buff s) (\<lambda>s. Inr (0, s))))))"

definition initFreshSwap :: "nat \<Rightarrow> kst \<Rightarrow> kerror + int \<times> kst" where
  "initFreshSwap p s =
    createSwapFile p (upd_proc p (\<lambda>x. x\<lparr>VPA_Swap := replicate MAX_SWAP_PAGES 0,
      VPA_Memory := replicate MAX_PSYC_PAGES 0, size_mem := 0\<rparr>) s)"

definition destroySwap :: "nat \<Rightarrow> kst \<Rightarrow> kerror + int \<times> kst" where
  "destroySwap p s = removeSwapFile p s"

fun restoreSwap_loop :: "nat \<Rightarrow> nat list \<Rightarrow> kst \<Rightarrow> kerror + int \<times> kst" where
  "restoreSwap_loop p [] s = Inr (0, s)"
| "restoreSwap_loop p (i # is) s =
    (let x = procs s p; pgdir = p_pgdir x in
     if VPA_Swap x ! i AND SWAP_P = 0 then restoreSwap_loop p is s
     else
       let vpa = SWAP_ADDR (VPA_Swap x ! i); (pte, s) = k_walkpgdir pgdir vpa False s in
       bindE (assertE (pte \<noteq> 0) ''pte!=0'') (\<lambda>_.
       bindE (assertE (kld s pte AND PTE_PG \<noteq> 0) ''(*pte & PTE_PG)'') (\<lambda>_.
       bindE (assertE (kld s pte AND PTE_P = 0) ''!(*pte & PTE_P)'') (\<lambda>_.
         let flags = (PTE_FLAGS (kld s pte) AND NOT PTE_PG) OR PTE_P;
             (m, s) = k_kalloc s in
       bindE (kprintf (DEBUG_STR ''restoreSwap: read from swap file vpa %x pid: %d'') [vpa, p_pid x] s) (\<lambda>s.
         if m = 0 then bindE (kprintf (ERROR_STR ''restoreSwap: kalloc failed'') [] s) (\<lambda>s. Inr (-1, s))
         else
           bindE (assertE (V2P pgdir = cr3 s) ''V2P(p->pgdir) == rcr3()'') (\<lambda>_.
             let s = kst32 pte (V2P m OR flags) s; s = s\<lparr>cr3 := V2P pgdir\<rparr> in
           bindE (assertE (V2P pgdir = cr3 s) ''V2P(p->pgdir) == rcr3()'') (\<lambda>_.
             restoreSwap_loop p is s)))))))"

definition restoreSwap :: "nat \<Rightarrow> kst \<Rightarrow> kerror + int \<times> kst" where
  "restoreSwap p s = restoreSwap_loop p [0..<MAX_SWAP_PAGES] s"

definition getFreeSwapPageIndex :: "proc \<Rightarrow> nat option" where
  "getFreeSwapPageIndex x = find_index (\<lambda>e. e AND SWAP_P = 0) (VPA_Swap x)"


section \<open>Moving pages\<close>

definition moveToSwap :: "nat \<Rightarrow> nat \<Rightarrow> nat \<Rightarrow> kst \<Rightarrow> kerror + int \<times> kst" where
  "moveToSwap p idx_mem idx_swap s =
    bindE (assertE (idx_mem < MAX_PSYC_PAGES) ''idx_mem < MAX_PSYC_PAGES'') (\<lambda>_.
    bindE (assertE (idx_swap < MAX_SWAP_PAGES) ''idx_swap < MAX_SWAP_PAGES'') (\<lambda>_.
      let x = procs s p; vpa = MEM_ADDR (VPA_Memory x ! idx_mem) in
    bindE (assertE (PTE_FLAGS vpa = 0) ''PTE_FLAGS(vpa)==0'') (\<lambda>_.
      let (pte, s) = k_walkpgdir (p_pgdir x) vpa False s in
      if pte = 0 then
        bindE (kprintf (ERROR_STR ''moveToSwap: walkpgdir failed VPA_Memory is dirty'') [] s) (\<lambda>s. Inr (-1, s))
      else
        let m = P2V (PTE_ADDR (kld s pte)) in
        if m = 0 then
          bindE (kprintf (ERROR_STR ''moveToSwap: memory not found in PTE Entry'') [] s) (\<lambda>s. Inr (-1, s))
        else
          bindE (writeToSwapFile p (mread (kmemory s) m PGSIZE) (of_nat (idx_swap * PGSIZE)) s) (\<lambda>(r, s).
            if r \<noteq> PGSIZE then
              bindE (kprintf (ERROR_STR ''moveToSwap: writeToSwapFile failed'') [] s) (\<lambda>s. Inr (-1, s))
            else
              let s = upd_proc p (\<lambda>x. x\<lparr>VPA_Swap := (VPA_Swap x)[idx_swap := SWAP_P OR vpa]\<rparr>) s;
                  new_val = (kld s pte AND NOT PTE_P) OR PTE_PG in
              bindE (assertE (cur s = Some p) ''myproc() == p'') (\<lambda>_.
              bindE (assertE (V2P (p_pgdir x) = cr3 s) ''V2P(p->pgdir) == rcr3()'') (\<lambda>_.
                let s = kst32 pte new_val s; s = s\<lparr>cr3 := V2P (p_pgdir x)\<rparr> in
              bindE (k_kfree m s) (\<lambda>s. Inr (0, s))))))))"

definition moveFromSwap :: "nat \<Rightarrow> uint \<Rightarrow> uint \<Rightarrow> kst \<Rightarrow> kerror + int \<times> kst" where
  "moveFromSwap p vpa m s =
    bindE (assertE (PTE_FLAGS vpa = 0) ''PTE_FLAGS(vpa) == 0'') (\<lambda>_.
      case find_index (\<lambda>e. e AND SWAP_P \<noteq> 0 \<and> SWAP_ADDR e = vpa) (VPA_Swap (procs s p)) of
        None \<Rightarrow> Inr (-1, s)
      | Some i \<Rightarrow>
        bindE (readFromSwapFile p m (of_nat (i * PGSIZE)) PGSIZE s) (\<lambda>(r, s).
          if r \<noteq> PGSIZE then
            bindE (kprintf (ERROR_STR ''moveFromSwap: readFromSwapFile failed'') [] s) (\<lambda>s. Inr (-1, s))
          else Inr (0, upd_proc p (\<lambda>x. x\<lparr>VPA_Swap := (VPA_Swap x)[i := 0]\<rparr>) s)))"


section \<open>Linking and unlinking pages\<close>

text \<open>
  The victim is the last of the entries with the smallest counter: the scan replaces its choice also
  on equality.
\<close>

definition nfu_scan :: "uint list \<Rightarrow> nat \<Rightarrow> uint \<times> int \<Rightarrow> uint \<times> int" where
  "nfu_scan vm i = (\<lambda>(mx_count, idx_mem).
    if NFU_MEM_COUNTER (vm ! i) \<le> mx_count then (NFU_MEM_COUNTER (vm ! i), int i) else (mx_count, idx_mem))"

definition nfu_victim :: "uint list \<Rightarrow> int" where
  "nfu_victim vm = snd (fold (nfu_scan vm) [0..<MAX_PSYC_PAGES] (0xFFFFFFFF, -1))"

definition linkNewPage :: "nat \<Rightarrow> uint \<Rightarrow> kst \<Rightarrow> kerror + int \<times> kst" where
  "linkNewPage p vpa s =
    bindE (assertE (PTE_FLAGS vpa = 0) ''PTE_FLAGS(vpa) ==0'') (\<lambda>_.
      let x = procs s p in
      if size_mem x = of_nat MAX_PSYC_PAGES then
        (case getFreeSwapPageIndex x of
           None \<Rightarrow>
             bindE (kprintf (ERROR_STR ''linkNewPage: getFreeSwapPageIndex failed | max number of pages reached'') [] s)
               (\<lambda>s. Inr (-1, s))
         | Some idx_swap \<Rightarrow>
             let idx_mem = nfu_victim (VPA_Memory x) in
             bindE (assertE (idx_mem \<noteq> -1) ''idx_mem != -1'') (\<lambda>_.
             bindE (moveToSwap p (nat idx_mem) idx_swap s) (\<lambda>(r, s).
               if r \<noteq> 0 then
                 bindE (kprintf (ERROR_STR ''linkNewPage: moveToSwap failed'') [] s) (\<lambda>s. Inr (-1, s))
               else Inr (0, upd_proc p (\<lambda>x. x\<lparr>VPA_Memory := (VPA_Memory x)[nat idx_mem := vpa]\<rparr>) s))))
      else if unat (size_mem x) > MAX_PSYC_PAGES then Inl (Fault ''VPA_Memory'')
      else Inr (0, upd_proc p (\<lambda>x. x\<lparr>VPA_Memory := (VPA_Memory x)[unat (size_mem x) := vpa],
                     size_mem := size_mem x + 1\<rparr>) s))"

text \<open>\<open>unlinkPage\<close> changes the process record only.\<close>

definition unlink_swap :: "uint \<Rightarrow> proc \<Rightarrow> int \<times> proc" where
  "unlink_swap vpa x =
    (case find_index (\<lambda>e. e AND SWAP_P \<noteq> 0 \<and> SWAP_ADDR e = vpa) (VPA_Swap x) of
       Some i \<Rightarrow> (0, x\<lparr>VPA_Swap := (VPA_Swap x)[i := 0]\<rparr>)
     | None \<Rightarrow> (-1, x))"

definition unlink_page :: "uint \<Rightarrow> proc \<Rightarrow> kerror + int \<times> proc" where
  "unlink_page vpa x =
    bindE (assertE (PTE_FLAGS vpa = 0) ''PTE_FLAGS(vpa) == 0'') (\<lambda>_.
    bindE (assertE (size_mem x \<le> of_nat MAX_PSYC_PAGES) ''p->size_mem <= MAX_PSYC_PAGES'') (\<lambda>_.
      case find (\<lambda>i. MEM_ADDR (VPA_Memory x ! i) = vpa) [0..<unat (size_mem x)] of
        Some i \<Rightarrow>
          let n = unat (size_mem x) - 1 in
          Inr (0, x\<lparr>size_mem := size_mem x - 1, VPA_Memory := (VPA_Memory x)[i := VPA_Memory x ! n, n := 0]\<rparr>)
      | None \<Rightarrow> Inr (unlink_swap vpa x)))"

definition unlinkPage :: "nat \<Rightarrow> uint \<Rightarrow> kst \<Rightarrow> kerror + int \<times> kst" where
  "unlinkPage p vpa s =
    bindE (unlink_page vpa (procs s p)) (\<lambda>(r, x). Inr (r, upd_proc p (\<lambda>_. x) s))"


section \<open>The queue of FIFO_SWAP\<close>

definition CIRCLE_NEXT :: "nat \<Rightarrow> nat" where
  "CIRCLE_NEXT i = (if i + 1 = MAX_PSYC_PAGES then 0 else i + 1)"

definition fifo_index :: "int \<Rightarrow> bool" where
  "fifo_index i \<longleftrightarrow> 0 \<le> i \<and> i < int MAX_PSYC_PAGES"

definition fifo_push :: "uint \<Rightarrow> proc \<Rightarrow> proc" where
  "fifo_push vpa x = x\<lparr>VPA_Memory := (VPA_Memory x)[nat (q_tail x) := vpa],
     q_tail := (q_tail x + 1) mod int MAX_PSYC_PAGES\<rparr>"

definition linkNewPage_fifo :: "nat \<Rightarrow> uint \<Rightarrow> kst \<Rightarrow> kerror + int \<times> kst" where
  "linkNewPage_fifo p vpa s =
    bindE (assertE (PTE_FLAGS vpa = 0) ''PTE_FLAGS(vpa) ==0'') (\<lambda>_.
      let x = procs s p in
      if \<not> fifo_index (q_tail x) then Inl (Fault ''VPA_Memory'')
      else if size_mem x = of_nat MAX_PSYC_PAGES then
        bindE (assertE (q_head x = q_tail x) ''p->q_head == p->q_tail'') (\<lambda>_.
          case getFreeSwapPageIndex x of
            None \<Rightarrow>
              bindE (kprintf (ERROR_STR ''linkNewPage: getFreeSwapPageIndex failed | max number of pages reached'') [] s)
                (\<lambda>s. Inr (-1, s))
          | Some idx_swap \<Rightarrow>
              bindE (moveToSwap p (nat (q_head x)) idx_swap s) (\<lambda>(_, s).
                let s = upd_proc p (fifo_push vpa) s;
                    s = upd_proc p (\<lambda>x. x\<lparr>q_head := (q_head x + 1) mod int MAX_PSYC_PAGES\<rparr>) s
                in Inr (0, s)))
      else Inr (0, upd_proc p (\<lambda>x. (fifo_push vpa x)\<lparr>size_mem := size_mem x + 1\<rparr>) s))"

text \<open>The scan from \<open>q_head\<close> (the value is the index with the number of entries behind it), and the shift.\<close>

fun fifo_find :: "uint list \<Rightarrow> uint \<Rightarrow> nat \<Rightarrow> nat \<Rightarrow> (nat \<times> nat) option" where
  "fifo_find vm vpa 0 idx = None"
| "fifo_find vm vpa (Suc n) idx =
    (if MEM_ADDR (vm ! idx) = vpa then Some (idx, n) else fifo_find vm vpa n (CIRCLE_NEXT idx))"

fun fifo_shift :: "nat \<Rightarrow> nat \<Rightarrow> uint list \<Rightarrow> nat \<times> uint list" where
  "fifo_shift 0 idx vm = (idx, vm)"
| "fifo_shift (Suc n) idx vm = fifo_shift n (CIRCLE_NEXT idx) (vm[idx := vm ! CIRCLE_NEXT idx])"

definition unlink_page_fifo :: "uint \<Rightarrow> proc \<Rightarrow> kerror + int \<times> proc" where
  "unlink_page_fifo vpa x =
    bindE (assertE (PTE_FLAGS vpa = 0) ''PTE_FLAGS(vpa) == 0'') (\<lambda>_.
      if \<not> fifo_index (q_head x) then Inl (Fault ''VPA_Memory'')
      else case fifo_find (VPA_Memory x) vpa (unat (size_mem x)) (nat (q_head x)) of
        None \<Rightarrow> Inr (unlink_swap vpa x)
      | Some (idx, n) \<Rightarrow>
          let (idx, vm) = fifo_shift n idx (VPA_Memory x);
              x = x\<lparr>VPA_Memory := vm, q_tail := int idx, size_mem := size_mem x - 1\<rparr> in
          bindE (if size_mem x = 0 then assertE (q_head x = q_tail x) ''p->q_head == p->q_tail''
                 else if q_head x < q_tail x
                 then assertE (q_tail x - q_head x = int (unat (size_mem x))) ''p->q_tail-p->q_head == p->size_mem''
                 else assertE (int MAX_PSYC_PAGES - q_head x + q_tail x = int (unat (size_mem x)))
                   ''MAX_PSYC_PAGES - p->q_head + p->q_tail == p->size_mem'') (\<lambda>_.
            Inr (0, x)))"


section \<open>Page faults and use counters\<close>

definition recoverPageFault :: "uint \<Rightarrow> kst \<Rightarrow> kerror + int \<times> kst" where
  "recoverPageFault va = with_me (\<lambda>p s.
    let vpa = PGROUNDDOWN va; pgdir = p_pgdir (procs s p); (pte, s) = k_walkpgdir pgdir va False s in
    if pte = 0 then Inr (-1, s)
    else if kld s pte AND PTE_PG = 0 then Inr (-1, s)
    else
      let (m, s) = k_kalloc s in
      if m = 0 then bindE (kprintf (ERROR_STR ''recoverPageFault: kalloc failed'') [] s) (\<lambda>s. Inr (-1, s))
      else
        let flags = PTE_FLAGS (kld s pte) in
        bindE (moveFromSwap p vpa m s) (\<lambda>(r, s).
          if r < 0 then
            bindE (kprintf (ERROR_STR ''recoverPageFault: moveFromSwap failed | swap file dirty'') [] s) (\<lambda>s.
            bindE (k_kfree m s) (\<lambda>s. Inr (-1, s)))
          else
            bindE (assertE (flags AND PTE_PG \<noteq> 0) ''flags & PTE_PG'') (\<lambda>_.
            bindE (assertE (flags AND PTE_P = 0) ''!(flags & PTE_P)'') (\<lambda>_.
              let flags = (flags AND NOT PTE_PG) OR PTE_P in
            bindE (assertE (cr3 s = V2P pgdir) ''rcr3() == V2P(p->pgdir)'') (\<lambda>_.
              let s = kst32 pte (V2P m OR flags) s; s = s\<lparr>cr3 := V2P pgdir\<rparr> in
            bindE (linkNewPage p vpa s) (\<lambda>(_, s).
            bindE (assertE (cr3 s = V2P pgdir) ''rcr3() == V2P(p->pgdir)'') (\<lambda>_.
              Inr (0, s))))))))"

definition nfu_count :: "nat \<Rightarrow> nat \<Rightarrow> kst \<Rightarrow> kerror + kst" where
  "nfu_count p i s =
    (let x = procs s p; vpa = MEM_ADDR (VPA_Memory x ! i); (pte, s) = k_walkpgdir (p_pgdir x) vpa False s in
     if i \<ge> MAX_PSYC_PAGES then Inl (Fault ''VPA_Memory'')
     else bindE (assertE (pte \<noteq> 0) ''pte != 0'') (\<lambda>_.
       if kld s pte AND PTE_A \<noteq> 0 then
         let cnt = NFU_MEM_COUNTER (VPA_Memory x ! i) + 1;
             s = upd_proc p (\<lambda>x. x\<lparr>VPA_Memory := (VPA_Memory x)[i := vpa OR NFU_MEM_COUNTER cnt]\<rparr>) s
         in Inr (kst32 pte (kld s pte AND NOT PTE_A) s)
       else Inr s))"

definition nfu_Increment_Counter :: "nat option \<Rightarrow> kst \<Rightarrow> kerror + kst" where
  "nfu_Increment_Counter po s =
    (case po of None \<Rightarrow> Inr s
     | Some p \<Rightarrow> foldE (nfu_count p) [0..<unat (size_mem (procs s p))] s)"

end
