(* ===== verification/Vm.thy ===== *)
theory Vm
  imports Swap
begin

text \<open>
  The address spaces of \<^verbatim>\<open>vm.c\<close>: building, growing, shrinking, copying and freeing them, and copying
  out to user memory. \<open>kdata\<close> is the linker's symbol \<open>data\<close>. Every \<open>for\<close> loop over pages is an instance of
  \<open>for_pages\<close>, which does not return when its index wraps around below the bound; the last section shows that
  the loops over user addresses return.
\<close>

section \<open>Loops over pages\<close>

datatype 'r page_loop = Break 'r | Continue uint

text \<open>\<open>for(; a < b; a += PGSIZE)\<close>: the body leaves the loop with a result or goes on from a value of \<open>a\<close>.\<close>

partial_function (option) for_pages ::
    "(uint \<Rightarrow> kst \<Rightarrow> kerror + 'r page_loop \<times> kst) \<Rightarrow> uint \<Rightarrow> uint \<Rightarrow> kst \<Rightarrow> (kerror + 'r option \<times> kst) option" where
  "for_pages body a b s =
    (if a < b then
       (case body a s of
          Inl e \<Rightarrow> Some (Inl e)
        | Inr (next, s) \<Rightarrow>
          (case next of
             Break r \<Rightarrow> Some (Inr (Some r, s))
           | Continue a' \<Rightarrow> for_pages body (a' + PGSIZE) b s))
     else Some (Inr (None, s)))"

definition run_pages :: "(uint \<Rightarrow> kst \<Rightarrow> kerror + 'r page_loop \<times> kst) \<Rightarrow> uint \<Rightarrow> uint \<Rightarrow> kst \<Rightarrow> kerror + 'r option \<times> kst" where
  "run_pages body a b s = (case for_pages body a b s of None \<Rightarrow> Inl Hang | Some r \<Rightarrow> r)"


section \<open>Shrinking and freeing\<close>

definition unlink_mine :: "uint \<Rightarrow> string \<Rightarrow> kst \<Rightarrow> kerror + kst" where
  "unlink_mine a msg = with_me (\<lambda>p s.
    bindE (unlinkPage p a s) (\<lambda>(r, s). bindE (assertE (r = 0) msg) (\<lambda>_. Inr s)))"

definition dealloc_body :: "uint \<Rightarrow> uint \<Rightarrow> uint \<Rightarrow> kst \<Rightarrow> kerror + unit page_loop \<times> kst" where
  "dealloc_body pgdir oldsz a s =
    (let (pte, s) = k_walkpgdir pgdir a False s in
     if pte = 0 then Inr (Continue (PGADDR (PDX a + 1) 0 0 - PGSIZE), s)
     else if kld s pte AND PTE_PG \<noteq> 0 then
       (if oldsz \<noteq> KERNBASE
        then bindE (unlink_mine a ''unlinkPage(myproc(), a)==0'' (kst32 pte 0 s)) (\<lambda>s. Inr (Continue a, s))
        else Inr (Continue a, s))
     else if kld s pte AND PTE_P \<noteq> 0 then
       let pa = PTE_ADDR (kld s pte) in
       if pa = 0 then Inl (Panic ''kfree'')
       else
         bindE (if oldsz \<noteq> KERNBASE then unlink_mine a ''unlinkPage(myproc(),(uint)a) == 0'' s else Inr s) (\<lambda>s.
         bindE (k_kfree (P2V pa) s) (\<lambda>s. Inr (Continue a, kst32 pte 0 s)))
     else Inr (Continue a, s))"

definition deallocuvm :: "uint \<Rightarrow> uint \<Rightarrow> uint \<Rightarrow> kst \<Rightarrow> kerror + uint \<times> kst" where
  "deallocuvm pgdir oldsz newsz s =
    (if newsz \<ge> oldsz then Inr (oldsz, s)
     else bindE (run_pages (dealloc_body pgdir oldsz) (PGROUNDUP newsz) oldsz s) (\<lambda>(_, s). Inr (newsz, s)))"

definition freevm_entry :: "uint \<Rightarrow> nat \<Rightarrow> kst \<Rightarrow> kerror + kst" where
  "freevm_entry pgdir i s =
    (let e = kld s (pgdir + 4 * of_nat i) in
     if e AND PTE_P \<noteq> 0 then k_kfree (P2V (PTE_ADDR e)) s else Inr s)"

definition freevm :: "uint \<Rightarrow> kst \<Rightarrow> kerror + kst" where
  "freevm pgdir s =
    (if pgdir = 0 then Inl (Panic ''freevm: no pgdir'')
     else
       bindE (deallocuvm pgdir KERNBASE 0 s) (\<lambda>(_, s).
       bindE (foldE (freevm_entry pgdir) [0..<NPDENTRIES] s) (k_kfree pgdir)))"


section \<open>Kernel mappings\<close>

definition kmap :: "kst \<Rightarrow> (uint \<times> uint \<times> uint \<times> uint) list" where
  "kmap s =
    [(KERNBASE, 0, EXTMEM, PTE_W),
     (KERNLINK, V2P KERNLINK, V2P (kdata s), 0),
     (kdata s, V2P (kdata s), PHYSTOP, PTE_W),
     (DEVSPACE, DEVSPACE, 0, PTE_W)]"

fun setupkvm_loop :: "uint \<Rightarrow> (uint \<times> uint \<times> uint \<times> uint) list \<Rightarrow> kst \<Rightarrow> kerror + uint \<times> kst" where
  "setupkvm_loop pgdir [] s = Inr (pgdir, s)"
| "setupkvm_loop pgdir ((virt, phys_start, phys_end, perm) # ks) s =
    bindE (k_mappages pgdir virt (phys_end - phys_start) phys_start perm s) (\<lambda>(r, s).
      if r < 0 then bindE (freevm pgdir s) (\<lambda>s. Inr (0, s)) else setupkvm_loop pgdir ks s)"

definition clear_user_entry :: "uint \<Rightarrow> nat \<Rightarrow> kst \<Rightarrow> kst" where
  "clear_user_entry pgdir i s = kst32 (pgdir + 4 * of_nat i) (kld s (pgdir + 4 * of_nat i) AND NOT PTE_U) s"

definition setupkvm :: "kst \<Rightarrow> kerror + uint \<times> kst" where
  "setupkvm s =
    (let (pgdir, s) = k_kalloc s in
     if pgdir = 0 then Inr (0, s)
     else
       let s = set_memory (memset (kmemory s) pgdir 0 PGSIZE) s in
       if P2V PHYSTOP > DEVSPACE then Inl (Panic ''PHYSTOP too high'')
       else
         bindE (setupkvm_loop pgdir (kmap s) s) (\<lambda>(r, s).
           if r = 0 then Inr (0, s) else Inr (pgdir, fold (clear_user_entry pgdir) [512..<1024] s)))"

definition switchkvm :: "kst \<Rightarrow> kst" where
  "switchkvm s = s\<lparr>cr3 := V2P (kpgdir s)\<rparr>"

definition kvmalloc :: "kst \<Rightarrow> kerror + kst" where
  "kvmalloc s = bindE (setupkvm s) (\<lambda>(d, s). Inr (switchkvm (s\<lparr>kpgdir := d\<rparr>)))"

definition switchuvm :: "nat option \<Rightarrow> kst \<Rightarrow> kerror + kst" where
  "switchuvm po s =
    (case po of None \<Rightarrow> Inl (Panic ''switchuvm: no process'')
     | Some p \<Rightarrow>
       if p_kstack (procs s p) = 0 then Inl (Panic ''switchuvm: no kstack'')
       else if p_pgdir (procs s p) = 0 then Inl (Panic ''switchuvm: no pgdir'')
       else Inr (s\<lparr>cr3 := V2P (p_pgdir (procs s p))\<rparr>))"


section \<open>User memory\<close>

text \<open>\<open>init\<close> is the contents of \<open>initcode\<close>. \<open>memset\<close> on a page that could not be allocated writes to address 0.\<close>

definition inituvm :: "uint \<Rightarrow> uchar list \<Rightarrow> kst \<Rightarrow> kerror + kst" where
  "inituvm pgdir init s =
    (if length init \<ge> PGSIZE then Inl (Panic ''inituvm: more than a page'')
     else
       let (m, s) = k_kalloc s in
       if m = 0 then Inl (Fault ''inituvm'')
       else
         let s = set_memory (memset (kmemory s) m 0 PGSIZE) s in
         bindE (k_mappages pgdir 0 PGSIZE (V2P m) (PTE_W OR PTE_U) s) (\<lambda>(_, s).
           Inr (set_memory (mwrite (kmemory s) m init) s)))"

definition loaduvm_body :: "uint \<Rightarrow> uint \<Rightarrow> nat \<Rightarrow> uint \<Rightarrow> uint \<Rightarrow> uint \<Rightarrow> kst \<Rightarrow> kerror + unit page_loop \<times> kst" where
  "loaduvm_body pgdir addr ip offset sz i s =
    (let (pte, s) = k_walkpgdir pgdir (addr + i) False s in
     if pte = 0 then Inl (Panic ''loaduvm: address should exist'')
     else
       let pa = PTE_ADDR (kld s pte); n = (if sz - i < PGSIZE then sz - i else PGSIZE) in
       bindE (kfs_val (readi ip (offset + i) n) s) (\<lambda>((r, bs), s).
         let s = set_memory (mwrite (kmemory s) (P2V pa) bs) s in
         if of_int r \<noteq> n then Inr (Break (), s) else Inr (Continue i, s)))"

definition loaduvm :: "uint \<Rightarrow> uint \<Rightarrow> nat \<Rightarrow> uint \<Rightarrow> uint \<Rightarrow> kst \<Rightarrow> kerror + int \<times> kst" where
  "loaduvm pgdir addr ip offset sz s =
    (if addr mod PGSIZE \<noteq> 0 then Inl (Panic ''loaduvm: addr must be page aligned'')
     else bindE (run_pages (loaduvm_body pgdir addr ip offset sz) 0 sz s) (\<lambda>(r, s).
       Inr (if r = None then 0 else -1, s)))"

definition allocuvm_body :: "uint \<Rightarrow> uint \<Rightarrow> uint \<Rightarrow> uint \<Rightarrow> kst \<Rightarrow> kerror + unit page_loop \<times> kst" where
  "allocuvm_body pgdir oldsz newsz a s =
    (let (m, s) = k_kalloc s in
     if m = 0 then
       bindE (kprintf (bytes ''allocuvm out of memory'' @ [10]) [] s) (\<lambda>s.
       bindE (deallocuvm pgdir newsz oldsz s) (\<lambda>(_, s). Inr (Break (), s)))
     else
       let s = set_memory (memset (kmemory s) m 0 PGSIZE) s in
       bindE (k_mappages pgdir a PGSIZE (V2P m) (PTE_W OR PTE_U) s) (\<lambda>(r, s).
         if r < 0 then
           bindE (kprintf (bytes ''allocuvm out of memory (2)'' @ [10]) [] s) (\<lambda>s.
           bindE (deallocuvm pgdir newsz oldsz s) (\<lambda>(_, s).
           bindE (k_kfree m s) (\<lambda>s. Inr (Break (), s))))
         else
           bindE (with_me (\<lambda>p. linkNewPage p a) s) (\<lambda>(r, s).
             if r \<noteq> 0 then
               bindE (kprintf (ERROR_STR ''deallocuvm: linkNewPage failed'') [] s) (\<lambda>s.
                 let (pte, s) = k_walkpgdir pgdir a False s in
               bindE (assertE (pte \<noteq> 0) ''pte != 0'') (\<lambda>_.
               bindE (k_kfree m (kst32 pte 0 s)) (\<lambda>s.
               bindE (deallocuvm pgdir newsz oldsz s) (\<lambda>(_, s). Inr (Break (), s)))))
             else Inr (Continue a, s))))"

definition allocuvm :: "uint \<Rightarrow> uint \<Rightarrow> uint \<Rightarrow> kst \<Rightarrow> kerror + uint \<times> kst" where
  "allocuvm pgdir oldsz newsz s =
    (if newsz \<ge> KERNBASE then Inr (0, s)
     else if newsz < oldsz then Inr (oldsz, s)
     else bindE (run_pages (allocuvm_body pgdir oldsz newsz) (PGROUNDUP oldsz) newsz s) (\<lambda>(r, s).
       Inr (if r = None then newsz else 0, s)))"

definition clearpteu :: "uint \<Rightarrow> uint \<Rightarrow> kst \<Rightarrow> kerror + kst" where
  "clearpteu pgdir uva s =
    (let (pte, s) = k_walkpgdir pgdir uva False s in
     if pte = 0 then Inl (Panic ''clearpteu'') else Inr (kst32 pte (kld s pte AND NOT PTE_U) s))"

definition copyuvm_body :: "uint \<Rightarrow> uint \<Rightarrow> uint \<Rightarrow> kst \<Rightarrow> kerror + unit page_loop \<times> kst" where
  "copyuvm_body pgdir d i s =
    (let (pte, s) = k_walkpgdir pgdir i False s in
     if pte = 0 then Inl (Panic ''copyuvm: pte should exist'')
     else if kld s pte AND PTE_PG \<noteq> 0 then
       let (newPte, s) = k_walkpgdir d i True s in
       bindE (assertE (newPte \<noteq> 0) ''newPte != 0'') (\<lambda>_.
         let s = kst32 newPte (PTE_FLAGS (kld s pte)) s in
       bindE (assertE (V2P d \<noteq> cr3 s) ''V2P(d)!=rcr3()'') (\<lambda>_.
       bindE (assertE (V2P pgdir = cr3 s) ''V2P(pgdir)==rcr3()'') (\<lambda>_. Inr (Continue i, s))))
     else if kld s pte AND PTE_P = 0 then Inl (Panic ''copyuvm: page not present'')
     else
       let pa = PTE_ADDR (kld s pte); flags = PTE_FLAGS (kld s pte); (m, s) = k_kalloc s in
       if m = 0 then Inr (Break (), s)
       else
         let s = set_memory (memmove (kmemory s) m (P2V pa) PGSIZE) s in
         bindE (k_mappages d i PGSIZE (V2P m) flags s) (\<lambda>(r, s).
           if r < 0 then bindE (k_kfree m s) (\<lambda>s. Inr (Break (), s)) else Inr (Continue i, s)))"

definition copyuvm :: "uint \<Rightarrow> uint \<Rightarrow> kst \<Rightarrow> kerror + uint \<times> kst" where
  "copyuvm pgdir sz s =
    bindE (setupkvm s) (\<lambda>(d, s).
      if d = 0 then Inr (0, s)
      else
        bindE (run_pages (copyuvm_body pgdir d) PGSIZE sz s) (\<lambda>(r, s).
          case r of None \<Rightarrow> Inr (d, s)
          | Some _ \<Rightarrow> bindE (freevm d s) (\<lambda>s. Inr (0, s))))"

text \<open>\<open>uva2ka\<close> dereferences the entry without a test for a missing page table.\<close>

definition uva2ka :: "uint \<Rightarrow> uint \<Rightarrow> kst \<Rightarrow> kerror + uint" where
  "uva2ka pgdir uva s =
    (let pte = fst (k_walkpgdir pgdir uva False s) in
     if pte = 0 then Inl (Fault ''uva2ka'')
     else if kld s pte AND PTE_P = 0 then Inr 0
     else if kld s pte AND PTE_U = 0 then Inr 0
     else Inr (P2V (PTE_ADDR (kld s pte))))"

lemma page_rest: "0 < unat (PGSIZE - (va - PGROUNDDOWN va))"
proof -
  have "unat (PGROUNDDOWN va) = unat va - unat va mod 4096" by (simp only: PGROUNDDOWN_eq_PTE_ADDR unat_PTE_ADDR)
  moreover have le: "unat va mod 4096 \<le> unat va" by simp
  ultimately have "PGROUNDDOWN va \<le> va" "unat va - unat (PGROUNDDOWN va) = unat va mod 4096"
    by (simp add: word_le_nat_alt, linarith)
  then have "unat (va - PGROUNDDOWN va) = unat va mod 4096" by (simp add: unat_sub)
  also have "\<dots> < 4096" by simp
  finally have "va - PGROUNDDOWN va \<noteq> PGSIZE" by auto
  then show ?thesis by (simp add: unat_gt_0)
qed

function copyout :: "uint \<Rightarrow> uint \<Rightarrow> uchar list \<Rightarrow> kst \<Rightarrow> kerror + int \<times> kst" where
  "copyout pgdir va buf s =
    (if buf = [] then Inr (0, s)
     else
       let va0 = PGROUNDDOWN va in
       bindE (uva2ka pgdir va0 s) (\<lambda>pa0.
         if pa0 = 0 then Inr (-1, s)
         else
           let n = min (length buf) (unat (PGSIZE - (va - va0))) in
           copyout pgdir (va0 + PGSIZE) (drop n buf)
             (set_memory (mwrite (kmemory s) (pa0 + (va - va0)) (take n buf)) s)))"
  by pat_completeness auto
termination
  by (relation "measure (\<lambda>(pgdir, va, buf, s). length buf)") (use page_rest in auto)

declare copyout.simps [simp del]


section \<open>The loops over user addresses end\<close>

text \<open>A loop ends when every iteration moves its index up, which holds as long as the bound is at most \<open>KERNBASE\<close>.\<close>

lemma for_pages_ends:
  assumes "\<And>a s a' t. a < b \<Longrightarrow> body a s = Inr (Continue a', t) \<Longrightarrow> a < a' + PGSIZE"
  shows "\<exists>r. for_pages body a b s = Some r"
proof (induction "4294967296 - unat a" arbitrary: a s rule: less_induct)
  case less
  have step: "\<exists>r. for_pages body (a' + PGSIZE) b t = Some r" if ab: "a < b" and "body a s = Inr (Continue a', t)" for a' t
  proof (rule less)
    have "unat a < unat (a' + PGSIZE)" using assms [OF that] by (simp add: word_less_nat_alt)
    then show "4294967296 - unat (a' + PGSIZE) < 4294967296 - unat a" using unat_uint_less [of a] by arith
  qed
  show ?case by (subst for_pages.simps) (use step in \<open>auto split: sum.split prod.split page_loop.split\<close>)
qed

lemma next_page: "a < b \<Longrightarrow> b \<le> KERNBASE \<Longrightarrow> a < a + PGSIZE"
  by (simp add: word_less_nat_alt word_le_nat_alt unat_word_ariths)

lemma next_table:
  assumes "a < b" and "b \<le> KERNBASE"
  shows "a < PGADDR (PDX a + 1) 0 0 - PGSIZE + PGSIZE"
proof -
  have "unat a < 2147483648" using assms by (simp add: word_less_nat_alt word_le_nat_alt)
  then have d: "unat a div 4194304 < 512" by (simp add: less_mult_imp_div_less)
  have "unat (PGADDR (PDX a + 1) 0 0) = (unat a div 4194304 + 1) * 4194304"
    using d by (simp add: PGADDR_def push_bit_eq_mult unat_word_ariths unat_PDX)
  then show ?thesis using dividend_less_div_times [of 4194304 "unat a"] by (simp add: word_less_nat_alt)
qed

lemma dealloc_body_next: "dealloc_body pgdir oldsz a s = Inr (Continue a', t) \<Longrightarrow> a' = a \<or> a' = PGADDR (PDX a + 1) 0 0 - PGSIZE"
  by (auto simp: dealloc_body_def Let_def bindE_eq_Inr split: prod.splits if_splits)

lemma body_next:
  "loaduvm_body pgdir addr ip offset sz a s = Inr (Continue a', t) \<Longrightarrow> a' = a"
  "allocuvm_body pgdir oldsz newsz a s = Inr (Continue a', t) \<Longrightarrow> a' = a"
  "copyuvm_body pgdir d a s = Inr (Continue a', t) \<Longrightarrow> a' = a"
  by (auto simp: loaduvm_body_def allocuvm_body_def copyuvm_body_def Let_def bindE_eq_Inr split: prod.splits if_splits)

lemma page_loops_end:
  assumes "b \<le> KERNBASE"
  shows "\<exists>r. for_pages (dealloc_body pgdir oldsz) a b s = Some r"
    and "\<exists>r. for_pages (loaduvm_body pgdir addr ip offset sz) a b s = Some r"
    and "\<exists>r. for_pages (allocuvm_body pgdir oldsz newsz) a b s = Some r"
    and "\<exists>r. for_pages (copyuvm_body pgdir d) a b s = Some r"
  by (rule for_pages_ends, use assms next_page next_table dealloc_body_next body_next in metis)+

end
