(* ===== verification/Proc.thy ===== *)
theory Proc
  imports Vm
begin

text \<open>
  \<^verbatim>\<open>proc.c\<close>: creating and ending processes, sleeping, waking and scheduling. \<open>swtch\<close> into the scheduler is
  the change of \<open>cur\<close> to nothing, with the kernel page table loaded; the scheduler's choice of the next
  process is \<open>scheduler_pick\<close>. A call of \<open>sleep\<close> inside a system call is the outcome \<open>Sleep\<close> of the call;
  \<open>sleep\<close> is the transition the process then makes, and \<open>sleep_resume\<close> what it does when it runs again.
\<close>

section \<open>Creating processes\<close>

definition allocproc :: "kst \<Rightarrow> nat option \<times> kst" where
  "allocproc s =
    (case find (\<lambda>p. p_state (procs s p) = UNUSED) [0..<NPROC] of
       None \<Rightarrow> (None, s)
     | Some p \<Rightarrow>
       let s = upd_proc p (\<lambda>x. x\<lparr>p_state := EMBRYO, p_pid := nextpid s\<rparr>) (s\<lparr>nextpid := nextpid s + 1\<rparr>);
           (k, s) = k_kalloc s;
           s = upd_proc p (\<lambda>x. x\<lparr>p_kstack := k\<rparr>) s
       in if k = 0 then (None, upd_proc p (\<lambda>x. x\<lparr>p_state := UNUSED\<rparr>) s)
          else (Some p, upd_proc p (\<lambda>x. x\<lparr>p_context := ToForkret\<rparr>) s))"

definition init_tf :: trapframe where
  "init_tf = zero_tf\<lparr>tf_cs := (push_bit 3 3) OR 3, tf_ds := (push_bit 3 4) OR 3, tf_es := (push_bit 3 4) OR 3,
     tf_ss := (push_bit 3 4) OR 3, tf_eflags := 0x200, tf_esp := PGSIZE, tf_eip := 0\<rparr>"

text \<open>\<open>initcode\<close> is the image of \<^verbatim>\<open>initcode.S\<close> that is linked into the kernel.\<close>

definition userinit :: "uchar list \<Rightarrow> kst \<Rightarrow> kerror + kst" where
  "userinit initcode s =
    (case allocproc s of
       (None, s) \<Rightarrow> Inl (Fault ''userinit'')
     | (Some p, s) \<Rightarrow>
       let s = s\<lparr>initproc := Some p\<rparr> in
       bindE (setupkvm s) (\<lambda>(d, s).
         let s = upd_proc p (\<lambda>x. x\<lparr>p_pgdir := d\<rparr>) s in
         if d = 0 then Inl (Panic ''userinit: out of memory?'')
         else
           bindE (inituvm d initcode s) (\<lambda>s.
             let s = upd_proc p (\<lambda>x. x\<lparr>p_sz := PGSIZE, p_tf := init_tf, p_name := safestrcpy (bytes ''initcode'') 16\<rparr>) s in
           bindE (kfs_val (namei [47]) s) (\<lambda>(ip, s).
             Inr (upd_proc p (\<lambda>x. x\<lparr>p_cwd := ip, p_state := RUNNABLE\<rparr>) s)))))"

definition growproc :: "uint \<Rightarrow> kst \<Rightarrow> kerror + int \<times> kst" where
  "growproc n = with_me (\<lambda>p s.
    let sz = p_sz (procs s p); pgdir = p_pgdir (procs s p) in
    bindE (if sint n > 0 then allocuvm pgdir sz (sz + n) s
           else if sint n < 0 then deallocuvm pgdir sz (sz + n) s
           else Inr (sz, s)) (\<lambda>(nsz, s).
      if sint n \<noteq> 0 \<and> nsz = 0 then Inr (-1, s)
      else bindE (switchuvm (Some p) (upd_proc p (\<lambda>x. x\<lparr>p_sz := nsz\<rparr>) s)) (\<lambda>s. Inr (0, s))))"

definition fork_undo :: "nat \<Rightarrow> kst \<Rightarrow> kerror + int \<times> kst" where
  "fork_undo np s =
    bindE (k_kfree (p_kstack (procs s np)) s) (\<lambda>s.
      Inr (-1, upd_proc np (\<lambda>x. x\<lparr>p_kstack := 0, p_state := UNUSED\<rparr>) s))"

definition dup_fd :: "nat \<Rightarrow> nat \<Rightarrow> nat \<Rightarrow> kst \<Rightarrow> kerror + kst" where
  "dup_fd p np i s =
    (case p_ofile (procs s p) i of None \<Rightarrow> Inr s
     | Some f \<Rightarrow>
       bindE (kfil_val (filedup f) s) (\<lambda>(g, s).
         Inr (upd_proc np (\<lambda>x. x\<lparr>p_ofile := (p_ofile x)(i := Some g)\<rparr>) s)))"

definition fork :: "kst \<Rightarrow> kerror + int \<times> kst" where
  "fork = with_me (\<lambda>p s.
    case allocproc s of
      (None, s) \<Rightarrow> Inr (-1, s)
    | (Some np, s) \<Rightarrow>
      bindE (copyuvm (p_pgdir (procs s p)) (p_sz (procs s p)) s) (\<lambda>(d, s).
        let s = upd_proc np (\<lambda>x. x\<lparr>p_pgdir := d\<rparr>) s in
        if d = 0 then fork_undo np s
        else
          let x = procs s p;
              s = upd_proc np (\<lambda>y. y\<lparr>p_sz := p_sz x, p_parent := Some p, p_tf := (p_tf x)\<lparr>tf_eax := 0\<rparr>\<rparr>) s in
          bindE (initSwap np s) (\<lambda>(r, s).
            if r < 0 then fork_undo np s
            else
              bindE (foldE (dup_fd p np) [0..<NOFILE] s) (\<lambda>s.
                case p_cwd (procs s p) of None \<Rightarrow> Inl (Fault ''fork cwd'')
                | Some cwd \<Rightarrow>
                  bindE (kfs_val (\<lambda>t. Inr (idup cwd t)) s) (\<lambda>(ip, s).
                    let s = upd_proc np (\<lambda>y. y\<lparr>p_cwd := Some ip, p_name := safestrcpy (p_name (procs s p)) 16\<rparr>) s;
                        pid = sint (p_pid (procs s np))
                    in Inr (pid, upd_proc np (\<lambda>y. y\<lparr>p_state := RUNNABLE\<rparr>) s))))))"


section \<open>Scheduling\<close>

definition wakeup1 :: "wchan \<Rightarrow> kst \<Rightarrow> kst" where
  "wakeup1 ch s = s\<lparr>procs := (\<lambda>q. let x = procs s q in
     if q < NPROC \<and> p_state x = SLEEPING \<and> p_chan x = Some ch then x\<lparr>p_state := RUNNABLE\<rparr> else x)\<rparr>"

definition wakeup :: "wchan \<Rightarrow> kst \<Rightarrow> kst" where
  "wakeup ch s = wakeup1 ch s"

text \<open>The wakeups that operations of the lower layers have asked for.\<close>

definition deliver :: "kst \<Rightarrow> kst" where
  "deliver s =
    (let t = fil s; b = fs_bio (fsys t); c = cons (fsys t);
         f = (set_bio (b\<lparr>wakeups := []\<rparr>) (fsys t))\<lparr>cons := c\<lparr>con_wakeups := []\<rparr>\<rparr>
     in fold wakeup (wakeups b @ con_wakeups c) (s\<lparr>fil := t\<lparr>fsys := f\<rparr>\<rparr>))"

text \<open>
  \<open>sched\<close> with the results of \<open>holding(&ptable.lock)\<close>, \<open>mycpu()->ncli\<close> and the test of the interrupt flag: back to the scheduler,
  which loads its page table.
\<close>

definition sched :: "bool \<Rightarrow> int \<Rightarrow> bool \<Rightarrow> kst \<Rightarrow> kerror + kst" where
  "sched holding ncli intr = with_me (\<lambda>p s.
    if \<not> holding then Inl (Panic ''sched ptable.lock'')
    else if ncli \<noteq> 1 then Inl (Panic ''sched locks'')
    else if p_state (procs s p) = RUNNING then Inl (Panic ''sched running'')
    else if intr then Inl (Panic ''sched interruptible'')
    else Inr (switchkvm (upd_proc p (\<lambda>x. x\<lparr>p_context := ToSched\<rparr>) s)\<lparr>cur := None\<rparr>))"

text \<open>
  The callers have acquired \<open>ptable.lock\<close>, which switches interrupts off, and hold no other lock: \<open>yield\<close> and \<open>exit\<close> run without locks,
  and \<open>sleep\<close> releases the one it was given, which is never null.
\<close>

definition yield :: "kst \<Rightarrow> kerror + kst" where
  "yield = with_me (\<lambda>p s. sched True 1 False (upd_proc p (\<lambda>x. x\<lparr>p_state := RUNNABLE\<rparr>) s))"

definition sleep :: "wchan \<Rightarrow> kst \<Rightarrow> kerror + kst" where
  "sleep ch s =
    (case cur s of None \<Rightarrow> Inl (Panic ''sleep'')
     | Some p \<Rightarrow> sched True 1 False (upd_proc p (\<lambda>x. x\<lparr>p_chan := Some ch, p_state := SLEEPING\<rparr>) s))"

text \<open>The rest of \<open>sleep\<close>, when the scheduler comes back to the process.\<close>

definition sleep_resume :: "kst \<Rightarrow> kerror + kst" where
  "sleep_resume = with_me (\<lambda>p s. Inr (upd_proc p (\<lambda>x. x\<lparr>p_chan := None\<rparr>) s))"

text \<open>One turn of the inner loop of \<open>scheduler\<close>, up to the \<open>swtch\<close> to the process.\<close>

definition scheduler_pick :: "nat \<Rightarrow> kst \<Rightarrow> kerror + kst" where
  "scheduler_pick p s =
    (if p_state (procs s p) \<noteq> RUNNABLE then Inr s
     else
       bindE (switchuvm (Some p) (s\<lparr>cur := Some p\<rparr>)) (\<lambda>s.
         Inr (upd_proc p (\<lambda>x. x\<lparr>p_state := RUNNING\<rparr>) s)))"

text \<open>The process the scan runs next from position \<open>i\<close> of the table; the scan starts again at its end.\<close>

definition scheduler_next :: "(nat \<Rightarrow> procstate) \<Rightarrow> nat \<Rightarrow> nat option" where
  "scheduler_next st i =
    (case find (\<lambda>p. st p = RUNNABLE) [i..<NPROC] of
       Some p \<Rightarrow> Some p
     | None \<Rightarrow> find (\<lambda>p. st p = RUNNABLE) [0..<NPROC])"

text \<open>
  Where the scan goes on after \<open>k\<close> processes have run: behind the last of them (\<open>p++\<close>). \<open>st k\<close> are the states of the table when
  the scan goes on for the \<open>k\<close>th time; processes change them between.
\<close>

primrec sched_pos :: "(nat \<Rightarrow> nat \<Rightarrow> procstate) \<Rightarrow> nat \<Rightarrow> nat \<Rightarrow> nat" where
  "sched_pos st i 0 = i"
| "sched_pos st i (Suc k) = (case scheduler_next (st k) (sched_pos st i k) of None \<Rightarrow> sched_pos st i k | Some p \<Rightarrow> Suc p)"

definition forkret :: "kst \<Rightarrow> kerror + kst" where
  "forkret s =
    (if forkret_first s then
       bindE (kfs (iinit ROOTDEV) (s\<lparr>forkret_first := False\<rparr>))
         (kfs (\<lambda>t. bindE (initlog ROOTDEV (lg t)) (\<lambda>l. Inr (t\<lparr>lg := l\<rparr>))))
     else Inr s)"

definition kill :: "uint \<Rightarrow> kst \<Rightarrow> int \<times> kst" where
  "kill pid s =
    (case find (\<lambda>p. p_pid (procs s p) = pid) [0..<NPROC] of
       None \<Rightarrow> (-1, s)
     | Some p \<Rightarrow> (0, upd_proc p (\<lambda>x. x\<lparr>p_killed := True,
         p_state := (if p_state x = SLEEPING then RUNNABLE else p_state x)\<rparr>) s))"


section \<open>Exit and wait\<close>

definition close_fd :: "nat \<Rightarrow> nat \<Rightarrow> kst \<Rightarrow> kerror + kst" where
  "close_fd p fd s =
    (case p_ofile (procs s p) fd of None \<Rightarrow> Inr s
     | Some f \<Rightarrow>
       bindE (kfil (fileclose f) s) (\<lambda>s. Inr (upd_proc p (\<lambda>x. x\<lparr>p_ofile := (p_ofile x)(fd := None)\<rparr>) s)))"

definition reparent :: "nat \<Rightarrow> nat \<Rightarrow> kst \<Rightarrow> kst" where
  "reparent p q s =
    (if p_parent (procs s q) = Some p then
       let s = upd_proc q (\<lambda>x. x\<lparr>p_parent := initproc s\<rparr>) s in
       case initproc s of
         Some i \<Rightarrow> if p_state (procs s q) = ZOMBIE then wakeup1 (ChProc i) s else s
       | None \<Rightarrow> s
     else s)"

text \<open>\<open>exit\<close> does not return: the result is the state in which the scheduler goes on.\<close>

definition exit :: "kst \<Rightarrow> kerror + kst" where
  "exit = with_me (\<lambda>p s.
    if Some p = initproc s then Inl (Panic ''init exiting'')
    else
      bindE (foldE (close_fd p) [0..<NOFILE] s) (\<lambda>s.
      bindE (kfs fs_begin_op s) (\<lambda>s.
      bindE (case p_cwd (procs s p) of None \<Rightarrow> Inl (Fault ''exit cwd'') | Some cwd \<Rightarrow> kfs (iput cwd) s) (\<lambda>s.
      bindE (kfs fs_end_op s) (\<lambda>s.
        let s = upd_proc p (\<lambda>x. x\<lparr>p_cwd := None\<rparr>) s in
      bindE (destroySwap p s) (\<lambda>(r, s).
      bindE (assertE (r = 0) ''destroySwap(curproc)==0'') (\<lambda>_.
        let s = (case p_parent (procs s p) of None \<Rightarrow> s | Some pp \<Rightarrow> wakeup1 (ChProc pp) s);
            s = fold (reparent p) [0..<NPROC] s
        in sched True 1 False (upd_proc p (\<lambda>x. x\<lparr>p_state := ZOMBIE\<rparr>) s))))))))"

definition wait :: "kst \<Rightarrow> kerror + int \<times> kst" where
  "wait = with_me (\<lambda>p s.
    let kid = (\<lambda>q. p_parent (procs s q) = Some p) in
    case find (\<lambda>q. kid q \<and> p_state (procs s q) = ZOMBIE) [0..<NPROC] of
      Some q \<Rightarrow>
        let pid = sint (p_pid (procs s q)) in
        bindE (k_kfree (p_kstack (procs s q)) s) (\<lambda>s.
        bindE (freevm (p_pgdir (procs s q)) (upd_proc q (\<lambda>x. x\<lparr>p_kstack := 0\<rparr>) s)) (\<lambda>s.
          Inr (pid, upd_proc q (\<lambda>x. x\<lparr>p_pid := 0, p_parent := None, p_name := (p_name x)[0 := 0], p_killed := False,
            p_state := UNUSED\<rparr>) s)))
    | None \<Rightarrow>
        if find kid [0..<NPROC] = None \<or> p_killed (procs s p) then Inr (-1, s)
        else Inl (Sleep (ChProc p)))"

end
