(* ===== verification/Syscall.thy ===== *)
theory Syscall
  imports Proc
begin

text \<open>
  User memory as the kernel sees it, and the argument functions of \<^verbatim>\<open>syscall.c\<close>. The kernel dereferences
  user addresses through the page table in \<open>cr3\<close>; an access to a page that is not present traps, and the
  trap handler either brings the page back from the swap file or panics, since the trap came from the
  kernel. The processor sets the accessed and dirty flags of the entry.
\<close>

section \<open>User memory\<close>

definition present :: "uint \<Rightarrow> kst \<Rightarrow> bool" where
  "present pte s \<longleftrightarrow> pte \<noteq> 0 \<and> kld s pte AND PTE_P \<noteq> 0"

text \<open>The kernel address of the byte at user address \<open>va\<close>.\<close>

definition access :: "uint \<Rightarrow> uint \<Rightarrow> kst \<Rightarrow> kerror + uint \<times> kst" where
  "access flags va s =
    bindE (let (pte, s) = k_walkpgdir (P2V (cr3 s)) va False s in
           if present pte s then Inr (pte, s)
           else bindE (recoverPageFault va s) (\<lambda>(r, s).
             if r \<noteq> 0 then Inl (Panic ''trap'')
             else let (pte, s) = k_walkpgdir (P2V (cr3 s)) va False s in
               if present pte s then Inr (pte, s) else Inl Hang)) (\<lambda>(pte, s).
      Inr (P2V (PTE_ADDR (kld s pte)) + (va AND 0xFFF), kst32 pte (kld s pte OR flags) s))"

definition uload :: "uint \<Rightarrow> kst \<Rightarrow> kerror + uchar \<times> kst" where
  "uload va s = bindE (access PTE_A va s) (\<lambda>(a, s). Inr (kmemory s a, s))"

definition ustore :: "uint \<Rightarrow> uchar \<Rightarrow> kst \<Rightarrow> kerror + kst" where
  "ustore va c s = bindE (access (PTE_A OR PTE_D) va s) (\<lambda>(a, s). Inr (set_memory ((kmemory s)(a := c)) s))"

fun uread :: "uint \<Rightarrow> nat \<Rightarrow> kst \<Rightarrow> kerror + uchar list \<times> kst" where
  "uread va 0 s = Inr ([], s)"
| "uread va (Suc n) s = bindE (uload va s) (\<lambda>(c, s). bindE (uread (va + 1) n s) (\<lambda>(cs, s). Inr (c # cs, s)))"

fun uwrite :: "uint \<Rightarrow> uchar list \<Rightarrow> kst \<Rightarrow> kerror + kst" where
  "uwrite va [] s = Inr s"
| "uwrite va (c # cs) s = bindE (ustore va c s) (uwrite (va + 1) cs)"


section \<open>Arguments\<close>

text \<open>A value \<open>None\<close> is the return value -1.\<close>

definition fetchint :: "uint \<Rightarrow> kst \<Rightarrow> kerror + uint option \<times> kst" where
  "fetchint addr = with_me (\<lambda>p s.
    let sz = p_sz (procs s p) in
    if addr \<ge> sz \<or> addr + 4 > sz then Inr (None, s)
    else bindE (uread addr 4 s) (\<lambda>(bs, s). Inr (Some (get32 bs 0), s)))"

text \<open>The scan of \<open>fetchstr\<close> over the \<open>n\<close> bytes up to the end of the process; the value is the string.\<close>

fun fetchstr_loop :: "nat \<Rightarrow> uint \<Rightarrow> kst \<Rightarrow> kerror + uchar list option \<times> kst" where
  "fetchstr_loop 0 a s = Inr (None, s)"
| "fetchstr_loop (Suc n) a s =
    bindE (uload a s) (\<lambda>(c, s).
      if c = 0 then Inr (Some [], s)
      else bindE (fetchstr_loop n (a + 1) s) (\<lambda>(r, s). Inr (map_option (\<lambda>cs. c # cs) r, s)))"

definition fetchstr :: "uint \<Rightarrow> kst \<Rightarrow> kerror + uchar list option \<times> kst" where
  "fetchstr addr = with_me (\<lambda>p s.
    let sz = p_sz (procs s p) in
    if addr \<ge> sz then Inr (None, s) else fetchstr_loop (unat (sz - addr)) addr s)"

definition argint :: "nat \<Rightarrow> kst \<Rightarrow> kerror + uint option \<times> kst" where
  "argint n = with_me (\<lambda>p s. fetchint (tf_esp (p_tf (procs s p)) + 4 + 4 * of_nat n) s)"

definition argptr :: "nat \<Rightarrow> uint \<Rightarrow> kst \<Rightarrow> kerror + uint option \<times> kst" where
  "argptr n n_bytes = with_me (\<lambda>p s.
    bindE (argint n s) (\<lambda>(i, s).
      let sz = p_sz (procs s p) in
      case i of None \<Rightarrow> Inr (None, s)
      | Some i \<Rightarrow> if sint n_bytes < 0 \<or> i \<ge> sz \<or> i + n_bytes > sz then Inr (None, s) else Inr (Some i, s)))"

text \<open>\<open>argstr\<close> gives the address of the string with its bytes.\<close>

definition argstr :: "nat \<Rightarrow> kst \<Rightarrow> kerror + (uint \<times> uchar list) option \<times> kst" where
  "argstr n s =
    bindE (argint n s) (\<lambda>(i, s).
      case i of None \<Rightarrow> Inr (None, s)
      | Some addr \<Rightarrow> bindE (fetchstr addr s) (\<lambda>(r, s). Inr (map_option (\<lambda>str. (addr, str)) r, s)))"

end
