(* ===== verification/Sysfile.thy ===== *)
theory Sysfile
  imports Syscall
begin

text \<open>
  The file system calls of \<^verbatim>\<open>sysfile.c\<close>. The bytes a write copies are fetched from user memory before the
  file operation and the bytes a read returns are stored after it.
\<close>

definition argfd :: "nat \<Rightarrow> kst \<Rightarrow> kerror + (nat \<times> nat) option \<times> kst" where
  "argfd n = with_me (\<lambda>p s.
    bindE (argint n s) (\<lambda>(fd, s).
      case fd of None \<Rightarrow> Inr (None, s)
      | Some fd \<Rightarrow>
        if sint fd < 0 \<or> sint fd \<ge> int NOFILE then Inr (None, s)
        else case p_ofile (procs s p) (unat fd) of None \<Rightarrow> Inr (None, s) | Some f \<Rightarrow> Inr (Some (unat fd, f), s)))"

definition fdalloc :: "nat \<Rightarrow> nat \<Rightarrow> kst \<Rightarrow> nat option \<times> kst" where
  "fdalloc p f s =
    (case find (\<lambda>fd. p_ofile (procs s p) fd = None) [0..<NOFILE] of
       None \<Rightarrow> (None, s)
     | Some fd \<Rightarrow> (Some fd, upd_proc p (\<lambda>x. x\<lparr>p_ofile := (p_ofile x)(fd := Some f)\<rparr>) s))"

definition sys_dup :: "kst \<Rightarrow> kerror + int \<times> kst" where
  "sys_dup = with_me (\<lambda>p s.
    bindE (argfd 0 s) (\<lambda>(a, s).
      case a of None \<Rightarrow> Inr (-1, s)
      | Some (_, f) \<Rightarrow>
        (case fdalloc p f s of
           (None, s) \<Rightarrow> Inr (-1, s)
         | (Some fd, s) \<Rightarrow> bindE (kfil_val (filedup f) s) (\<lambda>(_, s). Inr (int fd, s)))))"

text \<open>The arguments of \<open>sys_read\<close> and \<open>sys_write\<close>: file, buffer and count.\<close>

definition arg_buffer :: "kst \<Rightarrow> kerror + (nat \<times> uint \<times> uint) option \<times> kst" where
  "arg_buffer s =
    bindE (argfd 0 s) (\<lambda>(a, s).
      case a of None \<Rightarrow> Inr (None, s)
      | Some (_, f) \<Rightarrow>
        bindE (argint 2 s) (\<lambda>(n, s).
          case n of None \<Rightarrow> Inr (None, s)
          | Some n \<Rightarrow>
            bindE (argptr 1 n s) (\<lambda>(b, s).
              case b of None \<Rightarrow> Inr (None, s) | Some b \<Rightarrow> Inr (Some (f, b, n), s))))"

definition sys_read :: "kst \<Rightarrow> kerror + int \<times> kst" where
  "sys_read s =
    bindE (arg_buffer s) (\<lambda>(a, s).
      case a of None \<Rightarrow> Inr (-1, s)
      | Some (f, b, n) \<Rightarrow>
        bindE (kfil_val (fileread f (sint n)) s) (\<lambda>((r, bs), s).
        bindE (uwrite b bs s) (\<lambda>s. Inr (r, s))))"

definition sys_write :: "kst \<Rightarrow> kerror + int \<times> kst" where
  "sys_write s =
    bindE (arg_buffer s) (\<lambda>(a, s).
      case a of None \<Rightarrow> Inr (-1, s)
      | Some (f, b, n) \<Rightarrow>
        bindE (uread b (unat n) s) (\<lambda>(bs, s). kfil_val (filewrite f bs) s))"

definition sys_close :: "kst \<Rightarrow> kerror + int \<times> kst" where
  "sys_close = with_me (\<lambda>p s.
    bindE (argfd 0 s) (\<lambda>(a, s).
      case a of None \<Rightarrow> Inr (-1, s)
      | Some (fd, f) \<Rightarrow>
        bindE (kfil (fileclose f) (upd_proc p (\<lambda>x. x\<lparr>p_ofile := (p_ofile x)(fd := None)\<rparr>) s)) (\<lambda>s. Inr (0, s))))"

text \<open>\<open>stati\<close> stores the fields of \<open>struct stat\<close> at their offsets.\<close>

definition store_stat :: "uint \<Rightarrow> stat \<Rightarrow> kst \<Rightarrow> kerror + kst" where
  "store_stat a st s =
    bindE (uwrite (a + 4) (le32 (st_dev st)) s) (\<lambda>s.
    bindE (uwrite (a + 8) (le32 (st_ino st)) s) (\<lambda>s.
    bindE (uwrite a (le16 (st_type st)) s) (\<lambda>s.
    bindE (uwrite (a + 12) (le16 (st_nlink st)) s) (\<lambda>s.
      uwrite (a + 16) (le32 (st_size st)) s))))"

definition sys_fstat :: "kst \<Rightarrow> kerror + int \<times> kst" where
  "sys_fstat s =
    bindE (argfd 0 s) (\<lambda>(a, s).
      case a of None \<Rightarrow> Inr (-1, s)
      | Some (_, f) \<Rightarrow>
        bindE (argptr 1 20 s) (\<lambda>(b, s).
          case b of None \<Rightarrow> Inr (-1, s)
          | Some b \<Rightarrow>
            bindE (kfil_val (filestat f) s) (\<lambda>(st, s).
              case st of None \<Rightarrow> Inr (-1, s)
              | Some st \<Rightarrow> bindE (store_stat b st s) (\<lambda>s. Inr (0, s)))))"

definition sys_link :: "kst \<Rightarrow> kerror + int \<times> kst" where
  "sys_link s =
    bindE (argstr 0 s) (\<lambda>(old, s).
      case old of None \<Rightarrow> Inr (-1, s)
      | Some (_, old) \<Rightarrow>
        bindE (argstr 1 s) (\<lambda>(new, s).
          case new of None \<Rightarrow> Inr (-1, s)
          | Some (_, new) \<Rightarrow> kfs_val (link_path old new) s))"

definition sys_unlink :: "kst \<Rightarrow> kerror + int \<times> kst" where
  "sys_unlink s =
    bindE (argstr 0 s) (\<lambda>(path, s).
      case path of None \<Rightarrow> Inr (-1, s)
      | Some (_, path) \<Rightarrow> kfs_val (unlink_path path) s)"

abbreviation (input) O_RDONLY :: uint where "O_RDONLY \<equiv> 0x000"
abbreviation (input) O_WRONLY :: uint where "O_WRONLY \<equiv> 0x001"
abbreviation (input) O_RDWR :: uint where "O_RDWR \<equiv> 0x002"
abbreviation (input) O_CREATE :: uint where "O_CREATE \<equiv> 0x200"

text \<open>The inode of \<open>sys_open\<close>, locked, or nothing when the call fails (with \<open>end_op\<close> done).\<close>

definition open_inode :: "uchar list \<Rightarrow> uint \<Rightarrow> fsst \<Rightarrow> kerror + nat option \<times> fsst" where
  "open_inode path omode s =
    (if omode AND O_CREATE \<noteq> 0 then
       bindE (create path T_FILE 0 0 s) (\<lambda>(ip, s).
         case ip of None \<Rightarrow> bindE (fs_end_op s) (\<lambda>s. Inr (None, s)) | Some ip \<Rightarrow> Inr (Some ip, s))
     else
       bindE (namei path s) (\<lambda>(ip, s).
         case ip of None \<Rightarrow> bindE (fs_end_op s) (\<lambda>s. Inr (None, s))
         | Some ip \<Rightarrow>
           bindE (ilock (Some ip) s) (\<lambda>s.
             if i_type (inodes s ip) = T_DIR \<and> omode \<noteq> O_RDONLY then
               bindE (iunlockput ip s) (\<lambda>s. bindE (fs_end_op s) (\<lambda>s. Inr (None, s)))
             else Inr (Some ip, s))))"

definition open_bad :: "nat option \<Rightarrow> nat \<Rightarrow> kst \<Rightarrow> kerror + int \<times> kst" where
  "open_bad fo ip s =
    bindE (case fo of None \<Rightarrow> Inr s | Some f \<Rightarrow> kfil (fileclose f) s) (\<lambda>s.
    bindE (kfs (iunlockput ip) s) (\<lambda>s.
    bindE (kfs fs_end_op s) (\<lambda>s. Inr (-1, s))))"

definition sys_open :: "kst \<Rightarrow> kerror + int \<times> kst" where
  "sys_open = with_me (\<lambda>p s.
    bindE (argstr 0 s) (\<lambda>(path, s).
      case path of None \<Rightarrow> Inr (-1, s)
      | Some (_, path) \<Rightarrow>
        bindE (argint 1 s) (\<lambda>(omode, s).
          case omode of None \<Rightarrow> Inr (-1, s)
          | Some omode \<Rightarrow>
            bindE (kfs fs_begin_op s) (\<lambda>s.
            bindE (kfs_val (open_inode path omode) s) (\<lambda>(ip, s).
              case ip of None \<Rightarrow> Inr (-1, s)
              | Some ip \<Rightarrow>
                (case filealloc (fil s) of
                   (None, t) \<Rightarrow> open_bad None ip (s\<lparr>fil := t\<rparr>)
                 | (Some f, t) \<Rightarrow>
                   (case fdalloc p f (s\<lparr>fil := t\<rparr>) of
                      (None, s) \<Rightarrow> open_bad (Some f) ip s
                    | (Some fd, s) \<Rightarrow>
                      bindE (kfs (iunlock (Some ip)) s) (\<lambda>s.
                      bindE (kfs fs_end_op s) (\<lambda>s.
                        Inr (int fd, s\<lparr>fil := upd_file f (\<lambda>x. x\<lparr>f_type := FD_INODE, f_ip := ip, f_off := 0,
                          readable := (omode AND O_WRONLY = 0),
                          writable := (omode AND O_WRONLY \<noteq> 0 \<or> omode AND O_RDWR \<noteq> 0)\<rparr>) (fil s)\<rparr>))))))))))"

definition sys_mkdir :: "kst \<Rightarrow> kerror + int \<times> kst" where
  "sys_mkdir s =
    bindE (kfs fs_begin_op s) (\<lambda>s.
    bindE (argstr 0 s) (\<lambda>(path, s).
    bindE (case path of None \<Rightarrow> Inr (None, s) | Some (_, path) \<Rightarrow> kfs_val (create path T_DIR 0 0) s) (\<lambda>(ip, s).
      case ip of None \<Rightarrow> bindE (kfs fs_end_op s) (\<lambda>s. Inr (-1, s))
      | Some ip \<Rightarrow>
        bindE (kfs (iunlockput ip) s) (\<lambda>s.
        bindE (kfs fs_end_op s) (\<lambda>s. Inr (0, s))))))"

definition mknod_args :: "kst \<Rightarrow> kerror + (uchar list \<times> uint \<times> uint) option \<times> kst" where
  "mknod_args s =
    bindE (argstr 0 s) (\<lambda>(path, s).
      case path of None \<Rightarrow> Inr (None, s)
      | Some (_, path) \<Rightarrow>
        bindE (argint 1 s) (\<lambda>(major, s).
          case major of None \<Rightarrow> Inr (None, s)
          | Some major \<Rightarrow>
            bindE (argint 2 s) (\<lambda>(minor, s).
              case minor of None \<Rightarrow> Inr (None, s) | Some minor \<Rightarrow> Inr (Some (path, major, minor), s))))"

definition sys_mknod :: "kst \<Rightarrow> kerror + int \<times> kst" where
  "sys_mknod s =
    bindE (kfs fs_begin_op s) (\<lambda>s.
    bindE (mknod_args s) (\<lambda>(a, s).
    bindE (case a of None \<Rightarrow> Inr (None, s)
           | Some (path, major, minor) \<Rightarrow> kfs_val (create path T_DEV (ucast major) (ucast minor)) s) (\<lambda>(ip, s).
      case ip of None \<Rightarrow> bindE (kfs fs_end_op s) (\<lambda>s. Inr (-1, s))
      | Some ip \<Rightarrow>
        bindE (kfs (iunlockput ip) s) (\<lambda>s.
        bindE (kfs fs_end_op s) (\<lambda>s. Inr (0, s))))))"

definition sys_chdir :: "kst \<Rightarrow> kerror + int \<times> kst" where
  "sys_chdir = with_me (\<lambda>p s.
    bindE (kfs fs_begin_op s) (\<lambda>s.
    bindE (argstr 0 s) (\<lambda>(path, s).
      case path of None \<Rightarrow> bindE (kfs fs_end_op s) (\<lambda>s. Inr (-1, s))
      | Some (_, path) \<Rightarrow>
        bindE (kfs_val (chdir_path path) s) (\<lambda>(ip, s).
          case ip of None \<Rightarrow> Inr (-1, s)
          | Some ip \<Rightarrow> Inr (0, upd_proc p (\<lambda>x. x\<lparr>p_cwd := Some ip\<rparr>) s)))))"

definition pipe_bad :: "nat \<Rightarrow> nat \<Rightarrow> kst \<Rightarrow> kerror + int \<times> kst" where
  "pipe_bad rf wfile s =
    bindE (kfil (fileclose rf) s) (\<lambda>s. bindE (kfil (fileclose wfile) s) (\<lambda>s. Inr (-1, s)))"

definition sys_pipe :: "kst \<Rightarrow> kerror + int \<times> kst" where
  "sys_pipe = with_me (\<lambda>p s.
    bindE (argptr 0 8 s) (\<lambda>(a, s).
      case a of None \<Rightarrow> Inr (-1, s)
      | Some fd \<Rightarrow>
        bindE (kfil_val pipealloc s) (\<lambda>(fs, s).
          case fs of None \<Rightarrow> Inr (-1, s)
          | Some (rf, wfile) \<Rightarrow>
            (case fdalloc p rf s of
               (None, s) \<Rightarrow> pipe_bad rf wfile s
             | (Some fd0, s) \<Rightarrow>
               (case fdalloc p wfile s of
                  (None, s) \<Rightarrow> pipe_bad rf wfile (upd_proc p (\<lambda>x. x\<lparr>p_ofile := (p_ofile x)(fd0 := None)\<rparr>) s)
                | (Some fd1, s) \<Rightarrow>
                  bindE (uwrite fd (le32 (of_nat fd0)) s) (\<lambda>s.
                  bindE (uwrite (fd + 4) (le32 (of_nat fd1)) s) (\<lambda>s. Inr (0, s))))))))"

end
