(* ===== verification/Exec.thy ===== *)
theory Exec
  imports Sysfile
begin

text \<open>
  \<^verbatim>\<open>exec.c\<close>. The path and the argument strings stay in the memory of the old image, and \<open>exec\<close> reads them
  there: the path first, the arguments after the new image has been loaded, the path again for the
  name of the process. The arguments are the addresses of the strings.
\<close>

text \<open>The string at a user address, as \<open>strlen\<close> and the copying routines read it.\<close>

definition ustring :: "uint \<Rightarrow> kst \<Rightarrow> kerror + uchar list \<times> kst" where
  "ustring addr = with_me (\<lambda>p s.
    bindE (fetchstr_loop (unat (p_sz (procs s p) - addr)) addr s) (\<lambda>(r, s).
      case r of None \<Rightarrow> Inl (Fault ''exec string'') | Some str \<Rightarrow> Inr (str, s)))"

abbreviation (input) ELF_MAGIC :: uint where "ELF_MAGIC \<equiv> 0x464C457F"
abbreviation (input) ELF_PROG_LOAD :: uint where "ELF_PROG_LOAD \<equiv> 1"

text \<open>The fields of \<open>struct elfhdr\<close> (52 bytes) and \<open>struct proghdr\<close> (32 bytes) that are used.\<close>

record elfhdr =
  e_magic :: uint
  e_entry :: uint
  e_phoff :: uint
  e_phnum :: ushort

definition get_elfhdr :: "uchar list \<Rightarrow> elfhdr" where
  "get_elfhdr d = \<lparr>e_magic = get32 d 0, e_entry = get32 d 24, e_phoff = get32 d 28, e_phnum = get16 d 44\<rparr>"

record proghdr =
  ph_type :: uint
  ph_off :: uint
  ph_vaddr :: uint
  ph_filesz :: uint
  ph_memsz :: uint

definition get_proghdr :: "uchar list \<Rightarrow> proghdr" where
  "get_proghdr d = \<lparr>ph_type = get32 d 0, ph_off = get32 d 4, ph_vaddr = get32 d 8, ph_filesz = get32 d 16,
     ph_memsz = get32 d 20\<rparr>"

definition exec_bad :: "uint \<Rightarrow> nat option \<Rightarrow> kst \<Rightarrow> kerror + int \<times> kst" where
  "exec_bad pgdir ipo s =
    bindE (if pgdir \<noteq> 0 then freevm pgdir s else Inr s) (\<lambda>s.
    bindE (case ipo of None \<Rightarrow> Inr s
           | Some ip \<Rightarrow> bindE (kfs (iunlockput ip) s) (kfs fs_end_op)) (\<lambda>s.
      Inr (-1, s)))"

text \<open>The loop over the program headers; the value is the new size, or nothing for \<open>goto bad\<close>.\<close>

fun exec_load :: "uint \<Rightarrow> nat \<Rightarrow> uint \<Rightarrow> nat \<Rightarrow> uint \<Rightarrow> kst \<Rightarrow> kerror + uint option \<times> kst" where
  "exec_load pgdir ip off 0 sz s = Inr (Some sz, s)"
| "exec_load pgdir ip off (Suc n) sz s =
    bindE (kfs_val (readi ip off 32) s) (\<lambda>((r, d), s).
      if r \<noteq> 32 then Inr (None, s)
      else
        let ph = get_proghdr d in
        if ph_type ph \<noteq> ELF_PROG_LOAD then exec_load pgdir ip (off + 32) n sz s
        else if ph_memsz ph < ph_filesz ph then Inr (None, s)
        else if ph_vaddr ph + ph_memsz ph < ph_vaddr ph then Inr (None, s)
        else
          bindE (allocuvm pgdir sz (ph_vaddr ph + ph_memsz ph) s) (\<lambda>(sz, s).
            if sz = 0 then Inr (None, s)
            else if ph_vaddr ph mod PGSIZE \<noteq> 0 then Inr (None, s)
            else
              bindE (loaduvm pgdir (ph_vaddr ph) ip (ph_off ph) (ph_filesz ph) s) (\<lambda>(r, s).
                if r < 0 then Inr (None, s) else exec_load pgdir ip (off + 32) n sz s)))"

text \<open>Pushing the argument strings: the value is the stack pointer with the addresses of the copies.\<close>

fun exec_args :: "uint \<Rightarrow> uint list \<Rightarrow> uint \<Rightarrow> uint list \<Rightarrow> kst \<Rightarrow> kerror + (uint \<times> uint list) option \<times> kst" where
  "exec_args pgdir [] sp us s = Inr (Some (sp, us), s)"
| "exec_args pgdir (a # as) sp us s =
    (if length us \<ge> MAXARG then Inr (None, s)
     else
       bindE (ustring a s) (\<lambda>(str, s).
         let sp = (sp - (of_nat (length str) + 1)) AND NOT 3 in
       bindE (copyout pgdir sp (str @ [0]) s) (\<lambda>(r, s).
         if r < 0 then Inr (None, s) else exec_args pgdir as sp (us @ [sp]) s)))"

definition exec_swap :: "nat \<Rightarrow> kst \<Rightarrow> kerror + kst" where
  "exec_swap p s =
    (if p_pid (procs s p) = 1 then
       bindE (initFreshSwap p s) (\<lambda>(r, s). bindE (assertE (r = 0) ''initFreshSwap(curproc) == 0'') (\<lambda>_. Inr s))
     else
       bindE (restoreSwap p s) (\<lambda>(r, s). bindE (assertE (r = 0) ''restoreSwap(curproc) == 0'') (\<lambda>_.
       bindE (destroySwap p s) (\<lambda>(r, s). bindE (assertE (r = 0) ''destroySwap(curproc) == 0'') (\<lambda>_.
       bindE (initFreshSwap p s) (\<lambda>(r, s). bindE (assertE (r = 0) ''initFreshSwap(curproc) == 0'') (\<lambda>_.
         Inr s)))))))"

text \<open>\<open>last\<close>: the part of the path behind its last slash.\<close>

definition path_last :: "uchar list \<Rightarrow> uchar list" where
  "path_last path = rev (takeWhile (\<lambda>c. c \<noteq> 47) (rev path))"

definition ustack :: "uint \<Rightarrow> uint list \<Rightarrow> uint list" where
  "ustack sp us = [0xFFFFFFFF, of_nat (length us), sp - (of_nat (length us) + 1) * 4] @ us @ [0]"

definition exec_commit :: "nat \<Rightarrow> uint \<Rightarrow> uint \<Rightarrow> uint \<Rightarrow> uint \<Rightarrow> uchar list \<Rightarrow> kst \<Rightarrow> kerror + int \<times> kst" where
  "exec_commit p pgdir sz entry sp path s =
    (let oldpgdir = p_pgdir (procs s p);
         s = upd_proc p (\<lambda>x. x\<lparr>p_name := safestrcpy (path_last path) 16, p_pgdir := pgdir, p_sz := sz,
               p_tf := (p_tf x)\<lparr>tf_eip := entry, tf_esp := sp\<rparr>\<rparr>) s in
     bindE (switchuvm (Some p) s) (\<lambda>s.
     bindE (freevm oldpgdir s) (\<lambda>s. Inr (0, s))))"

text \<open>Behind \<open>end_op\<close>: the stack, the arguments and the switch to the new image.\<close>

definition exec_stack :: "nat \<Rightarrow> uint \<Rightarrow> uint \<Rightarrow> uint \<Rightarrow> uint \<Rightarrow> uint list \<Rightarrow> kst \<Rightarrow> kerror + int \<times> kst" where
  "exec_stack p pgdir sz entry path argv s =
    (let sz = PGROUNDUP sz in
     bindE (allocuvm pgdir sz (sz + 2 * PGSIZE) s) (\<lambda>(sz, s).
       if sz = 0 then exec_bad pgdir None s
       else
         bindE (clearpteu pgdir (sz - 2 * PGSIZE) s) (\<lambda>s.
         bindE (exec_args pgdir argv sz [] s) (\<lambda>(r, s).
           case r of None \<Rightarrow> exec_bad pgdir None s
           | Some (sp, us) \<Rightarrow>
             let st = ustack sp us; sp = sp - of_nat (length st) * 4 in
             bindE (copyout pgdir sp (concat (map le32 st)) s) (\<lambda>(r, s).
               if r < 0 then exec_bad pgdir None s
               else
                 bindE (ustring path s) (\<lambda>(str, s). exec_commit p pgdir sz entry sp str s))))))"

definition exec :: "uint \<Rightarrow> uint list \<Rightarrow> kst \<Rightarrow> kerror + int \<times> kst" where
  "exec path argv = with_me (\<lambda>p s.
    bindE (kfs fs_begin_op s) (\<lambda>s.
    bindE (ustring path s) (\<lambda>(str, s).
    bindE (kfs_val (namei str) s) (\<lambda>(ip, s).
      case ip of None \<Rightarrow>
        bindE (kfs fs_end_op s) (\<lambda>s.
        bindE (kprintf (bytes ''exec: fail'' @ [10]) [] s) (\<lambda>s. Inr (-1, s)))
      | Some ip \<Rightarrow>
        bindE (kfs (ilock (Some ip)) s) (\<lambda>s.
        bindE (kfs_val (readi ip 0 52) s) (\<lambda>((r, d), s).
          let elf = get_elfhdr d in
          if r \<noteq> 52 then exec_bad 0 (Some ip) s
          else if e_magic elf \<noteq> ELF_MAGIC then exec_bad 0 (Some ip) s
          else
            bindE (setupkvm s) (\<lambda>(pgdir, s).
              if pgdir = 0 then exec_bad 0 (Some ip) s
              else
                bindE (exec_swap p s) (\<lambda>s.
                bindE (exec_load pgdir ip (e_phoff elf) (unat (e_phnum elf)) PGSIZE s) (\<lambda>(r, s).
                  case r of None \<Rightarrow> exec_bad pgdir (Some ip) s
                  | Some sz \<Rightarrow>
                    bindE (kfs (iunlockput ip) s) (\<lambda>s.
                    bindE (kfs fs_end_op s) (\<lambda>s.
                      exec_stack p pgdir sz (e_entry elf) path argv s)))))))))))"

text \<open>The arguments of \<open>sys_exec\<close>: at most \<open>MAXARG - 1\<close> strings.\<close>

fun exec_argv :: "nat \<Rightarrow> uint \<Rightarrow> kst \<Rightarrow> kerror + uint list option \<times> kst" where
  "exec_argv 0 a s = Inr (None, s)"
| "exec_argv (Suc n) a s =
    bindE (fetchint a s) (\<lambda>(uarg, s).
      case uarg of None \<Rightarrow> Inr (None, s)
      | Some uarg \<Rightarrow>
        if uarg = 0 then Inr (Some [], s)
        else bindE (fetchstr uarg s) (\<lambda>(str, s).
          case str of None \<Rightarrow> Inr (None, s)
          | Some _ \<Rightarrow> bindE (exec_argv n (a + 4) s) (\<lambda>(r, s). Inr (map_option (\<lambda>as. uarg # as) r, s))))"

definition sys_exec :: "kst \<Rightarrow> kerror + int \<times> kst" where
  "sys_exec s =
    bindE (argstr 0 s) (\<lambda>(path, s).
      case path of None \<Rightarrow> Inr (-1, s)
      | Some (path, _) \<Rightarrow>
        bindE (argint 1 s) (\<lambda>(uargv, s).
          case uargv of None \<Rightarrow> Inr (-1, s)
          | Some uargv \<Rightarrow>
            bindE (exec_argv MAXARG uargv s) (\<lambda>(argv, s).
              case argv of None \<Rightarrow> Inr (-1, s) | Some argv \<Rightarrow> exec path argv s)))"

end
