(* ===== verification/Procdump.thy ===== *)
theory Procdump
  imports Proc
begin

text \<open>
  The process listing that control-P prints: \<open>procdump\<close> of \<^verbatim>\<open>proc.c\<close> with the page tables, the page mappings and the swap
  state of every process, and \<open>getcallerpcs\<close> of \<^verbatim>\<open>spinlock.c\<close>. The kernel stack of a sleeping process is not modelled
  beyond memory: \<open>ebp p\<close> is the frame pointer that \<open>swtch\<close> has saved for slot \<open>p\<close>.
\<close>

section \<open>The call stack\<close>

fun callerpcs_loop :: "nat \<Rightarrow> (uint \<Rightarrow> uint) \<Rightarrow> uint \<Rightarrow> uint list" where
  "callerpcs_loop 0 ld ebp = []"
| "callerpcs_loop (Suc n) ld ebp =
    (if ebp = 0 \<or> ebp < KERNBASE \<or> ebp = 0xffffffff then []
     else ld (ebp + 4) # callerpcs_loop n ld (ld ebp))"

definition getcallerpcs :: "(uint \<Rightarrow> uint) \<Rightarrow> uint \<Rightarrow> uint list" where
  "getcallerpcs ld v =
    (let pcs = callerpcs_loop 10 ld (v - 8) in pcs @ replicate (10 - length pcs) 0)"

lemma getcallerpcs_length [simp]: "length (getcallerpcs ld v) = 10"
proof -
  have "length (callerpcs_loop n ld e) \<le> n" for n e
    by (induction n arbitrary: e) auto
  then show ?thesis by (simp add: getcallerpcs_def Let_def)
qed


section \<open>Page tables and page mappings\<close>

text \<open>The check that both functions make of an entry of the page directory: whether to go on with its page table.\<close>

definition dump_pde :: "uint \<Rightarrow> kerror + bool" where
  "dump_pde de =
    (if de AND PTE_D \<noteq> 0 then Inl (Panic ''procdump: dirty bit set in page directory'')
     else Inr (de AND PTE_P \<noteq> 0 \<and> de AND PTE_U \<noteq> 0))"

definition printPageTables_pte :: "uint \<Rightarrow> nat \<Rightarrow> kst \<Rightarrow> kerror + kst" where
  "printPageTables_pte tab j s =
    (let pte = kld s (tab + 4 * of_nat j) in
     if pte AND PTE_P = 0 \<or> pte AND PTE_U = 0 then Inr s
     else
       bindE (assertE (PTE_ADDR pte \<noteq> 0) ''PTE_ADDR(*pte)'') (\<lambda>_.
         kprintf ([9, 9] @ bytes ''ptbl PTE %p, %p, %p'' @ [10]) [of_nat j, drop_bit 12 (PTE_ADDR pte), PTE_ADDR pte] s))"

definition printPageTables_pde :: "uint \<Rightarrow> nat \<Rightarrow> kst \<Rightarrow> kerror + kst" where
  "printPageTables_pde pgdir i s =
    (let de = kld s (pgdir + 4 * of_nat i) in
     bindE (dump_pde de) (\<lambda>go.
       if \<not> go then Inr s
       else
         bindE (kprintf ([9] @ bytes ''pdir PTE %p, %p:'' @ [10]) [of_nat i, drop_bit 12 (PTE_ADDR de)] s) (\<lambda>s.
         let tab = P2V (PTE_ADDR de) in
         bindE (assertE (PTE_ADDR de < PHYSTOP) ''PTE_ADDR(*pgdir) < PHYSTOP'') (\<lambda>_.
         bindE (kprintf ([9, 9] @ bytes ''memory location of page table = '' @ [226, 128, 139] @ bytes ''%p'' @ [10]) [PTE_ADDR de] s) (\<lambda>s.
           foldE (printPageTables_pte tab) [0..<NPTENTRIES] s)))))"

definition printPageTables :: "proc \<Rightarrow> kst \<Rightarrow> kerror + kst" where
  "printPageTables p s =
    bindE (kprintf (bytes ''Page tables:'' @ [10]) [] s) (\<lambda>s.
    let pgdir = p_pgdir p in
    bindE (kprintf ([9] @ bytes ''memory location of page directory = '' @ [226, 128, 139] @ bytes ''%p'' @ [10]) [V2P pgdir] s) (\<lambda>s.
    bindE (assertE (V2P pgdir < PHYSTOP) ''(uint)V2P(pgdir) < PHYSTOP'') (\<lambda>_.
      foldE (printPageTables_pde pgdir) [0..<NPDENTRIES] s)))"

definition printPageMappings_pte :: "nat \<Rightarrow> uint \<Rightarrow> nat \<Rightarrow> kst \<Rightarrow> kerror + kst" where
  "printPageMappings_pte i tab j s =
    (let pte = kld s (tab + 4 * of_nat j) in
     if pte AND PTE_P = 0 \<or> pte AND PTE_U = 0 then Inr s
     else
       bindE (assertE (PTE_ADDR pte \<noteq> 0) ''PTE_ADDR(*pte)'') (\<lambda>_.
         kprintf ([9] @ bytes ''%p -> %p'' @ [10]) [push_bit 10 (of_nat i) OR of_nat j, drop_bit 12 (PTE_ADDR pte)] s))"

definition printPageMappings_pde :: "uint \<Rightarrow> nat \<Rightarrow> kst \<Rightarrow> kerror + kst" where
  "printPageMappings_pde pgdir i s =
    (let de = kld s (pgdir + 4 * of_nat i) in
     bindE (dump_pde de) (\<lambda>go.
       if \<not> go then Inr s
       else
         let tab = P2V (PTE_ADDR de) in
         bindE (assertE (PTE_ADDR de < PHYSTOP) ''PTE_ADDR(*pgdir) < PHYSTOP'') (\<lambda>_.
           foldE (printPageMappings_pte i tab) [0..<NPTENTRIES] s)))"

definition printPageMappings :: "proc \<Rightarrow> kst \<Rightarrow> kerror + kst" where
  "printPageMappings p s =
    bindE (kprintf (bytes ''Page mappings:'' @ [10]) [] s) (\<lambda>s.
    let pgdir = p_pgdir p in
    bindE (assertE (V2P pgdir < PHYSTOP) ''(uint)V2P(pgdir) < PHYSTOP'') (\<lambda>_.
      foldE (printPageMappings_pde pgdir) [0..<NPDENTRIES] s))"


section \<open>Swap state\<close>

definition printSwapTable :: "proc \<Rightarrow> kst \<Rightarrow> kerror + kst" where
  "printSwapTable p s =
    bindE (kprintf (bytes ''VPA_Swap [vpn:prsnt]: '') [] s) (\<lambda>s.
    bindE (foldE (\<lambda>e. kprintf (bytes ''[%p:%d] '') [drop_bit 12 (SWAP_ADDR e), if e AND SWAP_P \<noteq> 0 then 1 else 0]) (VPA_Swap p) s)
      (kprintf [10] []))"

definition printSwapInfo :: "proc \<Rightarrow> kst \<Rightarrow> kerror + kst" where
  "printSwapInfo p s =
    bindE (kprintf (bytes ''Swap info:'' @ [10]) [] s) (\<lambda>s.
    bindE (kprintf (bytes ''NFU mem_size: %d [vpn:cnt]: '') [size_mem p] s) (\<lambda>s.
    bindE (foldE (\<lambda>i. kprintf (bytes ''[%p:%d] '') [drop_bit 12 (MEM_ADDR (VPA_Memory p ! i)), NFU_MEM_COUNTER (VPA_Memory p ! i)])
             [0..<unat (size_mem p)] s) (\<lambda>s.
    bindE (kprintf [10] [] s) (printSwapTable p))))"

definition printSwapInfo_fifo :: "proc \<Rightarrow> kst \<Rightarrow> kerror + kst" where
  "printSwapInfo_fifo p s =
    bindE (kprintf (bytes ''Swap info:'' @ [10]) [] s) (\<lambda>s.
    bindE (kprintf ([9] @ bytes ''FIFO swap head %d tail %d size %d'' @ [10]) [of_int (q_head p), of_int (q_tail p), size_mem p] s) (\<lambda>s.
    bindE (kprintf ([9] @ bytes ''FIFO VPA_Memory: '') [] s) (\<lambda>s.
    bindE (foldE (\<lambda>i. kprintf (bytes ''%p '') [drop_bit 12 (MEM_ADDR (VPA_Memory p ! nat ((int i + q_head p) mod int MAX_PSYC_PAGES)))])
             [0..<unat (size_mem p)] s) (\<lambda>s.
    bindE (kprintf [10] [] s) (printSwapTable p)))))"

definition INFO_STR :: "string \<Rightarrow> uchar list" where
  "INFO_STR x = [27] @ bytes ''[32m'' @ bytes x @ [10] @ [27] @ bytes ''[0m''"

definition printMemoryInfo :: "proc \<Rightarrow> kst \<Rightarrow> kerror + kst" where
  "printMemoryInfo p s =
    (if p_state p = ZOMBIE then Inr s
     else if p_state p = EMBRYO then Inr s
     else
       bindE (printPageTables p s) (\<lambda>s.
       bindE (printPageMappings p s) (\<lambda>s.
       bindE (kprintf (INFO_STR ''total_free_pages = 0x%p'') [of_int (total_free_pages (kmm s))] s) (\<lambda>s.
       bindE (printSwapInfo p s) (kprintf [10] [])))))"


section \<open>The listing\<close>

fun state_name :: "procstate \<Rightarrow> uchar list" where
  "state_name UNUSED = bytes ''unused''"
| "state_name EMBRYO = bytes ''embryo''"
| "state_name SLEEPING = bytes ''sleep ''"
| "state_name RUNNABLE = bytes ''runble''"
| "state_name RUNNING = bytes ''run   ''"
| "state_name ZOMBIE = bytes ''zombie''"

definition procdump_proc :: "(nat \<Rightarrow> uint) \<Rightarrow> nat \<Rightarrow> kst \<Rightarrow> kerror + kst" where
  "procdump_proc ebp i s =
    (let p = procs s i in
     if p_state p = UNUSED then Inr s
     else
       bindE (kprintf_str (\<lambda>a. if a = 1 then state_name (p_state p) else p_name p) (bytes ''%d %s %s'') [p_pid p, 1, 2] s) (\<lambda>s.
       bindE (if p_state p = SLEEPING
              then foldE (\<lambda>pc. kprintf (bytes '' %p'') [pc]) (takeWhile (\<lambda>pc. pc \<noteq> 0) (getcallerpcs (kld s) (ebp i + 8))) s
              else Inr s) (\<lambda>s.
       bindE (kprintf [10] [] s) (printMemoryInfo p))))"

definition procdump :: "(nat \<Rightarrow> uint) \<Rightarrow> kst \<Rightarrow> kerror + kst" where
  "procdump ebp s = foldE (procdump_proc ebp) [0..<NPROC] s"

end
