(* ===== verification/Trap.thy ===== *)
theory Trap
  imports Exec Procdump
begin

text \<open>
  The system calls of \<^verbatim>\<open>sysproc.c\<close>, the dispatcher of \<^verbatim>\<open>syscall.c\<close> and \<open>trap\<close> of \<^verbatim>\<open>trap.c\<close>. A system call
  that does not return has no value. What \<open>trap\<close> reads from the hardware is an argument: the processor
  number, the faulting address, the characters that the keyboard and the serial port deliver, and for the process listing
  the frame pointers saved on the kernel stacks.
\<close>

section \<open>sysproc.c\<close>

definition sys_fork :: "kst \<Rightarrow> kerror + int \<times> kst" where
  "sys_fork s = fork s"

definition sys_exit :: "kst \<Rightarrow> kerror + kst" where
  "sys_exit s = exit s"

definition sys_wait :: "kst \<Rightarrow> kerror + int \<times> kst" where
  "sys_wait s = wait s"

definition sys_kill :: "kst \<Rightarrow> kerror + int \<times> kst" where
  "sys_kill s =
    bindE (argint 0 s) (\<lambda>(pid, s).
      case pid of None \<Rightarrow> Inr (-1, s) | Some pid \<Rightarrow> Inr (kill pid s))"

definition sys_getpid :: "kst \<Rightarrow> kerror + int \<times> kst" where
  "sys_getpid = with_me (\<lambda>p s. Inr (sint (p_pid (procs s p)), s))"

definition sys_sbrk :: "kst \<Rightarrow> kerror + int \<times> kst" where
  "sys_sbrk = with_me (\<lambda>p s.
    bindE (argint 0 s) (\<lambda>(n, s).
      case n of None \<Rightarrow> Inr (-1, s)
      | Some n \<Rightarrow>
        let addr = sint (p_sz (procs s p)) in
        bindE (growproc n s) (\<lambda>(r, s). Inr (if r < 0 then -1 else addr, s))))"

text \<open>The loop of \<open>sys_sleep\<close> started at \<open>ticks0\<close>; a comparison of unsigned numbers.\<close>

definition sys_sleep_from :: "uint \<Rightarrow> uint \<Rightarrow> kst \<Rightarrow> kerror + int \<times> kst" where
  "sys_sleep_from n ticks0 = with_me (\<lambda>p s.
    if ticks s - ticks0 < n then
      (if p_killed (procs s p) then Inr (-1, s) else Inl (Sleep ChTicks))
    else Inr (0, s))"

definition sys_sleep :: "kst \<Rightarrow> kerror + int \<times> kst" where
  "sys_sleep s =
    bindE (argint 0 s) (\<lambda>(n, s).
      case n of None \<Rightarrow> Inr (-1, s) | Some n \<Rightarrow> sys_sleep_from n (ticks s) s)"

definition sys_uptime :: "kst \<Rightarrow> kerror + int \<times> kst" where
  "sys_uptime s = Inr (sint (ticks s), s)"


section \<open>The dispatcher\<close>

definition returns :: "(kst \<Rightarrow> kerror + int \<times> kst) \<Rightarrow> kst \<Rightarrow> kerror + int option \<times> kst" where
  "returns f s = bindE (f s) (\<lambda>(r, s). Inr (Some r, s))"

definition syscalls :: "uint \<Rightarrow> (kst \<Rightarrow> kerror + int option \<times> kst) option" where
  "syscalls num =
    (if num = 1 then Some (returns sys_fork)
     else if num = 2 then Some (\<lambda>s. bindE (sys_exit s) (\<lambda>s. Inr (None, s)))
     else if num = 3 then Some (returns sys_wait)
     else if num = 4 then Some (returns sys_pipe)
     else if num = 5 then Some (returns sys_read)
     else if num = 6 then Some (returns sys_kill)
     else if num = 7 then Some (returns sys_exec)
     else if num = 8 then Some (returns sys_fstat)
     else if num = 9 then Some (returns sys_chdir)
     else if num = 10 then Some (returns sys_dup)
     else if num = 11 then Some (returns sys_getpid)
     else if num = 12 then Some (returns sys_sbrk)
     else if num = 13 then Some (returns sys_sleep)
     else if num = 14 then Some (returns sys_uptime)
     else if num = 15 then Some (returns sys_open)
     else if num = 16 then Some (returns sys_write)
     else if num = 17 then Some (returns sys_mknod)
     else if num = 18 then Some (returns sys_unlink)
     else if num = 19 then Some (returns sys_link)
     else if num = 20 then Some (returns sys_mkdir)
     else if num = 21 then Some (returns sys_close)
     else None)"

text \<open>The wakeups that a call asks for have happened when it ends.\<close>

definition syscall :: "kst \<Rightarrow> kerror + kst" where
  "syscall = with_me (\<lambda>p s.
    let x = procs s p; num = tf_eax (p_tf x) in
    case syscalls num of
      Some f \<Rightarrow>
        bindE (f s) (\<lambda>(r, s).
          let s = deliver s in
          Inr (case r of None \<Rightarrow> s
               | Some r \<Rightarrow> upd_proc p (\<lambda>x. x\<lparr>p_tf := (p_tf x)\<lparr>tf_eax := of_int r\<rparr>\<rparr>) s))
    | None \<Rightarrow>
        bindE (kprintf_str (\<lambda>_. p_name x) (bytes ''%d %s: unknown sys call %d'' @ [10]) [p_pid x, 1, num] s) (\<lambda>s.
          Inr (upd_proc p (\<lambda>x. x\<lparr>p_tf := (p_tf x)\<lparr>tf_eax := -1\<rparr>\<rparr>) s)))"


section \<open>Traps\<close>

abbreviation (input) T_SYSCALL :: uint where "T_SYSCALL \<equiv> 64"
abbreviation (input) T_PGFLT :: uint where "T_PGFLT \<equiv> 14"
abbreviation (input) T_IRQ0 :: uint where "T_IRQ0 \<equiv> 32"

definition killed_now :: "kst \<Rightarrow> bool" where
  "killed_now s = (case cur s of None \<Rightarrow> False | Some p \<Rightarrow> p_killed (procs s p))"

text \<open>\<open>if(cond) exit();\<close>: what follows does not run when the process has left.\<close>

definition exit_if :: "bool \<Rightarrow> kst \<Rightarrow> kerror + kst" where
  "exit_if b s = (if b then exit s else Inr s)"

definition kconsoleintr :: "(nat \<Rightarrow> uint) \<Rightarrow> uint list \<Rightarrow> kst \<Rightarrow> kerror + kst" where
  "kconsoleintr ebp cs s =
    (let t = fsys (fil s) in
     bindE (consoleintr cs (cons t)) (\<lambda>(doprocdump, c).
       let s = deliver (s\<lparr>fil := (fil s)\<lparr>fsys := t\<lparr>cons := c\<rparr>\<rparr>\<rparr>) in
       if doprocdump then procdump ebp s else Inr s))"

definition trap_default :: "trapframe \<Rightarrow> uint \<Rightarrow> uint \<Rightarrow> kst \<Rightarrow> kerror + kst" where
  "trap_default tf cpuid cr2 s =
    (case (if tf_cs tf AND 3 = 0 then None else cur s) of
       None \<Rightarrow>
         bindE (kprintf (bytes ''unexpected trap %d from cpu %d eip %x (cr2=0x%x)'' @ [10]) [tf_trapno tf, cpuid, tf_eip tf, cr2] s) (\<lambda>_.
           Inl (Panic ''trap''))
     | Some p \<Rightarrow>
         let x = procs s p in
         bindE (kprintf_str (\<lambda>_. p_name x)
                  (bytes ''pid %d %s: trap %d err %d on cpu %d eip 0x%x addr 0x%x--kill proc'' @ [10])
                  [p_pid x, 1, tf_trapno tf, tf_err tf, cpuid, tf_eip tf, cr2] s) (\<lambda>s.
           Inr (upd_proc p (\<lambda>x. x\<lparr>p_killed := True\<rparr>) s)))"

definition trap_dispatch :: "trapframe \<Rightarrow> uint \<Rightarrow> uint \<Rightarrow> (nat \<Rightarrow> uint) \<Rightarrow> uint list \<Rightarrow> kst \<Rightarrow> kerror + kst" where
  "trap_dispatch tf cpuid cr2 ebp chars s =
    (let no = tf_trapno tf in
     if no = T_IRQ0 then
       bindE (nfu_Increment_Counter (cur s) s) (\<lambda>s.
         Inr (if cpuid = 0 then wakeup ChTicks (s\<lparr>ticks := ticks s + 1\<rparr>) else s))
     else if no = T_IRQ0 + 14 \<or> no = T_IRQ0 + 15 then Inr s
     else if no = T_IRQ0 + 1 \<or> no = T_IRQ0 + 4 then kconsoleintr ebp chars s
     else if no = T_IRQ0 + 7 \<or> no = T_IRQ0 + 31 then
       kprintf (bytes ''cpu%d: spurious interrupt at %x:%x'' @ [10]) [cpuid, ucast (tf_cs tf), tf_eip tf] s
     else if no = T_PGFLT then
       bindE (recoverPageFault cr2 s) (\<lambda>(r, s). if r = 0 then Inr s else trap_default tf cpuid cr2 s)
     else trap_default tf cpuid cr2 s)"

definition trap :: "trapframe \<Rightarrow> uint \<Rightarrow> uint \<Rightarrow> (nat \<Rightarrow> uint) \<Rightarrow> uint list \<Rightarrow> kst \<Rightarrow> kerror + kst" where
  "trap tf cpuid cr2 ebp chars s =
    (if tf_trapno tf = T_SYSCALL then
       with_me (\<lambda>p s.
         if p_killed (procs s p) then exit s
         else
           bindE (syscall (upd_proc p (\<lambda>x. x\<lparr>p_tf := tf\<rparr>) s)) (\<lambda>s. exit_if (killed_now s) s)) s
     else
       let user = (tf_cs tf AND 3 = 3) in
       bindE (trap_dispatch tf cpuid cr2 ebp chars s) (\<lambda>s.
         if killed_now s \<and> user then exit s
         else case cur s of
           None \<Rightarrow> Inr s
         | Some p \<Rightarrow>
           if p_state (procs s p) = RUNNING \<and> tf_trapno tf = T_IRQ0 then yield s else exit_if (killed_now s \<and> user) s))"

text \<open>The rest of \<open>trap\<close> when the scheduler comes back to a process that has yielded.\<close>

definition trap_resume :: "trapframe \<Rightarrow> kst \<Rightarrow> kerror + kst" where
  "trap_resume tf s = exit_if (killed_now s \<and> tf_cs tf AND 3 = 3) s"

end
