(* ===== verification/Frame.thy ===== *)
theory Frame
  imports Trap
begin

text \<open>
  What most of the kernel leaves alone. \<open>kframe s t\<close> says that the current process, the loaded page table, the
  initial process and, for every slot of the process table, the state, the kernel stack, the page table and the
  parent are the same in \<open>t\<close> as in \<open>s\<close>; \<open>frames s m\<close> says this of the state in which the computation \<open>m\<close> returns.
  The rules of the collection \<open>frame_intros\<close> follow the structure of a definition.
\<close>

named_theorems frame_intros
named_theorems frame_dests

definition core :: "proc \<Rightarrow> procstate \<times> uint \<times> uint \<times> nat option" where
  "core x = (p_state x, p_kstack x, p_pgdir x, p_parent x)"

definition kframe :: "kst \<Rightarrow> kst \<Rightarrow> bool" where
  "kframe s t \<longleftrightarrow> cur t = cur s \<and> cr3 t = cr3 s \<and> initproc t = initproc s \<and> (\<forall>p. core (procs t p) = core (procs s p))"

definition frames :: "kst \<Rightarrow> kerror + 'a \<times> kst \<Rightarrow> bool" where
  "frames s m \<longleftrightarrow> (\<forall>x t. m = Inr (x, t) \<longrightarrow> kframe s t)"

definition frames0 :: "kst \<Rightarrow> kerror + kst \<Rightarrow> bool" where
  "frames0 s m \<longleftrightarrow> (\<forall>t. m = Inr t \<longrightarrow> kframe s t)"

lemma kframe_refl [simp]: "kframe s s"
  by (simp add: kframe_def)

lemma kframe_trans: "kframe s t \<Longrightarrow> kframe t u \<Longrightarrow> kframe s u"
  by (simp add: kframe_def)

lemma frames_mono: "frames t m \<Longrightarrow> kframe s t \<Longrightarrow> frames s m"
  by (auto simp: frames_def intro: kframe_trans)

lemma frames0_mono: "frames0 t m \<Longrightarrow> kframe s t \<Longrightarrow> frames0 s m"
  by (auto simp: frames0_def intro: kframe_trans)

lemma frames_basic [frame_intros]:
  "kframe s t \<Longrightarrow> frames s (Inr (x, t))" "frames s (Inl e)" "kframe s t \<Longrightarrow> frames0 s (Inr t)" "frames0 s (Inl e)"
  by (simp_all add: frames_def frames0_def)

lemma frames_bind [frame_intros]:
  "frames s m \<Longrightarrow> (\<And>x t. kframe s t \<Longrightarrow> frames s (g (x, t))) \<Longrightarrow> frames s (bindE m g)"
  "frames0 s n \<Longrightarrow> (\<And>t. kframe s t \<Longrightarrow> frames s (h t)) \<Longrightarrow> frames s (bindE n h)"
  "frames s m \<Longrightarrow> (\<And>x t. kframe s t \<Longrightarrow> frames0 s (g' (x, t))) \<Longrightarrow> frames0 s (bindE m g')"
  "frames0 s n \<Longrightarrow> (\<And>t. kframe s t \<Longrightarrow> frames0 s (h' t)) \<Longrightarrow> frames0 s (bindE n h')"
  by (auto simp: frames_def frames0_def bindE_eq_Inr)

text \<open>Computations without a state.\<close>

lemma frames_bind_pure [frame_intros]:
  fixes a :: "kerror + unit" and b :: "kerror + uint" and c :: "kerror + uchar list" and d :: "kerror + bool"
  shows "(\<And>x. a = Inr x \<Longrightarrow> frames s (f x)) \<Longrightarrow> frames s (bindE a f)"
    and "(\<And>x. b = Inr x \<Longrightarrow> frames s (g x)) \<Longrightarrow> frames s (bindE b g)"
    and "(\<And>x. c = Inr x \<Longrightarrow> frames s (h x)) \<Longrightarrow> frames s (bindE c h)"
    and "(\<And>x. a = Inr x \<Longrightarrow> frames0 s (f' x)) \<Longrightarrow> frames0 s (bindE a f')"
    and "(\<And>x. d = Inr x \<Longrightarrow> frames0 s (g' x)) \<Longrightarrow> frames0 s (bindE d g')"
  by (auto simp: frames_def frames0_def bindE_eq_Inr)

lemma frames_foldE [frame_intros]:
  "kframe s t \<Longrightarrow> (\<And>x u. x \<in> set xs \<Longrightarrow> kframe s u \<Longrightarrow> frames0 s (f x u)) \<Longrightarrow> frames0 s (foldE f xs t)"
  by (induction xs arbitrary: t) (auto intro!: frame_intros)

lemma frames_with_me [frame_intros]:
  "(\<And>p. cur t = Some p \<Longrightarrow> frames s (f p t)) \<Longrightarrow> frames s (with_me f t)"
  "(\<And>p. cur t = Some p \<Longrightarrow> frames0 s (f' p t)) \<Longrightarrow> frames0 s (with_me f' t)"
  by (auto simp: with_me_def frames_def frames0_def split: option.splits)


section \<open>Updates of the state\<close>

lemma kframe_updates [simp]:
  "kframe s (set_kmm k t) = kframe s t" "kframe s (set_memory m t) = kframe s t" "kframe s (kst32 a v t) = kframe s t"
  "kframe s (t\<lparr>fil := f\<rparr>) = kframe s t" "kframe s (t\<lparr>ticks := n\<rparr>) = kframe s t" "kframe s (t\<lparr>nextpid := m'\<rparr>) = kframe s t"
  "kframe s (t\<lparr>forkret_first := b\<rparr>) = kframe s t"
  by (simp_all add: kframe_def set_kmm_def set_memory_def kst32_def)

lemma kframe_upd_proc [simp]: "(\<And>x. core (f x) = core x) \<Longrightarrow> kframe s (upd_proc p f t) = kframe s t"
  by (auto simp: kframe_def upd_proc_def)

lemma kframe_cr3: "cr3 t = a \<Longrightarrow> kframe s (t\<lparr>cr3 := a\<rparr>) = kframe s t"
  by (auto simp: kframe_def)

lemma core_updates [simp]:
  "core (x\<lparr>p_sz := a\<rparr>) = core x" "core (x\<lparr>p_tf := tf\<rparr>) = core x" "core (x\<lparr>p_chan := c\<rparr>) = core x" "core (x\<lparr>p_killed := k\<rparr>) = core x"
  "core (x\<lparr>p_ofile := fd\<rparr>) = core x" "core (x\<lparr>p_cwd := w\<rparr>) = core x" "core (x\<lparr>p_name := n\<rparr>) = core x" "core (x\<lparr>p_swapFile := f\<rparr>) = core x"
  "core (x\<lparr>VPA_Swap := vs\<rparr>) = core x" "core (x\<lparr>VPA_Memory := vm\<rparr>) = core x" "core (x\<lparr>size_mem := m\<rparr>) = core x"
  "core (x\<lparr>p_pid := i\<rparr>) = core x" "core (x\<lparr>p_context := cx\<rparr>) = core x"
  by (simp_all add: core_def)


section \<open>Lower layers\<close>

lemma layer_frames [frame_intros]:
  "kframe s t \<Longrightarrow> frames0 s (kfil f t)" "kframe s t \<Longrightarrow> frames s (kfil_val g t)"
  "kframe s t \<Longrightarrow> frames0 s (kfs h t)" "kframe s t \<Longrightarrow> frames s (kfs_val h' t)"
  "kframe s t \<Longrightarrow> frames0 s (k_kfree v t)" "kframe s t \<Longrightarrow> frames s (k_mappages d va sz pa perm t)"
  "kframe s t \<Longrightarrow> frames0 s (kprintf_str str fmt args t)" "kframe s t \<Longrightarrow> frames0 s (kprintf fmt args t)"
  by (auto simp: frames_def frames0_def kfil_def kfil_val_def kfs_def kfs_val_def k_kfree_def k_mappages_def kprintf_str_def
      kprintf_def bindE_eq_Inr lift_eq_Inr Let_def)

lemma layer_dests [frame_dests]:
  "k_walkpgdir d va a s = (pte, t) \<Longrightarrow> \<forall>u. kframe u t = kframe u s"
  "k_kalloc s = (m, t) \<Longrightarrow> \<forall>u. kframe u t = kframe u s"
  by (auto simp: k_walkpgdir_def k_kalloc_def Let_def split: prod.splits)


lemma dump_frames [frame_intros]: "kframe s t \<Longrightarrow> frames0 s (printMemoryInfo p t)"
  unfolding printMemoryInfo_def printPageTables_def printPageTables_pde_def printPageTables_pte_def printPageMappings_def
    printPageMappings_pde_def printPageMappings_pte_def printSwapInfo_def printSwapTable_def Let_def
  by (auto intro!: frame_intros)

lemma procdump_frames [frame_intros]: "kframe s t \<Longrightarrow> frames0 s (procdump ebp t)"
  unfolding procdump_def procdump_proc_def Let_def by (auto intro!: frame_intros)


section \<open>Swapping\<close>

lemma swapfile_frames [frame_intros]:
  "kframe s t \<Longrightarrow> frames s (removeSwapFile p t)" "kframe s t \<Longrightarrow> frames s (createSwapFile p t)"
  "kframe s t \<Longrightarrow> frames s (writeToSwapFile p b a t)" "kframe s t \<Longrightarrow> frames s (readFromSwapFile p v a n t)"
  unfolding removeSwapFile_def createSwapFile_def writeToSwapFile_def readFromSwapFile_def
  by (auto intro!: frame_intros simp: Let_def split: option.splits prod.splits)

lemma initSwap_loop_frames: "kframe s t \<Longrightarrow> frames s (initSwap_loop p pp buff is j t)"
  by (induction "is" arbitrary: j t)
    (auto intro!: frame_intros simp: Let_def split: option.splits prod.splits)

lemma swap_frames [frame_intros]:
  "kframe s t \<Longrightarrow> frames s (initSwap p t)" "kframe s t \<Longrightarrow> frames s (initFreshSwap p t)" "kframe s t \<Longrightarrow> frames s (destroySwap p t)"
  "kframe s t \<Longrightarrow> frames s (moveToSwap p i j t)" "kframe s t \<Longrightarrow> frames s (moveFromSwap p vpa m t)"
  unfolding initSwap_def initFreshSwap_def destroySwap_def moveToSwap_def moveFromSwap_def
  by (auto intro!: frame_intros initSwap_loop_frames simp: Let_def kframe_cr3 split: option.splits prod.splits dest!: frame_dests)

lemma restoreSwap_loop_frames: "kframe s t \<Longrightarrow> frames s (restoreSwap_loop p is t)"
  by (induction "is" arbitrary: t)
    (auto intro!: frame_intros simp: Let_def kframe_cr3 split: option.splits prod.splits dest!: frame_dests)

lemma link_frames [frame_intros]:
  "kframe s t \<Longrightarrow> frames s (restoreSwap p t)" "kframe s t \<Longrightarrow> frames s (linkNewPage p vpa t)" "kframe s t \<Longrightarrow> frames0 s (nfu_count p i t)"
  unfolding restoreSwap_def linkNewPage_def nfu_count_def
  by (auto intro!: frame_intros restoreSwap_loop_frames simp: Let_def split: option.splits prod.splits dest!: frame_dests)

lemma unlinkPage_frames [frame_intros]: "kframe s t \<Longrightarrow> frames s (unlinkPage p vpa t)"
proof -
  have "core x = core (procs t p)" if "unlink_page vpa (procs t p) = Inr (r, x)" for r x
    using that by (auto simp: unlink_page_def unlink_swap_def bindE_eq_Inr Let_def split: option.splits)
  then show "kframe s t \<Longrightarrow> frames s (unlinkPage p vpa t)"
    by (auto simp: unlinkPage_def frames_def bindE_eq_Inr kframe_def upd_proc_def)
qed

lemma fault_frames [frame_intros]:
  "kframe s t \<Longrightarrow> frames s (recoverPageFault va t)" "kframe s t \<Longrightarrow> frames0 s (nfu_Increment_Counter po t)"
  unfolding recoverPageFault_def nfu_Increment_Counter_def
  by (auto intro!: frame_intros simp: Let_def kframe_cr3 split: option.splits prod.splits dest!: frame_dests)


section \<open>Address spaces\<close>

lemma run_pages_frames [frame_intros]:
  assumes "kframe s t" and "\<And>a t. kframe s t \<Longrightarrow> frames s (body a t)"
  shows "frames s (run_pages body a b t)"
proof -
  have "bd = body \<longrightarrow> kframe s t \<longrightarrow> frames s m" if "for_pages bd a b t = Some m" for bd a b t m
  proof (rule for_pages.raw_induct [where P = "\<lambda>bd a b t m. bd = body \<longrightarrow> kframe s t \<longrightarrow> frames s m", OF _ that], intro impI)
    fix f bd a b t m
    assume IH: "\<And>bd a b t m. f bd a b t = Some m \<Longrightarrow> bd = body \<longrightarrow> kframe s t \<longrightarrow> frames s m"
      and eq: "(if a < b then case bd a t of Inl e \<Rightarrow> Some (Inl e) | Inr (next, t) \<Rightarrow>
            case next of Break r \<Rightarrow> Some (Inr (Some r, t)) | Continue a' \<Rightarrow> f bd (a' + PGSIZE) b t
         else Some (Inr (None, t))) = Some m" and bd: "bd = body" and t: "kframe s t"
    have "kframe s u" if "bd a t = Inr (x, u)" for x u using assms(2) [OF t, of a] that bd by (auto simp: frames_def)
    then show "frames s m" using eq IH bd t
      by (auto simp: frames_basic split: if_splits sum.splits prod.splits page_loop.splits)
  qed
  then show ?thesis using assms(1) by (auto simp: run_pages_def frames_basic split: option.splits)
qed

lemma unlink_mine_frames [frame_intros]: "kframe s t \<Longrightarrow> frames0 s (unlink_mine a msg t)"
  unfolding unlink_mine_def by (auto intro!: frame_intros)

lemma dealloc_body_frames: "kframe s t \<Longrightarrow> frames s (dealloc_body d oldsz a t)"
  unfolding dealloc_body_def
  by (auto intro!: frame_intros simp: Let_def split: prod.splits dest!: frame_dests)

lemma dealloc_frames [frame_intros]:
  "kframe s t \<Longrightarrow> frames s (deallocuvm d oldsz newsz t)" "kframe s t \<Longrightarrow> frames0 s (freevm_entry d i t)"
  unfolding deallocuvm_def freevm_entry_def
  by (auto intro!: frame_intros dealloc_body_frames simp: Let_def split: prod.splits dest!: frame_dests)

lemma freevm_frames [frame_intros]: "kframe s t \<Longrightarrow> frames0 s (freevm d t)"
  unfolding freevm_def by (auto intro!: frame_intros simp: Let_def simp del: upt_rec_numeral split: prod.splits)

lemma setupkvm_loop_frames: "kframe s t \<Longrightarrow> frames s (setupkvm_loop d ks t)"
  by (induction ks arbitrary: t) (auto intro!: frame_intros split: prod.splits)

lemma fold_kframe: "(\<And>x t. kframe s (f x t) = kframe s t) \<Longrightarrow> kframe s (fold f xs t) = kframe s t"
  by (induction xs arbitrary: t) simp_all

lemma fold_clear_frame [simp]: "kframe s (fold (clear_user_entry d) xs t) = kframe s t"
  by (rule fold_kframe) (simp add: clear_user_entry_def)

lemma setup_frames [frame_intros]:
  "kframe s t \<Longrightarrow> frames s (setupkvm t)" "kframe s t \<Longrightarrow> frames0 s (inituvm d init t)" "kframe s t \<Longrightarrow> frames0 s (clearpteu d va t)"
  unfolding setupkvm_def inituvm_def clearpteu_def
  by (auto intro!: frame_intros setupkvm_loop_frames simp: Let_def simp del: upt_rec_numeral split: prod.splits dest!: frame_dests)

lemma body_frames:
  "kframe s t \<Longrightarrow> frames s (loaduvm_body d addr ip off sz i t)" "kframe s t \<Longrightarrow> frames s (allocuvm_body d oldsz newsz a t)"
  "kframe s t \<Longrightarrow> frames s (copyuvm_body d e i t)"
  unfolding loaduvm_body_def allocuvm_body_def copyuvm_body_def
  by (auto intro!: frame_intros simp: Let_def split: prod.splits dest!: frame_dests)

lemma uvm_frames [frame_intros]:
  "kframe s t \<Longrightarrow> frames s (loaduvm d addr ip off sz t)" "kframe s t \<Longrightarrow> frames s (allocuvm d oldsz newsz t)"
  "kframe s t \<Longrightarrow> frames s (copyuvm d sz t)"
  unfolding loaduvm_def allocuvm_def copyuvm_def
  by (auto intro!: frame_intros body_frames simp: Let_def split: option.splits prod.splits)

lemma copyout_frames [frame_intros]: "kframe s t \<Longrightarrow> frames s (copyout d va buf t)"
proof (induction "length buf" arbitrary: va buf t rule: less_induct)
  case less
  have "length (drop (min (length buf) (unat (PGSIZE - (va - PGROUNDDOWN va)))) buf) < length buf" if "buf \<noteq> []"
    using that page_rest [of va] by simp
  then show ?case using less
    by (subst copyout.simps) (auto intro!: frame_intros simp: Let_def)
qed


section \<open>System calls\<close>

lemma access_frames [frame_intros]: "kframe s t \<Longrightarrow> frames s (access fl va t)"
  unfolding access_def by (auto intro!: frame_intros simp: Let_def split: prod.splits dest!: frame_dests)

lemma user_frames [frame_intros]:
  "kframe s t \<Longrightarrow> frames s (uload va t)" "kframe s t \<Longrightarrow> frames0 s (ustore va c t)"
  unfolding uload_def ustore_def by (auto intro!: frame_intros)

lemma uread_frames [frame_intros]: "kframe s t \<Longrightarrow> frames s (uread va n t)"
  by (induction n arbitrary: va t) (auto intro!: frame_intros)

lemma uwrite_frames [frame_intros]: "kframe s t \<Longrightarrow> frames0 s (uwrite va cs t)"
  by (induction cs arbitrary: va t) (auto intro!: frame_intros)

lemma fetchstr_loop_frames [frame_intros]: "kframe s t \<Longrightarrow> frames s (fetchstr_loop n a t)"
  by (induction n arbitrary: a t) (auto intro!: frame_intros)

lemma fetch_frames [frame_intros]:
  "kframe s t \<Longrightarrow> frames s (fetchint a t)" "kframe s t \<Longrightarrow> frames s (fetchstr a t)"
  unfolding fetchint_def fetchstr_def by (auto intro!: frame_intros simp: Let_def)

lemma argint_frames [frame_intros]: "kframe s t \<Longrightarrow> frames s (argint n t)"
  unfolding argint_def by (auto intro!: frame_intros)

lemma arg_frames [frame_intros]: "kframe s t \<Longrightarrow> frames s (argptr n k t)" "kframe s t \<Longrightarrow> frames s (argstr n t)"
  unfolding argptr_def argstr_def by (auto intro!: frame_intros simp: Let_def split: option.splits)

lemma argfd_frames [frame_intros]: "kframe s t \<Longrightarrow> frames s (argfd n t)"
  unfolding argfd_def by (auto intro!: frame_intros simp: Let_def split: option.splits)

lemma arg_buffer_frames [frame_intros]: "kframe s t \<Longrightarrow> frames s (arg_buffer t)"
  unfolding arg_buffer_def by (auto intro!: frame_intros simp: Let_def split: option.splits)

lemma fdalloc_dest [frame_dests]: "fdalloc p f s = (r, t) \<Longrightarrow> \<forall>u. kframe u t = kframe u s"
  by (auto simp: fdalloc_def split: option.splits)

lemma store_stat_frames [frame_intros]: "kframe s t \<Longrightarrow> frames0 s (store_stat a st t)"
  unfolding store_stat_def by (auto intro!: frame_intros)

lemma bad_frames [frame_intros]:
  "kframe s t \<Longrightarrow> frames s (open_bad fo ip t)" "kframe s t \<Longrightarrow> frames s (pipe_bad rf wfile t)" "kframe s t \<Longrightarrow> frames s (mknod_args t)"
  unfolding open_bad_def pipe_bad_def mknod_args_def by (auto intro!: frame_intros split: option.splits)

lemma sysfile_frames [frame_intros]:
  "kframe s t \<Longrightarrow> frames s (sys_dup t)" "kframe s t \<Longrightarrow> frames s (sys_read t)" "kframe s t \<Longrightarrow> frames s (sys_write t)"
  "kframe s t \<Longrightarrow> frames s (sys_close t)" "kframe s t \<Longrightarrow> frames s (sys_fstat t)" "kframe s t \<Longrightarrow> frames s (sys_link t)"
  "kframe s t \<Longrightarrow> frames s (sys_unlink t)" "kframe s t \<Longrightarrow> frames s (sys_open t)" "kframe s t \<Longrightarrow> frames s (sys_mkdir t)"
  "kframe s t \<Longrightarrow> frames s (sys_mknod t)" "kframe s t \<Longrightarrow> frames s (sys_chdir t)" "kframe s t \<Longrightarrow> frames s (sys_pipe t)"
  unfolding sys_dup_def sys_read_def sys_write_def sys_close_def sys_fstat_def sys_link_def sys_unlink_def sys_open_def
    sys_mkdir_def sys_mknod_def sys_chdir_def sys_pipe_def
  by (auto intro!: frame_intros simp: Let_def split: option.splits prod.splits dest!: frame_dests)

end
