(* ===== verification/Fsrel.thy ===== *)
theory Fsrel
  imports Fs
begin

text \<open>
  The file system over block contents. \<open>fs_rel\<close> relates a state inside a transaction to the contents of
  all blocks as the running system sees them, with the number of blocks in the log and the blocks whose
  buffers are held; through it every operation of \<^verbatim>\<open>fs.c\<close> becomes a function on block contents. The
  theory shows what the block allocator, the inode table and reads and writes of files do to them.
\<close>

section \<open>States inside a transaction\<close>

definition fs_rel :: "fsst \<Rightarrow> (uint \<Rightarrow> uchar list) \<Rightarrow> nat \<Rightarrow> uint set \<Rightarrow> bool" where
  "fs_rel s v n H \<longleftrightarrow> layout (lg s) \<and> 1 \<le> l_outstanding (lg s) \<and> l_n (lg s) = int n
     \<and> inj_on (l_block (lg s)) {..<n} \<and> cache_rel (fs_bio s) v (l_block (lg s) ` {..<n}) H
     \<and> (\<forall>k. k \<notin> l_block (lg s) ` {..<n} \<longrightarrow> v k = memdisk (fs_bio s) k)"

text \<open>What an operation on blocks leaves alone.\<close>

definition fs_frame :: "fsst \<Rightarrow> fsst \<Rightarrow> bool" where
  "fs_frame s t \<longleftrightarrow> t = s\<lparr>lg := lg t\<rparr> \<and> l_size (lg t) = l_size (lg s) \<and> l_start (lg t) = l_start (lg s)
     \<and> l_outstanding (lg t) = l_outstanding (lg s) \<and> l_committing (lg t) = l_committing (lg s)
     \<and> l_dev (lg t) = l_dev (lg s)
     \<and> disksize (fs_bio t) = disksize (fs_bio s) \<and> mypid (fs_bio t) = mypid (fs_bio s)
     \<and> memdisk (fs_bio t) = memdisk (fs_bio s)"

lemma fs_frame_refl [simp]: "fs_frame s s"
  by (simp add: fs_frame_def)

lemma fs_frame_trans [trans]: "fs_frame s t \<Longrightarrow> fs_frame t u \<Longrightarrow> fs_frame s u"
  unfolding fs_frame_def by (metis (no_types, lifting) fsst.surjective fsst.update_convs(1))

lemma fs_frameD:
  assumes "fs_frame s t"
  shows "inodes t = inodes s" "sb t = sb s" "devsw_read t = devsw_read s" "devsw_write t = devsw_write s"
    "cons t = cons s" "my_killed t = my_killed s" "my_cwd t = my_cwd s" "l_size (lg t) = l_size (lg s)"
    "disksize (fs_bio t) = disksize (fs_bio s)" "mypid (fs_bio t) = mypid (fs_bio s)"
    "memdisk (fs_bio t) = memdisk (fs_bio s)"
proof -
  have t: "t = s\<lparr>lg := lg t\<rparr>" using assms by (simp add: fs_frame_def)
  show "inodes t = inodes s" by (subst t) simp
  show "sb t = sb s" by (subst t) simp
  show "devsw_read t = devsw_read s" by (subst t) simp
  show "devsw_write t = devsw_write s" by (subst t) simp
  show "cons t = cons s" by (subst t) simp
  show "my_killed t = my_killed s" by (subst t) simp
  show "my_cwd t = my_cwd s" by (subst t) simp
qed (use assms in \<open>auto simp: fs_frame_def\<close>)

lemma set_bio_sel [simp]:
  "fs_bio (set_bio t s) = t" "lg (set_bio t s) = (lg s)\<lparr>lbio := t\<rparr>" "inodes (set_bio t s) = inodes s"
  by (simp_all add: set_bio_def fs_bio_def)

lemma set_bio_frame:
  "memdisk t = memdisk (fs_bio s) \<Longrightarrow> disksize t = disksize (fs_bio s) \<Longrightarrow> mypid t = mypid (fs_bio s) \<Longrightarrow>
    fs_frame s (set_bio t s)"
  by (simp add: fs_frame_def set_bio_def fs_bio_def)

lemma fs_relD:
  assumes "fs_rel s v n H"
  shows "cache_rel (fs_bio s) v (l_block (lg s) ` {..<n}) H" "length (v k) = 512" "layout (lg s)" "finite H"
    "card (l_block (lg s) ` {..<n} \<union> H) \<le> n + card H"
proof -
  show R: "cache_rel (fs_bio s) v (l_block (lg s) ` {..<n}) H" and "layout (lg s)"
    using assms by (auto simp: fs_rel_def)
  show "length (v k) = 512" using cache_relD(9) [OF R] .
  have "finite {b. b < NBUF \<and> b_refcnt (bufs (fs_bio s) b) \<noteq> 0}" by simp
  then show "finite H" unfolding cache_relD(7) [OF R] by (rule finite_imageI)
  have "card (l_block (lg s) ` {..<n} \<union> H) \<le> card (l_block (lg s) ` {..<n}) + card H" by (rule card_Un_le)
  also have "card (l_block (lg s) ` {..<n}) \<le> n" using card_image_le [of "{..<n}"] by simp
  finally show "card (l_block (lg s) ` {..<n} \<union> H) \<le> n + card H" by simp
qed

lemma fs_rel_bio:
  assumes "fs_rel s v n H" and "cache_rel t v (l_block (lg s) ` {..<n}) H'"
    and "memdisk t = memdisk (fs_bio s)" and "disksize t = disksize (fs_bio s)"
  shows "fs_rel (set_bio t s) v n H'"
  using assms by (auto simp: fs_rel_def layout_def fs_bio_def)

text \<open>Reading, changing and releasing a buffer.\<close>

lemma fs_bread_ok:
  assumes R: "fs_rel s v n H" and "k \<notin> H" and "n + card H < NBUF" and "k < disksize (fs_bio s)"
  shows "\<exists>b t. fs_bread 1 k s = Inr (b, t) \<and> fs_rel t v n (insert k H) \<and> buf_of (fs_bio t) b k \<and> data t b = v k
    \<and> fs_frame s t \<and> (\<forall>c j. buf_of (fs_bio s) c j \<longrightarrow> buf_of (fs_bio t) c j \<and> c \<noteq> b)"
proof -
  let ?D = "l_block (lg s) ` {..<n}"
  have "card (?D \<union> H) < NBUF" using fs_relD(5) [OF R] assms(3) by linarith
  then obtain b t where t: "bread 1 k (fs_bio s) = Inr (b, t)" "cache_rel t v ?D (insert k H)" "buf_of t b k"
    "same_disk (fs_bio s) t" "\<And>c j. buf_of (fs_bio s) c j \<Longrightarrow> buf_of t c j \<and> c \<noteq> b" "b_data (bufs t b) = v k"
    using bread_rel [OF fs_relD(1) [OF R] assms(2) _ assms(4)] by metis
  have m: "memdisk t = memdisk (fs_bio s)" "disksize t = disksize (fs_bio s)" "mypid t = mypid (fs_bio s)"
    using t(4) by (simp_all add: same_disk_def)
  have "fs_bread 1 k s = Inr (b, set_bio t s)" unfolding fs_bread_def using t(1) by (rule lift_Inr)
  then show ?thesis
    using fs_rel_bio [OF R t(2) m(1,2)] set_bio_frame [OF m] t by (intro exI [of _ b] exI [of _ "set_bio t s"]) (simp add: data_def)
qed

lemma buf_of_upd [simp]:
  "buf_of (upd_buf b (b_data_update f) t) = buf_of t" "buf_of (upd_buf b (b_dirty_update g) t) = buf_of t"
  by (auto simp: buf_of_def upd_buf_def fun_eq_iff)

lemma upd_buf_sel [simp]:
  "memdisk (upd_buf b f t) = memdisk t" "disksize (upd_buf b f t) = disksize t" "mypid (upd_buf b f t) = mypid t"
  by (simp_all add: upd_buf_def)

lemma fs_put_ok:
  assumes R: "fs_rel s v n H" and b: "buf_of (fs_bio s) b k" and d: "length d = 512"
    and room: "n < LOGSIZE" "int n < l_size (lg s) - 1"
  shows "\<exists>t m. fs_log_write b (set_data b d s) = Inr t \<and> fs_rel t (v(k := d)) m H \<and> n \<le> m \<and> m \<le> n + 1
    \<and> fs_frame s t \<and> buf_of (fs_bio t) = buf_of (fs_bio s)"
proof -
  let ?D = "l_block (lg s) ` {..<n}" and ?v = "v(k := d)"
  let ?t = "upd_buf b (b_data_update (\<lambda>_. d)) (fs_bio s)" and ?n = "if k \<in> l_block (lg s) ` {..<n} then n else n + 1"
  let ?l = "(lg s)\<lparr>lbio := ?t\<rparr>"
  have C: "cache_rel ?t ?v ?D H" by (rule store_rel [OF fs_relD(1) [OF R] b d])
  have f: "inj_on (l_block ?l) {..<n}" "l_n ?l = int n" "int n < l_size ?l - 1" "1 \<le> l_outstanding ?l"
    "cache_rel (lbio ?l) ?v (l_block ?l ` {..<n}) H" "buf_of (lbio ?l) b k"
    using R room C b by (auto simp: fs_rel_def)
  obtain l where l: "log_write b ?l = Inr l" "l_n l = int ?n" "l_block l ` {..<?n} = insert k ?D"
    "inj_on (l_block l) {..<?n}" "cache_rel (lbio l) ?v (l_block l ` {..<?n}) H"
    "l = ?l\<lparr>l_block := l_block l, l_n := l_n l, lbio := upd_buf b (b_dirty_update (\<lambda>_. True)) (lbio ?l)\<rparr>"
    using log_write_ok [OF f(1,2) room(1) f(3-6)] by auto
  have g: "l_size l = l_size (lg s)" "l_start l = l_start (lg s)" "l_outstanding l = l_outstanding (lg s)"
    "l_committing l = l_committing (lg s)" "l_dev l = l_dev (lg s)"
    "lbio l = upd_buf b (b_dirty_update (\<lambda>_. True)) ?t"
    using arg_cong [OF l(6), of l_size] arg_cong [OF l(6), of l_start] arg_cong [OF l(6), of l_outstanding]
      arg_cong [OF l(6), of l_committing] arg_cong [OF l(6), of l_dev] arg_cong [OF l(6), of lbio] by simp_all
  let ?s = "s\<lparr>lg := l\<rparr>"
  have eq: "fs_log_write b (set_data b d s) = Inr ?s"
    using l(1) by (simp add: fs_log_write_def set_data_def fs_bio_def set_bio_def)
  have mem: "?v j = memdisk (lbio l) j" if "j \<notin> insert k ?D" for j
    using that R by (auto simp: fs_rel_def g(6))
  have "fs_rel ?s ?v ?n H"
    unfolding fs_rel_def fs_bio_def using R l(2-5) g mem by (auto simp: fs_rel_def layout_def fs_bio_def)
  moreover have "fs_frame s ?s" using g by (simp add: fs_frame_def fs_bio_def)
  moreover have "buf_of (fs_bio ?s) = buf_of (fs_bio s)" using g(6) by (simp add: fs_bio_def)
  ultimately show ?thesis using eq by (intro exI [of _ ?s] exI [of _ ?n]) auto
qed

lemma fs_brelse_ok:
  assumes R: "fs_rel s v n H" and b: "buf_of (fs_bio s) b k"
  shows "\<exists>t. fs_brelse b s = Inr t \<and> fs_rel t v n (H - {k}) \<and> fs_frame s t
    \<and> (\<forall>c j. c \<noteq> b \<longrightarrow> buf_of (fs_bio t) c j = buf_of (fs_bio s) c j)"
proof -
  have "k \<in> l_block (lg s) ` {..<n} \<or> v k = memdisk (fs_bio s) k" using R by (auto simp: fs_rel_def)
  then obtain t where t: "brelse b (fs_bio s) = Inr t" "cache_rel t v (l_block (lg s) ` {..<n}) (H - {k})"
    "same_disk (fs_bio s) t" "\<And>c j. c \<noteq> b \<Longrightarrow> buf_of t c j = buf_of (fs_bio s) c j"
    using brelse_rel [OF fs_relD(1) [OF R] b] by blast
  have m: "memdisk t = memdisk (fs_bio s)" "disksize t = disksize (fs_bio s)" "mypid t = mypid (fs_bio s)"
    using t(3) by (simp_all add: same_disk_def)
  have "fs_brelse b s = Inr (set_bio t s)" using t(1) by (simp add: fs_brelse_def)
  then show ?thesis
    using fs_rel_bio [OF R t(2) m(1,2)] set_bio_frame [OF m] t(4) by (intro exI [of _ "set_bio t s"]) simp
qed

text \<open>The two patterns in which the code uses a block.\<close>

lemma fs_read_block:
  assumes "fs_rel s v n H" and "k \<notin> H" and "n + card H < NBUF" and "k < disksize (fs_bio s)"
  shows "\<exists>b t u. fs_bread 1 k s = Inr (b, t) \<and> data t b = v k \<and> fs_frame s t
    \<and> fs_brelse b t = Inr u \<and> fs_rel u v n H \<and> fs_frame s u"
proof -
  obtain b t where t: "fs_bread 1 k s = Inr (b, t)" "fs_rel t v n (insert k H)" "buf_of (fs_bio t) b k"
    "data t b = v k" "fs_frame s t" using fs_bread_ok [OF assms] by blast
  obtain u where u: "fs_brelse b t = Inr u" "fs_rel u v n (insert k H - {k})" "fs_frame t u"
    using fs_brelse_ok [OF t(2,3)] by blast
  have "insert k H - {k} = H" using assms(2) by blast
  then show ?thesis using t u fs_frame_trans by metis
qed

lemma fs_update_block:
  assumes R: "fs_rel s v n H" and k: "k \<notin> H" "n + card H < NBUF" "k < disksize (fs_bio s)"
    and room: "n < LOGSIZE" "int n < l_size (lg s) - 1" and len: "length (f (v k)) = 512"
  shows "\<exists>b t u w m. fs_bread 1 k s = Inr (b, t) \<and> data t b = v k \<and> fs_frame s t
    \<and> fs_log_write b (set_data b (f (v k)) t) = Inr u \<and> fs_brelse b u = Inr w
    \<and> fs_rel w (v(k := f (v k))) m H \<and> n \<le> m \<and> m \<le> n + 1 \<and> fs_frame s w"
proof -
  obtain b t where t: "fs_bread 1 k s = Inr (b, t)" "fs_rel t v n (insert k H)" "buf_of (fs_bio t) b k"
    "data t b = v k" "fs_frame s t" using fs_bread_ok [OF R k] by blast
  have room': "int n < l_size (lg t) - 1" using room(2) fs_frameD(8) [OF t(5)] by simp
  obtain u m where u: "fs_log_write b (set_data b (f (v k)) t) = Inr u" "fs_rel u (v(k := f (v k))) m (insert k H)"
    "n \<le> m" "m \<le> n + 1" "fs_frame t u" "buf_of (fs_bio u) = buf_of (fs_bio t)"
    using fs_put_ok [OF t(2,3) len room(1) room'] by blast
  have b: "buf_of (fs_bio u) b k" using t(3) u(6) by simp
  obtain w where w: "fs_brelse b u = Inr w" "fs_rel w (v(k := f (v k))) m (insert k H - {k})" "fs_frame u w"
    using fs_brelse_ok [OF u(2) b] by blast
  have "insert k H - {k} = H" using k(1) by blast
  then show ?thesis using t u w fs_frame_trans by metis
qed


section \<open>The bitmap\<close>

lemma bit_uchar_one: "(c AND 2 ^ k = 0) \<longleftrightarrow> \<not> bit c k" if "k < 8" for c :: uchar
  using that by (auto simp: bit_and_iff bit_exp_iff intro!: bit_eqI dest: arg_cong [where f = "\<lambda>w. bit w k"])

lemma bit_used_set:
  assumes "bi div 8 < length d" and "bj div 8 < length d"
  shows "bit_used (set_bit_used d bi) bj \<longleftrightarrow> bj = bi \<or> bit_used d bj"
proof (cases "bj div 8 = bi div 8")
  case True
  then have "bj = bi \<longleftrightarrow> bj mod 8 = bi mod 8" by (metis div_mult_mod_eq)
  with True assms show ?thesis
    by (auto simp: bit_used_def set_bit_used_def bit_uchar_one bit_or_iff bit_exp_iff)
next
  case False
  then show ?thesis by (auto simp: bit_used_def set_bit_used_def)
qed

lemma bit_used_clear:
  assumes "bi div 8 < length d" and "bj div 8 < length d"
  shows "bit_used (clear_bit_used d bi) bj \<longleftrightarrow> bj \<noteq> bi \<and> bit_used d bj"
proof (cases "bj div 8 = bi div 8")
  case True
  then have "bj = bi \<longleftrightarrow> bj mod 8 = bi mod 8" by (metis div_mult_mod_eq)
  with True assms show ?thesis
    by (auto simp: bit_used_def clear_bit_used_def bit_uchar_one bit_and_iff bit_not_iff bit_exp_iff)
next
  case False
  then show ?thesis by (auto simp: bit_used_def clear_bit_used_def)
qed

lemma clear_set_bit:
  assumes "bi div 8 < length d" and "\<not> bit_used d bi"
  shows "clear_bit_used (set_bit_used d bi) bi = d"
proof -
  let ?c = "d ! (bi div 8)" and ?m = "push_bit (bi mod 8) 1 :: uchar"
  have "\<not> bit ?c (bi mod 8)" using assms(2) by (simp add: bit_used_def bit_uchar_one)
  then have "(?c OR ?m) AND NOT ?m = ?c"
    by (intro bit_eqI) (auto simp: bit_simps)
  then show ?thesis using assms(1) by (simp add: set_bit_used_def clear_bit_used_def)
qed

lemma length_bits [simp]: "length (set_bit_used d bi) = length d" "length (clear_bit_used d bi) = length d"
  by (simp_all add: set_bit_used_def clear_bit_used_def)

text \<open>Is block \<open>r\<close> marked in the bitmap, and are the bitmap blocks ones that can be read now?\<close>

definition used :: "superblock \<Rightarrow> (uint \<Rightarrow> uchar list) \<Rightarrow> nat \<Rightarrow> bool" where
  "used sbk v r \<longleftrightarrow> bit_used (v (BBLOCK (of_nat r) sbk)) (r mod 4096)"

definition bitmap_ok :: "fsst \<Rightarrow> uint set \<Rightarrow> bool" where
  "bitmap_ok s H \<longleftrightarrow> (\<forall>r < unat (sb_size (sb s)). BBLOCK (of_nat r) (sb s) < disksize (fs_bio s)
     \<and> BBLOCK (of_nat r) (sb s) \<notin> H)"

definition alloc_view :: "superblock \<Rightarrow> nat \<Rightarrow> (uint \<Rightarrow> uchar list) \<Rightarrow> uint \<Rightarrow> uchar list" where
  "alloc_view sbk r v = (v(BBLOCK (of_nat r) sbk := set_bit_used (v (BBLOCK (of_nat r) sbk)) (r mod 4096)))
     (of_nat r := replicate 512 0)"

lemma bzero_ok:
  assumes "fs_rel s v n H" "k \<notin> H" "n + card H < NBUF" "k < disksize (fs_bio s)" "n < LOGSIZE" "int n < l_size (lg s) - 1"
  shows "\<exists>t m. bzero 1 k s = Inr t \<and> fs_rel t (v(k := replicate 512 0)) m H \<and> n \<le> m \<and> m \<le> n + 1 \<and> fs_frame s t"
proof -
  obtain b t u w m where "fs_bread 1 k s = Inr (b, t)" "fs_log_write b (set_data b (replicate 512 0) t) = Inr u"
    "fs_brelse b u = Inr w" "fs_rel w (v(k := replicate 512 0)) m H" "n \<le> m" "m \<le> n + 1" "fs_frame s w"
    using fs_update_block [OF assms, of "\<lambda>_. replicate 512 0"] by auto
  then show ?thesis by (intro exI [of _ w] exI [of _ m]) (simp add: bzero_def)
qed

lemma BBLOCK_segment:
  assumes "i < 4096" and "4096 * a + i < 4294967296"
  shows "BBLOCK (of_nat (4096 * a)) sbk = BBLOCK (of_nat (4096 * a + i)) sbk"
proof -
  have "unat (of_nat (4096 * a) div 4096 :: uint) = a" "unat (of_nat (4096 * a + i) div 4096 :: uint) = a"
    using assms by (simp_all only: unat_div_distrib unat_of_nat_uint) simp_all
  then have "(of_nat (4096 * a) div 4096 :: uint) = of_nat (4096 * a + i) div 4096" by (metis unat_inject)
  then show ?thesis by (simp only: BBLOCK_def)
qed

lemma balloc_found:
  assumes R: "fs_rel s v n H" and bm: "bitmap_ok s H" and bi: "bi < 4096" "4096 * a + bi < unat (sb_size (sb s))"
    and free: "find (\<lambda>bi. \<not> bit_used (v (BBLOCK (of_nat (4096 * a)) (sb s))) bi)
        [0..<min 4096 (unat (sb_size (sb s)) - 4096 * a)] = Some bi"
    and room: "n + 1 < LOGSIZE" "int n + 1 < l_size (lg s) - 1" "n + card H + 1 < NBUF"
    and r: "of_nat (4096 * a + bi) \<notin> H" "of_nat (4096 * a + bi) < disksize (fs_bio s)"
  shows "\<exists>t m. balloc_loop 1 (4096 * a # bs) s = Inr (of_nat (4096 * a + bi), t)
    \<and> fs_rel t (alloc_view (sb s) (4096 * a + bi) v) m H \<and> m \<le> n + 2 \<and> fs_frame s t"
proof -
  let ?r = "4096 * a + bi" and ?k = "BBLOCK (of_nat (4096 * a)) (sb s)"
  have k: "?k = BBLOCK (of_nat ?r) (sb s)"
    using BBLOCK_segment [OF bi(1)] bi(2) unat_uint_less [of "sb_size (sb s)"] by simp
  have kH: "?k \<notin> H" "?k < disksize (fs_bio s)" using bm bi(2) unfolding k bitmap_ok_def by auto
  have room': "n + card H < NBUF" "n < LOGSIZE" "int n < l_size (lg s) - 1" using room by auto
  have len: "length (set_bit_used (v ?k) bi) = 512" using fs_relD(2) [OF R] by simp
  obtain b t u w m where w: "fs_bread 1 ?k s = Inr (b, t)" "data t b = v ?k" "fs_frame s t"
    "fs_log_write b (set_data b (set_bit_used (v ?k) bi) t) = Inr u" "fs_brelse b u = Inr w"
    "fs_rel w (v(?k := set_bit_used (v ?k) bi)) m H" "n \<le> m" "m \<le> n + 1" "fs_frame s w"
    using fs_update_block [OF R kH(1) room'(1) kH(2) room'(2,3), where f = "\<lambda>d. set_bit_used d bi", OF len] by metis
  have w': "m + card H < NBUF" "of_nat ?r < disksize (fs_bio w)" "m < LOGSIZE" "int m < l_size (lg w) - 1"
    using w(7,8) room fs_frameD(8,9) [OF w(9)] r(2) by auto
  obtain x m' where x: "bzero 1 (of_nat ?r) w = Inr x"
    "fs_rel x ((v(?k := set_bit_used (v ?k) bi))(of_nat ?r := replicate 512 0)) m' H" "m' \<le> m + 1" "fs_frame w x"
    using bzero_ok [OF w(6) r(1) w'] by blast
  have "balloc_loop 1 (4096 * a # bs) s = Inr (of_nat ?r, x)"
    using w(1,2,4,5) x(1) free fs_frameD(2) [OF w(3)] by simp
  moreover have "bi = ?r mod 4096" using bi(1) by simp
  then have "fs_rel x (alloc_view (sb s) ?r v) m' H" using x(2) unfolding alloc_view_def k by simp
  moreover have "m' \<le> n + 2" "fs_frame s x" using x(3) w(8) fs_frame_trans [OF w(9) x(4)] by simp_all
  ultimately show ?thesis by blast
qed

text \<open>The scan finds the lowest free block, and panics when there is none.\<close>

lemma balloc_loop_ok:
  assumes R: "fs_rel s v n H" and bm: "bitmap_ok s H"
    and room: "n + 1 < LOGSIZE" "int n + 1 < l_size (lg s) - 1" "n + card H + 1 < NBUF"
    and blk: "\<And>r. r < unat (sb_size (sb s)) \<Longrightarrow> \<not> used (sb s) v r \<Longrightarrow> of_nat r \<notin> H \<and> of_nat r < disksize (fs_bio s)"
    and low: "\<And>r. r < 4096 * a \<Longrightarrow> r < unat (sb_size (sb s)) \<Longrightarrow> used (sb s) v r"
    and a: "a + j = (unat (sb_size (sb s)) + 4095) div 4096"
  shows "if \<exists>r < unat (sb_size (sb s)). \<not> used (sb s) v r
    then \<exists>r t m. balloc_loop 1 (map (\<lambda>i. 4096 * i) [a..<a + j]) s = Inr (of_nat r, t) \<and> r < unat (sb_size (sb s))
      \<and> \<not> used (sb s) v r \<and> (\<forall>q < r. used (sb s) v q) \<and> fs_rel t (alloc_view (sb s) r v) m H \<and> m \<le> n + 2 \<and> fs_frame s t
    else balloc_loop 1 (map (\<lambda>i. 4096 * i) [a..<a + j]) s = Inl (Panic ''balloc: out of blocks'')"
  using assms
proof (induction j arbitrary: a s)
  case 0
  let ?sz = "unat (sb_size (sb s))"
  have "?sz \<le> 4096 * a"
  proof -
    have "?sz + 4095 < 4096 * (?sz + 4095) div 4096 * 4096 + 4096" by simp
    moreover have "(?sz + 4095) div 4096 = a" using "0.prems"(8) by simp
    ultimately show ?thesis using div_mult_mod_eq [of "?sz + 4095" 4096] mod_less_divisor [of 4096 "?sz + 4095"] by linarith
  qed
  then have "\<not> (\<exists>r < ?sz. \<not> used (sb s) v r)" using "0.prems"(7) by (meson less_le_trans)
  then show ?case by simp
next
  case (Suc j)
  note R = Suc.prems(1) and bm = Suc.prems(2) and room = Suc.prems(3-5) and blk = Suc.prems(6) and low = Suc.prems(7)
  let ?sz = "unat (sb_size (sb s))" and ?k = "BBLOCK (of_nat (4096 * a)) (sb s)"
  let ?bs = "map (\<lambda>i. 4096 * i) [Suc a..<Suc a + j]"
  let ?find = "find (\<lambda>bi. \<not> bit_used (v ?k) bi) [0..<min 4096 (?sz - 4096 * a)]"
  have bs: "map (\<lambda>i. 4096 * i) [a..<a + Suc j] = 4096 * a # ?bs" by (simp add: upt_conv_Cons del: upt_Suc)
  have asz: "4096 * a < ?sz"
  proof -
    have "a + 1 \<le> (?sz + 4095) div 4096" using Suc.prems(8) by simp
    then have "(a + 1) * 4096 \<le> ?sz + 4095" by (simp add: less_eq_div_iff_mult_less_eq)
    then show ?thesis by simp
  qed
  have seg: "used (sb s) v (4096 * a + i) \<longleftrightarrow> bit_used (v ?k) i" if "i < 4096" "4096 * a + i < ?sz" for i
    using BBLOCK_segment [OF that(1), of a] that unat_uint_less [of "sb_size (sb s)"] by (simp add: used_def)
  show ?case
  proof (cases ?find)
    case (Some bi)
    have bi: "bi < min 4096 (?sz - 4096 * a)" "\<not> bit_used (v ?k) bi" "\<And>j. j < bi \<Longrightarrow> bit_used (v ?k) j"
      using Some by (auto simp: find_Some_iff)
    then have b: "bi < 4096" "4096 * a + bi < ?sz" by auto
    have fr: "\<not> used (sb s) v (4096 * a + bi)" using seg [OF b] bi(2) by simp
    have le: "used (sb s) v q" if "q < 4096 * a + bi" for q
    proof (cases "q < 4096 * a")
      case True
      then show ?thesis using low that b(2) by auto
    next
      case False
      then show ?thesis using seg [of "q - 4096 * a"] bi(3) [of "q - 4096 * a"] b that by auto
    qed
    obtain t m where t: "balloc_loop 1 (4096 * a # ?bs) s = Inr (of_nat (4096 * a + bi), t)"
      "fs_rel t (alloc_view (sb s) (4096 * a + bi) v) m H" "m \<le> n + 2" "fs_frame s t"
      using balloc_found [OF R bm b Some room] blk [OF b(2) fr] by metis
    have ex: "\<exists>r < ?sz. \<not> used (sb s) v r" using b(2) fr by blast
    show ?thesis unfolding bs if_P [OF ex] using t fr b(2) le by blast
  next
    case None
    have all: "bit_used (v ?k) i" if "i < 4096" "4096 * a + i < ?sz" for i
      using None that by (auto simp: find_None_iff)
    have low': "used (sb s) v r" if "r < 4096 * Suc a" "r < ?sz" for r
    proof (cases "r < 4096 * a")
      case True
      then show ?thesis using low that by blast
    next
      case False
      then show ?thesis using seg [of "r - 4096 * a"] all [of "r - 4096 * a"] that by auto
    qed
    have kH: "?k \<notin> H" "?k < disksize (fs_bio s)" using bm asz unfolding bitmap_ok_def by auto
    obtain b t u where u: "fs_bread 1 ?k s = Inr (b, t)" "data t b = v ?k" "fs_frame s t" "fs_brelse b t = Inr u"
      "fs_rel u v n H" "fs_frame s u" using fs_read_block [OF R kH(1) _ kH(2)] room(3) by auto
    note fu = fs_frameD [OF u(6)]
    have eq: "balloc_loop 1 (4096 * a # ?bs) s = balloc_loop 1 ?bs u"
      using u(1,2,4) None fs_frameD(2) [OF u(3)] by simp
    have bm': "bitmap_ok u H" using bm fu(2,9) by (simp add: bitmap_ok_def)
    have a': "Suc a + j = (?sz + 4095) div 4096" using Suc.prems(8) by simp
    note IH = Suc.IH [of u "Suc a", unfolded fu(2,8,9), OF u(5) bm' room blk low' a']
    show ?thesis
    proof (cases "\<exists>r < ?sz. \<not> used (sb s) v r")
      case True
      from IH [unfolded if_P [OF True]] show ?thesis unfolding bs eq if_P [OF True] using fs_frame_trans [OF u(6)] by blast
    next
      case False
      from IH show ?thesis unfolding bs eq if_not_P [OF False] .
    qed
  qed
qed

lemma balloc_ok:
  assumes "fs_rel s v n H" and "bitmap_ok s H" and "n + 1 < LOGSIZE" "int n + 1 < l_size (lg s) - 1" "n + card H + 1 < NBUF"
    and "\<And>r. r < unat (sb_size (sb s)) \<Longrightarrow> \<not> used (sb s) v r \<Longrightarrow> of_nat r \<notin> H \<and> of_nat r < disksize (fs_bio s)"
  shows "if \<exists>r < unat (sb_size (sb s)). \<not> used (sb s) v r
    then \<exists>r t m. balloc 1 s = Inr (of_nat r, t) \<and> r < unat (sb_size (sb s)) \<and> \<not> used (sb s) v r
      \<and> (\<forall>q < r. used (sb s) v q) \<and> fs_rel t (alloc_view (sb s) r v) m H \<and> m \<le> n + 2 \<and> fs_frame s t
    else balloc 1 s = Inl (Panic ''balloc: out of blocks'')"
  unfolding balloc_def
  by (rule balloc_loop_ok [OF assms, of 0 "(unat (sb_size (sb s)) + 4095) div 4096", unfolded add_0]) simp_all

lemma bfree_ok:
  assumes R: "fs_rel s v n H" and bm: "bitmap_ok s H" and r: "r < unat (sb_size (sb s))"
    and room: "n < LOGSIZE" "int n < l_size (lg s) - 1" "n + card H < NBUF"
  defines "k \<equiv> BBLOCK (of_nat r) (sb s)"
  shows "if used (sb s) v r
    then \<exists>t m. bfree 1 (of_nat r) s = Inr t \<and> fs_rel t (v(k := clear_bit_used (v k) (r mod 4096))) m H \<and> m \<le> n + 1 \<and> fs_frame s t
    else bfree 1 (of_nat r) s = Inl (Panic ''freeing free block'')"
proof -
  have k: "k \<notin> H" "k < disksize (fs_bio s)" using bm r unfolding k_def bitmap_ok_def by auto
  have u: "unat (of_nat r mod 4096 :: uint) = r mod 4096"
    using r unat_uint_less [of "sb_size (sb s)"] by (simp add: unat_mod_distrib unat_of_nat_uint)
  have len: "length (clear_bit_used (v k) (r mod 4096)) = 512" using fs_relD(2) [OF R] by simp
  obtain b t x w m where w: "fs_bread 1 k s = Inr (b, t)" "data t b = v k"
    "fs_log_write b (set_data b (clear_bit_used (v k) (r mod 4096)) t) = Inr x" "fs_brelse b x = Inr w"
    "fs_rel w (v(k := clear_bit_used (v k) (r mod 4096))) m H" "m \<le> n + 1" "fs_frame s w"
    using fs_update_block [OF R k(1) room(3) k(2) room(1,2), where f = "\<lambda>d. clear_bit_used d (r mod 4096)", OF len] by metis
  then show ?thesis by (simp add: bfree_def used_def u flip: k_def) (auto simp: Let_def)
qed

end
