(* ===== verification/Fsdata.thy ===== *)
theory Fsdata
  imports Fsrel
begin

text \<open>
  Inodes on disk: the fields of a disk inode as bytes of its block, and that an inode written with \<open>iupdate\<close> is read
  back by \<open>ilock\<close>, with all other inodes of the block unchanged.
\<close>

section \<open>Inodes on disk\<close>

lemma fold_addrs:
  fixes off :: nat and a :: "nat \<Rightarrow> uint"
  assumes "off + 64 \<le> length d" and "m \<le> 13"
  defines "e \<equiv> fold (\<lambda>i d. put32 d (off + 12 + 4 * i) (a i)) [0..<m] d"
  shows "length e = length d" and "i < m \<Longrightarrow> get32 e (off + 12 + 4 * i) = a i"
    and "p + 2 \<le> length d \<Longrightarrow> p + 2 \<le> off + 12 \<or> off + 64 \<le> p \<Longrightarrow> get16 e p = get16 d p"
    and "p + 4 \<le> length d \<Longrightarrow> p + 4 \<le> off + 12 \<or> off + 64 \<le> p \<Longrightarrow> get32 e p = get32 d p"
proof -
  have *: "length (fold (\<lambda>i d. put32 d (off + 12 + 4 * i) (a i)) [0..<m] d) = length d
      \<and> (\<forall>i < m. get32 (fold (\<lambda>i d. put32 d (off + 12 + 4 * i) (a i)) [0..<m] d) (off + 12 + 4 * i) = a i)
      \<and> (\<forall>p. p + 2 \<le> length d \<longrightarrow> p + 2 \<le> off + 12 \<or> off + 64 \<le> p \<longrightarrow>
          get16 (fold (\<lambda>i d. put32 d (off + 12 + 4 * i) (a i)) [0..<m] d) p = get16 d p)
      \<and> (\<forall>p. p + 4 \<le> length d \<longrightarrow> p + 4 \<le> off + 12 \<or> off + 64 \<le> p \<longrightarrow>
          get32 (fold (\<lambda>i d. put32 d (off + 12 + 4 * i) (a i)) [0..<m] d) p = get32 d p)"
    using assms(2)
  proof (induction m)
    case (Suc m)
    let ?e = "fold (\<lambda>i d. put32 d (off + 12 + 4 * i) (a i)) [0..<m] d"
    note IH = Suc.IH [OF Suc_leD [OF Suc.prems]]
    have l: "length ?e = length d" and fit: "off + 12 + 4 * m + 4 \<le> length ?e"
      using Suc assms(1) by auto
    have "get32 (put32 ?e (off + 12 + 4 * m) (a m)) (off + 12 + 4 * i) = a i" if "i < Suc m" for i
    proof (cases "i = m")
      case True
      then show ?thesis using get32_put32_same [OF fit] by simp
    next
      case False
      then have "i < m" using that by simp
      then show ?thesis using get32_put32_other [OF fit, of "off + 12 + 4 * i"] IH fit l by simp
    qed
    moreover have "get16 (put32 ?e (off + 12 + 4 * m) (a m)) p = get16 d p"
      if "p + 2 \<le> length d" "p + 2 \<le> off + 12 \<or> off + 64 \<le> p" for p
    proof -
      have "off + 12 + 4 * m + 4 \<le> p \<or> p + 2 \<le> off + 12 + 4 * m" using that(2) Suc.prems by linarith
      moreover have "get16 ?e p = get16 d p" using IH that by blast
      ultimately show ?thesis using get16_put32_other [OF fit, of p] that l by simp
    qed
    moreover have "get32 (put32 ?e (off + 12 + 4 * m) (a m)) p = get32 d p"
      if "p + 4 \<le> length d" "p + 4 \<le> off + 12 \<or> off + 64 \<le> p" for p
    proof -
      have "off + 12 + 4 * m + 4 \<le> p \<or> p + 4 \<le> off + 12 + 4 * m" using that(2) Suc.prems by linarith
      moreover have "get32 ?e p = get32 d p" using IH that by blast
      ultimately show ?thesis using get32_put32_other [OF fit, of p] that l by simp
    qed
    ultimately show ?case using l fit by simp
  qed simp
  then show "length e = length d" and "i < m \<Longrightarrow> get32 e (off + 12 + 4 * i) = a i"
    and "p + 2 \<le> length d \<Longrightarrow> p + 2 \<le> off + 12 \<or> off + 64 \<le> p \<Longrightarrow> get16 e p = get16 d p"
    and "p + 4 \<le> length d \<Longrightarrow> p + 4 \<le> off + 12 \<or> off + 64 \<le> p \<Longrightarrow> get32 e p = get32 d p"
    unfolding e_def by blast+
qed

lemma put_dinode_facts:
  assumes "off + 64 \<le> length d"
  shows "length (put_dinode x off d) = length d"
    and "get16 (put_dinode x off d) off = i_type x" "get16 (put_dinode x off d) (off + 2) = i_major x"
    and "get16 (put_dinode x off d) (off + 4) = i_minor x" "get16 (put_dinode x off d) (off + 6) = i_nlink x"
    and "get32 (put_dinode x off d) (off + 8) = i_size x"
    and "i \<le> NDIRECT \<Longrightarrow> get32 (put_dinode x off d) (off + 12 + 4 * i) = i_addrs x i"
    and "p + 2 \<le> length d \<Longrightarrow> p + 2 \<le> off \<or> off + 64 \<le> p \<Longrightarrow> get16 (put_dinode x off d) p = get16 d p"
    and "p + 4 \<le> length d \<Longrightarrow> p + 4 \<le> off \<or> off + 64 \<le> p \<Longrightarrow> get32 (put_dinode x off d) p = get32 d p"
proof -
  define d1 where "d1 = put16 d off (i_type x)"
  define d2 where "d2 = put16 d1 (off + 2) (i_major x)"
  define d3 where "d3 = put16 d2 (off + 4) (i_minor x)"
  define d4 where "d4 = put16 d3 (off + 6) (i_nlink x)"
  define d5 where "d5 = put32 d4 (off + 8) (i_size x)"
  have l: "length d1 = length d" "length d2 = length d" "length d3 = length d" "length d4 = length d" "length d5 = length d"
    using assms by (simp_all add: d1_def d2_def d3_def d4_def d5_def)
  have eq: "put_dinode x off d = fold (\<lambda>i d. put32 d (off + 12 + 4 * i) (i_addrs x i)) [0..<13] d5"
    by (simp add: put_dinode_def Let_def d1_def d2_def d3_def d4_def d5_def)
  have fit: "off + 64 \<le> length d5" using assms l by simp
  note f = fold_addrs [OF fit, where m = 13 and a = "i_addrs x", OF order_refl, folded eq]
  show "length (put_dinode x off d) = length d" using f(1) l by simp
  show "i \<le> NDIRECT \<Longrightarrow> get32 (put_dinode x off d) (off + 12 + 4 * i) = i_addrs x i" using f(2) [of i] by simp
  show "get32 (put_dinode x off d) (off + 8) = i_size x"
    using f(4) [of "off + 8"] assms l by (simp add: d5_def get32_put32_same)
  show "get16 (put_dinode x off d) (off + 6) = i_nlink x"
    using f(3) [of "off + 6"] assms l by (simp add: d5_def d4_def field_laws)
  show "get16 (put_dinode x off d) (off + 4) = i_minor x"
    using f(3) [of "off + 4"] assms l by (simp add: d5_def d4_def d3_def field_laws)
  show "get16 (put_dinode x off d) (off + 2) = i_major x"
    using f(3) [of "off + 2"] assms l by (simp add: d5_def d4_def d3_def d2_def field_laws)
  show "get16 (put_dinode x off d) off = i_type x"
    using f(3) [of off] assms l by (simp add: d5_def d4_def d3_def d2_def d1_def field_laws)
  show "get16 (put_dinode x off d) p = get16 d p" if p: "p + 2 \<le> length d" "p + 2 \<le> off \<or> off + 64 \<le> p"
  proof -
    have "get16 d5 p = get16 d4 p" unfolding d5_def by (rule get16_put32_other) (use p assms l in auto)
    also have "\<dots> = get16 d3 p" unfolding d4_def by (rule get16_put16_other) (use p assms l in auto)
    also have "\<dots> = get16 d2 p" unfolding d3_def by (rule get16_put16_other) (use p assms l in auto)
    also have "\<dots> = get16 d1 p" unfolding d2_def by (rule get16_put16_other) (use p assms l in auto)
    also have "\<dots> = get16 d p" unfolding d1_def by (rule get16_put16_other) (use p assms l in auto)
    finally show ?thesis using f(3) [of p] p l by auto
  qed
  show "get32 (put_dinode x off d) p = get32 d p" if p: "p + 4 \<le> length d" "p + 4 \<le> off \<or> off + 64 \<le> p"
  proof -
    have "get32 d5 p = get32 d4 p" unfolding d5_def by (rule get32_put32_other) (use p assms l in auto)
    also have "\<dots> = get32 d3 p" unfolding d4_def by (rule get32_put16_other) (use p assms l in auto)
    also have "\<dots> = get32 d2 p" unfolding d3_def by (rule get32_put16_other) (use p assms l in auto)
    also have "\<dots> = get32 d1 p" unfolding d2_def by (rule get32_put16_other) (use p assms l in auto)
    also have "\<dots> = get32 d p" unfolding d1_def by (rule get32_put16_other) (use p assms l in auto)
    finally show ?thesis using f(4) [of p] p l by auto
  qed
qed

text \<open>The fields of an inode that are on disk.\<close>

definition same_dinode :: "inode \<Rightarrow> inode \<Rightarrow> bool" where
  "same_dinode x y \<longleftrightarrow> i_type x = i_type y \<and> i_major x = i_major y \<and> i_minor x = i_minor y
     \<and> i_nlink x = i_nlink y \<and> i_size x = i_size y \<and> (\<forall>i \<le> NDIRECT. i_addrs x i = i_addrs y i)"

lemma get_put_dinode:
  "off + 64 \<le> length d \<Longrightarrow> same_dinode (get_dinode (put_dinode x off d) off y) x"
  using put_dinode_facts [where off = off and d = d and x = x] by (simp add: same_dinode_def get_dinode_def)

lemma get_put_dinode_other:
  assumes "off + 64 \<le> length d" "off' + 64 \<le> length d" "off + 64 \<le> off' \<or> off' + 64 \<le> off"
  shows "get_dinode (put_dinode x off d) off' y = get_dinode d off' y"
proof -
  note f = put_dinode_facts [OF assms(1)]
  have a: "get16 (put_dinode x off d) (off' + k) = get16 d (off' + k)" if "k \<le> 6" for k
    by (rule f(8)) (use assms that in auto)
  have b: "get32 (put_dinode x off d) (off' + k) = get32 d (off' + k)" if "k \<le> 60" for k
    by (rule f(9)) (use assms that in auto)
  have c: "get32 (put_dinode x off d) (off' + 12 + 4 * i) = get32 d (off' + 12 + 4 * i)" if "i \<le> NDIRECT" for i
    using b [of "12 + 4 * i"] that by (simp add: add.assoc)
  show ?thesis using a [of 0] a [of 2] a [of 4] a [of 6] b [of 8] c by (simp add: get_dinode_def cong: if_cong)
qed

lemma dip_fits: "dip i + 64 \<le> 512"
proof -
  have "unat (i mod 8) < 8" by (simp add: unat_mod_distrib)
  then show ?thesis by (simp add: dip_def)
qed

lemma fs_rel_upd_inode [simp]: "fs_rel (upd_inode ip f s) v n H = fs_rel s v n H"
  by (simp add: fs_rel_def upd_inode_def fs_bio_def)

lemma upd_inode_sel [simp]:
  "inodes (upd_inode ip f s) jp = (if jp = ip then f (inodes s ip) else inodes s jp)"
  "fs_bio (upd_inode ip f s) = fs_bio s" "lg (upd_inode ip f s) = lg s" "sb (upd_inode ip f s) = sb s"
  by (simp_all add: upd_inode_def fs_bio_def)

definition iupdate_view :: "superblock \<Rightarrow> inode \<Rightarrow> (uint \<Rightarrow> uchar list) \<Rightarrow> uint \<Rightarrow> uchar list" where
  "iupdate_view sbk x v = (let k = IBLOCK (i_inum x) sbk in v(k := put_dinode x (dip (i_inum x)) (v k)))"

lemma iupdate_ok:
  assumes R: "fs_rel s v n H" and "i_dev (inodes s ip) = 1" and k: "IBLOCK (i_inum (inodes s ip)) (sb s) \<notin> H"
    "IBLOCK (i_inum (inodes s ip)) (sb s) < disksize (fs_bio s)"
    and room: "n + card H < NBUF" "n < LOGSIZE" "int n < l_size (lg s) - 1"
  shows "\<exists>t m. iupdate ip s = Inr t \<and> fs_rel t (iupdate_view (sb s) (inodes s ip) v) m H \<and> n \<le> m \<and> m \<le> n + 1 \<and> fs_frame s t"
proof -
  let ?x = "inodes s ip" and ?k = "IBLOCK (i_inum (inodes s ip)) (sb s)"
  let ?f = "put_dinode ?x (dip (i_inum ?x))"
  have "length (?f (v ?k)) = 512"
    using put_dinode_facts(1) [of "dip (i_inum ?x)" "v ?k"] dip_fits fs_relD(2) [OF R] by simp
  then obtain b t u w m where w: "fs_bread 1 ?k s = Inr (b, t)" "data t b = v ?k"
    "fs_log_write b (set_data b (?f (v ?k)) t) = Inr u" "fs_brelse b u = Inr w"
    "fs_rel w (v(?k := ?f (v ?k))) m H" "n \<le> m" "m \<le> n + 1" "fs_frame s w"
    using fs_update_block [OF R k(1) room(1) k(2) room(2,3), where f = ?f] by metis
  then show ?thesis using assms(2)
    by (intro exI [of _ w] exI [of _ m]) (simp add: iupdate_def iupdate_view_def Let_def)
qed

text \<open>Reading an inode that is not in memory.\<close>

lemma ilock_reads:
  assumes R: "fs_rel s v n H" and "i_dev (inodes s ip) = 1" "1 \<le> i_ref (inodes s ip)" "\<not> i_valid (inodes s ip)"
    "\<not> sl_locked (i_lock (inodes s ip))" and k: "IBLOCK (i_inum (inodes s ip)) (sb s) \<notin> H"
    "IBLOCK (i_inum (inodes s ip)) (sb s) < disksize (fs_bio s)" and room: "n + card H < NBUF"
  defines "y \<equiv> get_dinode (v (IBLOCK (i_inum (inodes s ip)) (sb s))) (dip (i_inum (inodes s ip))) (inodes s ip)"
  shows "if i_type y = 0 then ilock (Some ip) s = Inl (Panic ''ilock: no type'')
    else \<exists>t. ilock (Some ip) s = Inr t \<and> fs_rel t v n H \<and> same_dinode (inodes t ip) y \<and> i_valid (inodes t ip)
      \<and> holdingsleep (mypid (fs_bio s)) (i_lock (inodes t ip)) \<and> i_inum (inodes t ip) = i_inum (inodes s ip)"
proof -
  let ?lk = "(i_lock (inodes s ip))\<lparr>sl_locked := True, sl_pid := mypid (fs_bio s)\<rparr>"
  let ?s = "upd_inode ip (i_lock_update (\<lambda>_. ?lk)) s" and ?k = "IBLOCK (i_inum (inodes s ip)) (sb s)"
  have aq: "acquiresleep (ChInode ip) (mypid (fs_bio s)) (i_lock (inodes s ip)) = Inr ?lk"
    using assms(5) by (simp add: acquiresleep_def)
  obtain b t u where u: "fs_bread 1 ?k ?s = Inr (b, t)" "data t b = v ?k" "fs_frame ?s t"
    "fs_brelse b t = Inr u" "fs_frame ?s u"
    using fs_read_block [of ?s v n H ?k] R k room by auto
  let ?t = "upd_inode ip (get_dinode (v ?k) (dip (i_inum (inodes s ip)))) t"
  have data: "data ?t b = data t b" by (simp add: data_def)
  obtain w where w: "fs_brelse b ?t = Inr w" "fs_rel w v n H" "fs_frame ?t w"
  proof -
    obtain b' t' where t': "fs_bread 1 ?k ?s = Inr (b', t')" "fs_rel t' v n (insert ?k H)" "buf_of (fs_bio t') b' ?k"
      using fs_bread_ok [of ?s v n H ?k] R k room by auto
    then have "fs_rel ?t v n (insert ?k H)" "buf_of (fs_bio ?t) b ?k" using u(1) by auto
    from fs_brelse_ok [OF this] k(1) show thesis using that by (auto simp: insert_Diff_if)
  qed
  have i: "inodes w ip = get_dinode (v ?k) (dip (i_inum (inodes s ip))) ((inodes s ip)\<lparr>i_lock := ?lk\<rparr>)"
    using fs_frameD(1) [OF w(3)] fs_frameD(1) [OF u(3)] by simp
  let ?w = "upd_inode ip (i_valid_update (\<lambda>_. True)) w"
  have ty: "i_type (inodes ?w ip) = i_type y" using i by (simp add: y_def get_dinode_def)
  have eq: "ilock (Some ip) s = (if i_type y = 0 then Inl (Panic ''ilock: no type'') else Inr ?w)"
    using assms(2-4) aq u(1,2) w(1) ty by (simp add: ilock_def Let_def)
  have "fs_rel ?w v n H" "same_dinode (inodes ?w ip) y" "i_valid (inodes ?w ip)"
    "holdingsleep (mypid (fs_bio s)) (i_lock (inodes ?w ip))" "i_inum (inodes ?w ip) = i_inum (inodes s ip)"
    using w(2) i by (simp_all add: same_dinode_def y_def get_dinode_def holdingsleep_def)
  with eq show ?thesis by auto
qed

end
