(* ===== verification/Fsfile.thy ===== *)
theory Fsfile
  imports Fsdata
begin

text \<open>
  File contents: \<open>bmap\<close> finds the blocks of a file, \<open>readi\<close> returns its bytes, and \<open>writei\<close> inside the file
  replaces exactly the bytes of its range, logging at most one block per block it touches.
\<close>

section \<open>Blocks of a file\<close>

definition file_block :: "(uint \<Rightarrow> uchar list) \<Rightarrow> inode \<Rightarrow> nat \<Rightarrow> uint" where
  "file_block v x b = (if b < NDIRECT then i_addrs x b else get32 (v (i_addrs x NDIRECT)) (4 * (b - NDIRECT)))"

definition nblocks :: "inode \<Rightarrow> nat" where
  "nblocks x = (unat (i_size x) + 511) div 512"

text \<open>
  The blocks up to the size of the file are allocated, different from each other and, with the indirect
  block, inside the disk.
\<close>

definition file_ok :: "uint \<Rightarrow> (uint \<Rightarrow> uchar list) \<Rightarrow> inode \<Rightarrow> bool" where
  "file_ok dsz v x \<longleftrightarrow> i_dev x = 1 \<and> unat (i_size x) \<le> 140 * 512
     \<and> (\<forall>b < nblocks x. file_block v x b \<noteq> 0 \<and> file_block v x b < dsz) \<and> inj_on (file_block v x) {..<nblocks x}
     \<and> (NDIRECT < nblocks x \<longrightarrow> i_addrs x NDIRECT \<noteq> 0 \<and> i_addrs x NDIRECT < dsz
          \<and> i_addrs x NDIRECT \<notin> file_block v x ` {..<nblocks x})"

text \<open>Byte \<open>j\<close> of the file.\<close>

definition fbyte :: "(uint \<Rightarrow> uchar list) \<Rightarrow> inode \<Rightarrow> nat \<Rightarrow> uchar" where
  "fbyte v x j = v (file_block v x (j div 512)) ! (j mod 512)"

lemma block_in_file: "j < unat (i_size x) \<Longrightarrow> j div 512 < nblocks x"
  unfolding nblocks_def by (simp add: less_eq_div_iff_mult_less_eq flip: Suc_le_eq)

lemma file_ok_blocks: "file_ok dsz v x \<Longrightarrow> nblocks x \<le> 140"
  by (auto simp: file_ok_def nblocks_def)

lemma bmap_ok:
  assumes R: "fs_rel s v n H" and f: "file_ok (disksize (fs_bio s)) v (inodes s ip)" and b: "b < nblocks (inodes s ip)"
    and H: "NDIRECT \<le> b \<Longrightarrow> i_addrs (inodes s ip) NDIRECT \<notin> H" and room: "n + card H < NBUF"
  shows "\<exists>t. bmap ip (of_nat b) s = Inr (file_block v (inodes s ip) b, t) \<and> fs_rel t v n H \<and> fs_frame s t"
proof -
  let ?x = "inodes s ip"
  have "b < 140" using file_ok_blocks [OF f] b by simp
  then have ub: "unat (of_nat b :: uint) = b" by (intro unat_of_nat_uint) simp
  have nz: "file_block v ?x b \<noteq> 0" and dev: "i_dev ?x = 1" using f b by (auto simp: file_ok_def)
  show ?thesis
  proof (cases "b < NDIRECT")
    case True
    then show ?thesis using R nz ub by (intro exI [of _ s]) (simp add: bmap_def file_block_def Let_def)
  next
    case False
    let ?ind = "i_addrs ?x NDIRECT"
    have ind: "?ind \<noteq> 0" "?ind < disksize (fs_bio s)" "?ind \<notin> H" using f b False H by (auto simp: file_ok_def)
    obtain c t u where u: "fs_bread 1 ?ind s = Inr (c, t)" "data t c = v ?ind" "fs_brelse c t = Inr u"
      "fs_rel u v n H" "fs_frame s u" using fs_read_block [OF R ind(3) room ind(2)] by blast
    have "get32 (v ?ind) (4 * (b - NDIRECT)) \<noteq> 0" using nz False by (simp add: file_block_def)
    then show ?thesis using u ind(1) ub False \<open>b < 140\<close> dev
      by (intro exI [of _ u]) (simp add: bmap_def file_block_def Let_def)
  qed
qed


section \<open>Reading\<close>

lemma bytes_of_block:
  assumes "length (v (file_block v x (off div 512))) = 512" and "off mod 512 + m \<le> 512"
  shows "slice (v (file_block v x (off div 512))) (off mod 512) m = map (fbyte v x) [off..<off + m]"
proof (rule nth_equalityI)
  show "length (slice (v (file_block v x (off div 512))) (off mod 512) m) = length (map (fbyte v x) [off..<off + m])"
    using assms by simp
next
  fix i assume "i < length (slice (v (file_block v x (off div 512))) (off mod 512) m)"
  then have i: "i < m" using assms by simp
  have "(off + i) div 512 = off div 512" "(off + i) mod 512 = off mod 512 + i"
  proof -
    have "off + i = 512 * (off div 512) + (off mod 512 + i)" by simp
    moreover have "off mod 512 + i < 512" using assms(2) i by simp
    ultimately show "(off + i) div 512 = off div 512" "(off + i) mod 512 = off mod 512 + i"
      by (metis div_mult_self4 div_less add.right_neutral mult.commute zero_neq_numeral, metis mod_mult_self4 mod_less mult.commute)
  qed
  then show "slice (v (file_block v x (off div 512))) (off mod 512) m ! i = map (fbyte v x) [off..<off + m] ! i"
    using assms i by (simp add: slice_nth fbyte_def)
qed

lemma unat_off_add:
  "unat (off :: uint) + m \<le> 71680 \<Longrightarrow> unat (off + of_nat m) = unat off + m"
  by (simp add: unat_word_ariths unat_of_nat_uint)

lemma unat_off_block: "unat (off mod 512 :: uint) = unat off mod 512" "off div 512 = of_nat (unat off div 512)"
proof -
  show "unat (off mod 512) = unat off mod 512" by (simp add: unat_mod_distrib)
  have "of_nat (unat (off div 512)) = off div 512" by simp
  moreover have "unat (off div 512) = unat off div 512" by (simp add: unat_div_distrib)
  ultimately show "off div 512 = of_nat (unat off div 512)" by (simp only:)
qed

lemma readi_loop_ok:
  assumes "fs_rel s v n {}" and "file_ok (disksize (fs_bio s)) v (inodes s ip)" and "n < NBUF"
    and "unat off + left \<le> unat (i_size (inodes s ip))"
  shows "\<exists>t. readi_loop ip off left got s = Inr (got @ map (fbyte v (inodes s ip)) [unat off..<unat off + left], t)
    \<and> fs_rel t v n {} \<and> fs_frame s t"
  using assms
proof (induction left arbitrary: off got s rule: less_induct)
  case (less left)
  note R = less.prems(1) and f = less.prems(2) and n = less.prems(3) and le = less.prems(4)
  let ?x = "inodes s ip" and ?o = "unat off"
  show ?case
  proof (cases "left = 0")
    case True
    then show ?thesis using R by (subst readi_loop.simps) simp
  next
    case False
    let ?b = "?o div 512"
    define m where "m = min left (512 - ?o mod 512)"
    let ?k = "file_block v ?x ?b"
    have sz: "unat (i_size ?x) \<le> 71680" using f by (simp add: file_ok_def)
    have b: "?b < nblocks ?x" using False le by (intro block_in_file) simp
    obtain s1 where s1: "bmap ip (off div 512) s = Inr (?k, s1)" "fs_rel s1 v n {}" "fs_frame s s1"
      using bmap_ok [OF R f b] n unat_off_block(2) [of off] by auto
    note f1 = fs_frameD [OF s1(3)]
    have k: "?k < disksize (fs_bio s1)" "i_dev (inodes s1 ip) = 1" using f b f1(1,9) by (auto simp: file_ok_def)
    obtain c t u where u: "fs_bread 1 ?k s1 = Inr (c, t)" "data t c = v ?k" "fs_brelse c t = Inr u"
      "fs_rel u v n {}" "fs_frame s1 u" using fs_read_block [OF s1(2) _ _ k(1)] n by auto
    have fu: "fs_frame s u" using fs_frame_trans [OF s1(3) u(5)] .
    note fd = fs_frameD [OF fu]
    have m: "0 < m" "m \<le> left" "?o mod 512 + m \<le> 512" using False by (auto simp: m_def)
    have off: "unat (off + of_nat m) = ?o + m" by (rule unat_off_add) (use le sz m(2) in linarith)
    have sl: "slice (v ?k) (?o mod 512) m = map (fbyte v ?x) [?o..<?o + m]"
      using fs_relD(2) [OF R] m(3) by (rule bytes_of_block)
    have x: "inodes u ip = ?x" and f': "file_ok (disksize (fs_bio u)) v (inodes u ip)" using f fd(1,9) by simp_all
    have lt: "left - m < left" using m by linarith
    have "unat (off + of_nat m) + (left - m) \<le> unat (i_size (inodes u ip))" unfolding off x using le m(2) by linarith
    note IH = less.IH [OF lt u(4) f' n this, of "got @ map (fbyte v ?x) [?o..<?o + m]", unfolded off x]
    then obtain w where
      w: "readi_loop ip (off + of_nat m) (left - m) (got @ map (fbyte v ?x) [?o..<?o + m]) u
        = Inr ((got @ map (fbyte v ?x) [?o..<?o + m]) @ map (fbyte v ?x) [?o + m..<?o + m + (left - m)], w)"
      "fs_rel w v n {}" "fs_frame u w" by blast
    have "?o + m + (left - m) = ?o + left" using m(2) by linarith
    moreover have "[?o..<?o + m] @ [?o + m..<?o + left] = [?o..<?o + left]"
      using upt_add_eq_append [of ?o "?o + m" "left - m"] m(2) by simp
    ultimately have map: "map (fbyte v ?x) [?o..<?o + m] @ map (fbyte v ?x) [?o + m..<?o + m + (left - m)]
        = map (fbyte v ?x) [?o..<?o + left]" by (metis map_append)
    have "readi_loop ip off left got s = readi_loop ip (off + of_nat m) (left - m) (got @ slice (v ?k) (?o mod 512) m) u"
      using False s1(1) u(1,2,3) k(2) by (subst readi_loop.simps) (simp add: unat_off_block(1) Let_def m_def)
    then have "readi_loop ip off left got s = Inr (got @ map (fbyte v ?x) [?o..<?o + left], w)"
      unfolding sl w(1) append.assoc map .
    then show ?thesis using w(2) fs_frame_trans [OF fu w(3)] by blast
  qed
qed

lemma readi_ok:
  assumes R: "fs_rel s v n {}" and f: "file_ok (disksize (fs_bio s)) v (inodes s ip)" and "n < NBUF"
    and ty: "i_type (inodes s ip) \<noteq> T_DEV" and le: "unat off + len \<le> unat (i_size (inodes s ip))"
  shows "\<exists>t. readi ip off (of_nat len) s
      = Inr ((int len, map (fbyte v (inodes s ip)) [unat off..<unat off + len]), t) \<and> fs_rel t v n {} \<and> fs_frame s t"
proof -
  let ?x = "inodes s ip"
  have sz: "unat (i_size ?x) \<le> 71680" using f by (simp add: file_ok_def)
  have ul: "unat (of_nat len :: uint) = len" by (rule unat_of_nat_uint) (use le sz in linarith)
  have uo: "unat (off + of_nat len) = unat off + len" by (rule unat_off_add) (use le sz in linarith)
  have cmp: "\<not> off > i_size ?x" "\<not> off + of_nat len < off" "\<not> off + of_nat len > i_size ?x"
    using le by (simp_all add: word_less_nat_alt uo)
  have si: "sint (of_nat len :: uint) = int len"
    using le sz by (simp add: sint_uint uint_nat ul signed_take_bit_int_eq_self)
  obtain t where "readi_loop ip off len [] s = Inr ([] @ map (fbyte v ?x) [unat off..<unat off + len], t)"
    "fs_rel t v n {}" "fs_frame s t" using readi_loop_ok [OF R f assms(3) le] by blast
  then show ?thesis using ty cmp by (simp add: readi_def Let_def ul si)
qed


section \<open>Writing\<close>

text \<open>Contents \<open>v'\<close> that differ from \<open>v\<close> in data blocks of the file only.\<close>

definition data_only :: "(uint \<Rightarrow> uchar list) \<Rightarrow> inode \<Rightarrow> (uint \<Rightarrow> uchar list) \<Rightarrow> bool" where
  "data_only v x v' \<longleftrightarrow> (\<forall>k. k \<notin> file_block v x ` {..<nblocks x} \<longrightarrow> v' k = v k)"

lemma data_only_blocks:
  assumes "file_ok dsz v x" and "data_only v x v'" and "b < nblocks x"
  shows "file_block v' x b = file_block v x b"
proof (cases "b < NDIRECT")
  case True
  then show ?thesis by (simp add: file_block_def)
next
  case False
  then have "i_addrs x NDIRECT \<notin> file_block v x ` {..<nblocks x}" using assms(1,3) by (auto simp: file_ok_def)
  then show ?thesis using assms(2) False by (simp add: file_block_def data_only_def)
qed

lemma data_only_file_ok:
  assumes "file_ok dsz v x" and "data_only v x v'"
  shows "file_ok dsz v' x" and "file_block v' x ` {..<nblocks x} = file_block v x ` {..<nblocks x}"
proof -
  note eq = data_only_blocks [OF assms]
  then show im: "file_block v' x ` {..<nblocks x} = file_block v x ` {..<nblocks x}" by (intro image_cong) auto
  have "inj_on (file_block v' x) {..<nblocks x} = inj_on (file_block v x) {..<nblocks x}" using eq by (intro inj_on_cong) auto
  then show "file_ok dsz v' x" using assms(1) eq im by (auto simp: file_ok_def)
qed

text \<open>Replacing a piece of one block.\<close>

lemma splice_fbyte:
  assumes f: "file_ok dsz v x" and len: "\<And>k. length (v k) = 512" and o: "off < unat (i_size x)" "off mod 512 + length cs \<le> 512"
    and j: "j < unat (i_size x)"
  defines "k \<equiv> file_block v x (off div 512)"
  defines "v' \<equiv> v(k := splice (v k) (off mod 512) cs)"
  shows "fbyte v' x j = (if off \<le> j \<and> j < off + length cs then cs ! (j - off) else fbyte v x j)" and "data_only v x v'"
proof -
  have b: "off div 512 < nblocks x" "j div 512 < nblocks x" using block_in_file o(1) j by blast+
  show d: "data_only v x v'" using b(1) by (auto simp: data_only_def v'_def k_def)
  have fb: "file_block v' x (j div 512) = file_block v x (j div 512)" by (rule data_only_blocks [OF f d b(2)])
  show "fbyte v' x j = (if off \<le> j \<and> j < off + length cs then cs ! (j - off) else fbyte v x j)"
  proof (cases "j div 512 = off div 512")
    case True
    have e: "off = 512 * (off div 512) + off mod 512" "j = 512 * (off div 512) + j mod 512"
      using True by (metis mult_div_mod_eq)+
    then have c: "off \<le> j \<longleftrightarrow> off mod 512 \<le> j mod 512" "j < off + length cs \<longleftrightarrow> j mod 512 < off mod 512 + length cs"
      "j - off = j mod 512 - off mod 512" by linarith+
    have "splice (v k) (off mod 512) cs ! (j mod 512) =
        (if off mod 512 \<le> j mod 512 \<and> j mod 512 < off mod 512 + length cs then cs ! (j mod 512 - off mod 512) else v k ! (j mod 512))"
      by (rule splice_nth) (use o(2) len in auto)
    then show ?thesis unfolding c fbyte_def fb using True by (simp add: v'_def k_def)
  next
    case False
    then have "file_block v x (j div 512) \<noteq> k"
      using f b unfolding k_def file_ok_def inj_on_def by (metis lessThan_iff)
    then have "fbyte v' x j = fbyte v x j" unfolding fbyte_def fb by (simp add: v'_def)
    moreover have "\<not> (off \<le> j \<and> j < off + length cs)"
    proof
      assume a: "off \<le> j \<and> j < off + length cs"
      have "off = 512 * (off div 512) + off mod 512" by simp
      then have "j < 512 * (off div 512) + 512" using a o(2) by linarith
      then have "j div 512 \<le> off div 512" by (simp add: div_le_mono less_Suc_eq_le [symmetric] less_mult_imp_div_less mult.commute)
      moreover have "off div 512 \<le> j div 512" using a by (simp add: div_le_mono)
      ultimately show False using False by simp
    qed
    ultimately show ?thesis by auto
  qed
qed

text \<open>The number of blocks that a write of \<open>len\<close> bytes at \<open>off\<close> touches.\<close>

definition touched :: "nat \<Rightarrow> nat \<Rightarrow> nat" where
  "touched off len = (off mod 512 + len + 511) div 512"

lemma touched_step:
  assumes "0 < len" and m: "m = min len (512 - off mod 512)" "m < len"
  shows "touched off len = Suc (touched (off + m) (len - m))"
proof -
  have m': "m = 512 - off mod 512" using m by auto
  have "off mod 512 < 512" by simp
  then have "m + off mod 512 = 512" using m' by simp
  moreover have "off = 512 * (off div 512) + off mod 512" by simp
  ultimately have "off + m = 512 * (off div 512 + 1)" by (simp only: distrib_left)
  then have "(off + m) mod 512 = 0" by simp
  moreover have "off mod 512 + len + 511 = len - m + 511 + 512" using \<open>m + off mod 512 = 512\<close> m(2) by linarith
  ultimately show ?thesis by (simp add: touched_def)
qed

lemma touched_pos: "0 < len \<Longrightarrow> 1 \<le> touched off len"
  by (simp add: touched_def less_eq_div_iff_mult_less_eq)

lemma writei_loop_ok:
  assumes "fs_rel s v n {}" and "file_ok (disksize (fs_bio s)) v (inodes s ip)"
    and "n + touched (unat off) (length src) < NBUF" "int (n + touched (unat off) (length src)) < l_size (lg s)"
    and "unat off + length src \<le> unat (i_size (inodes s ip))"
  shows "\<exists>t v' m. writei_loop ip off src s = Inr (off + of_nat (length src), t) \<and> fs_rel t v' m {}
    \<and> m \<le> n + touched (unat off) (length src) \<and> fs_frame s t \<and> data_only v (inodes s ip) v'
    \<and> (\<forall>j < unat (i_size (inodes s ip)). fbyte v' (inodes s ip) j =
         (if unat off \<le> j \<and> j < unat off + length src then src ! (j - unat off) else fbyte v (inodes s ip) j))"
  using assms
proof (induction "length src" arbitrary: src off s v n rule: less_induct)
  case less
  note R = less.prems(1) and f = less.prems(2) and room = less.prems(3,4) and le = less.prems(5)
  let ?x = "inodes s ip" and ?o = "unat off"
  show ?case
  proof (cases "src = []")
    case True
    then show ?thesis using R
      by (intro exI [of _ s] exI [of _ v] exI [of _ n]) (subst writei_loop.simps, auto simp: data_only_def)
  next
    case False
    let ?b = "?o div 512"
    define m where "m = min (length src) (512 - ?o mod 512)"
    define k where "k = file_block v ?x ?b"
    define f1 where "f1 = (\<lambda>d. splice d (?o mod 512) (take m src))"
    have m: "0 < m" "m \<le> length src" "?o mod 512 + m \<le> 512" using False by (auto simp: m_def)
    have sz: "unat (i_size ?x) \<le> 71680" using f by (simp add: file_ok_def)
    have osz: "?o < unat (i_size ?x)" using False le by (cases src) auto
    have b: "?b < nblocks ?x" using osz by (rule block_in_file)
    have c1: "1 \<le> touched ?o (length src)" using False by (intro touched_pos) simp
    obtain s1 where s1: "bmap ip (off div 512) s = Inr (k, s1)" "fs_rel s1 v n {}" "fs_frame s s1"
      using bmap_ok [OF R f b] room unat_off_block(2) [of off] by (auto simp: k_def)
    note f1d = fs_frameD [OF s1(3)]
    have k: "k < disksize (fs_bio s1)" "i_dev (inodes s1 ip) = 1" using f b f1d(1,9) by (auto simp: file_ok_def k_def)
    have len: "length (f1 (v k)) = 512" using fs_relD(2) [OF R] m(2,3) by (simp add: f1_def)
    have room1: "n + card {} < NBUF" "n < LOGSIZE" "int n < l_size (lg s1) - 1" using room c1 f1d(8) by auto
    obtain c t u w n' where w: "fs_bread 1 k s1 = Inr (c, t)" "data t c = v k"
      "fs_log_write c (set_data c (f1 (v k)) t) = Inr u" "fs_brelse c u = Inr w"
      "fs_rel w (v(k := f1 (v k))) n' {}" "n' \<le> n + 1" "fs_frame s1 w"
      using fs_update_block [OF s1(2) _ room1(1) k(1) room1(2,3), where f = f1, OF _ len] by auto
    have fw: "fs_frame s w" using fs_frame_trans [OF s1(3) w(7)] .
    note fd = fs_frameD [OF fw]
    let ?v = "v(k := f1 (v k))"
    have x: "inodes w ip = ?x" using fd(1) by simp
    have tl: "length (take m src) = m" using m(2) by simp
    have fit: "?o mod 512 + length (take m src) \<le> 512" using m(3) tl by simp
    have f1e: "f1 (v k) = splice (v k) (?o mod 512) (take m src)" by (simp add: f1_def)
    note sp = splice_fbyte [OF f fs_relD(2) [OF R] osz fit, folded k_def, folded f1e, unfolded tl]
    have dv: "data_only v ?x ?v" using sp(2) [OF osz] .
    have off: "unat (off + of_nat m) = ?o + m" by (rule unat_off_add) (use le sz m(2) in linarith)
    have eq: "writei_loop ip off src s = writei_loop ip (off + of_nat m) (drop m src) w"
      using False s1(1) w(1-4) k(2) by (subst writei_loop.simps) (simp add: unat_off_block(1) Let_def m_def f1_def)
    have f': "file_ok (disksize (fs_bio w)) ?v (inodes w ip)" using data_only_file_ok(1) [OF f dv] x fd(9) by simp
    have le': "unat (off + of_nat m) + length (drop m src) \<le> unat (i_size (inodes w ip))" unfolding off x using le m(2) by simp
    have room': "n' + touched (unat (off + of_nat m)) (length (drop m src)) \<le> n + touched ?o (length src) \<or> drop m src = []"
    proof (cases "m < length src")
      case True
      then have "touched ?o (length src) = Suc (touched (?o + m) (length src - m))"
        using touched_step [OF _ m_def] False by simp
      then show ?thesis using w(6) unfolding off by simp
    qed simp
    show ?thesis
    proof (cases "drop m src = []")
      case True
      then have "m = length src" using m(2) by simp
      then show ?thesis
        using True eq w(5,6) c1 fw dv sp(1)
        by (intro exI [of _ w] exI [of _ ?v] exI [of _ n']) (subst (asm) writei_loop.simps, auto)
    next
      case nonempty: False
      then have r: "n' + touched (unat (off + of_nat m)) (length (drop m src)) \<le> n + touched ?o (length src)"
        using room' by simp
      have r1: "n' + touched (unat (off + of_nat m)) (length (drop m src)) < NBUF"
        "int (n' + touched (unat (off + of_nat m)) (length (drop m src))) < l_size (lg w)"
        using r room fd(8) by linarith+
      have lt: "length (drop m src) < length src" using m False by simp
      obtain y v' m' where y: "writei_loop ip (off + of_nat m) (drop m src) w = Inr (off + of_nat m + of_nat (length (drop m src)), y)"
        "fs_rel y v' m' {}" "m' \<le> n' + touched (unat (off + of_nat m)) (length (drop m src))" "fs_frame w y"
        "data_only ?v ?x v'"
        "\<And>j. j < unat (i_size ?x) \<Longrightarrow> fbyte v' ?x j =
         (if ?o + m \<le> j \<and> j < ?o + m + length (drop m src) then drop m src ! (j - (?o + m)) else fbyte ?v ?x j)"
        using less.hyps [OF lt w(5) f' r1 le', unfolded x off] unfolding off by blast
      have "off + of_nat m + of_nat (length (drop m src)) = off + of_nat (length src)" using m(2) by (simp add: of_nat_diff)
      moreover have "data_only v ?x v'"
        using dv y(5) data_only_file_ok(2) [OF f dv] by (auto simp: data_only_def)
      moreover have "fbyte v' ?x j = (if ?o \<le> j \<and> j < ?o + length src then src ! (j - ?o) else fbyte v ?x j)"
        if "j < unat (i_size ?x)" for j
        using y(6) [OF that] sp(1) [OF that] m(2) by auto
      ultimately show ?thesis
        using eq y(1-4) r fs_frame_trans [OF fw y(4)] by (intro exI [of _ y] exI [of _ v'] exI [of _ m']) auto
    qed
  qed
qed

lemma writei_ok:
  assumes R: "fs_rel s v n {}" and f: "file_ok (disksize (fs_bio s)) v (inodes s ip)" and ty: "i_type (inodes s ip) \<noteq> T_DEV"
    and room: "n + touched (unat off) (length src) < NBUF" "int (n + touched (unat off) (length src)) < l_size (lg s)"
    and le: "unat off + length src \<le> unat (i_size (inodes s ip))"
  shows "\<exists>t v' m. writei ip src off s = Inr (int (length src), t) \<and> fs_rel t v' m {}
    \<and> m \<le> n + touched (unat off) (length src) \<and> fs_frame s t \<and> data_only v (inodes s ip) v'
    \<and> (\<forall>j < unat (i_size (inodes s ip)). fbyte v' (inodes s ip) j =
         (if unat off \<le> j \<and> j < unat off + length src then src ! (j - unat off) else fbyte v (inodes s ip) j))"
proof -
  let ?x = "inodes s ip" and ?n = "of_nat (length src) :: uint"
  have sz: "unat (i_size ?x) \<le> 71680" using f by (simp add: file_ok_def)
  have ul: "unat ?n = length src" by (rule unat_of_nat_uint) (use le sz in linarith)
  have uo: "unat (off + ?n) = unat off + length src" by (rule unat_off_add) (use le sz in linarith)
  have cmp: "\<not> off > i_size ?x" "\<not> off + ?n < off" "\<not> off + ?n > i_size ?x" "\<not> off + ?n > 140 * 512"
    using le sz by (simp_all add: word_less_nat_alt uo)
  have si: "sint ?n = int (length src)"
    using le sz by (simp add: sint_uint uint_nat ul signed_take_bit_int_eq_self)
  obtain t v' m where t: "writei_loop ip off src s = Inr (off + ?n, t)" "fs_rel t v' m {}"
    "m \<le> n + touched (unat off) (length src)" "fs_frame s t" "data_only v ?x v'"
    "\<forall>j < unat (i_size ?x). fbyte v' ?x j =
      (if unat off \<le> j \<and> j < unat off + length src then src ! (j - unat off) else fbyte v ?x j)"
    using writei_loop_ok [OF R f room le] by blast
  have "\<not> off + ?n > i_size (inodes t ip)" using cmp(3) fs_frameD(1) [OF t(4)] by simp
  then have "writei ip src off s = Inr (int (length src), t)"
    using ty cmp t(1) by (simp add: writei_def Let_def si)
  with t show ?thesis by blast
qed

text \<open>What is written is read back, and the rest of the file stays as it was.\<close>

lemma writei_readi:
  assumes R: "fs_rel s v n {}" and f: "file_ok (disksize (fs_bio s)) v (inodes s ip)" and ty: "i_type (inodes s ip) \<noteq> T_DEV"
    and room: "n + touched (unat off) (length src) < NBUF" "int (n + touched (unat off) (length src)) < l_size (lg s)"
    and le: "unat off + length src \<le> unat (i_size (inodes s ip))"
  shows "\<exists>t v' m. writei ip src off s = Inr (int (length src), t) \<and> fs_rel t v' m {}
    \<and> (\<exists>u. readi ip off (of_nat (length src)) t = Inr ((int (length src), src), u))
    \<and> (\<forall>off' len. unat off' + len \<le> unat (i_size (inodes s ip)) \<longrightarrow>
         unat off' + len \<le> unat off \<or> unat off + length src \<le> unat off' \<longrightarrow>
         (\<exists>u u'. readi ip off' (of_nat len) t = Inr ((int len, map (fbyte v (inodes s ip)) [unat off'..<unat off' + len]), u)
           \<and> readi ip off' (of_nat len) s = Inr ((int len, map (fbyte v (inodes s ip)) [unat off'..<unat off' + len]), u')))"
proof -
  let ?x = "inodes s ip"
  obtain t v' m where t: "writei ip src off s = Inr (int (length src), t)" "fs_rel t v' m {}"
    "m \<le> n + touched (unat off) (length src)" "fs_frame s t" "data_only v ?x v'"
    "\<And>j. j < unat (i_size ?x) \<Longrightarrow> fbyte v' ?x j =
      (if unat off \<le> j \<and> j < unat off + length src then src ! (j - unat off) else fbyte v ?x j)"
    using writei_ok [OF assms] by blast
  have x: "inodes t ip = ?x" "disksize (fs_bio t) = disksize (fs_bio s)" using fs_frameD(1,9) [OF t(4)] by simp_all
  have f': "file_ok (disksize (fs_bio t)) v' (inodes t ip)" using data_only_file_ok(1) [OF f t(5)] x by simp
  have m: "m < NBUF" "n < NBUF" using t(3) room by linarith+
  note rd = readi_ok [OF t(2) f' m(1), unfolded x(1), OF ty]
  have "map (fbyte v' ?x) [unat off..<unat off + length src] = src"
    using t(6) le by (intro nth_equalityI) auto
  then have "\<exists>u. readi ip off (of_nat (length src)) t = Inr ((int (length src), src), u)" using rd [OF le] by auto
  moreover have "\<exists>u u'. readi ip off' (of_nat len) t = Inr ((int len, map (fbyte v ?x) [unat off'..<unat off' + len]), u)
           \<and> readi ip off' (of_nat len) s = Inr ((int len, map (fbyte v ?x) [unat off'..<unat off' + len]), u')"
    if r: "unat off' + len \<le> unat (i_size ?x)" "unat off' + len \<le> unat off \<or> unat off + length src \<le> unat off'" for off' len
  proof -
    have "map (fbyte v' ?x) [unat off'..<unat off' + len] = map (fbyte v ?x) [unat off'..<unat off' + len]"
      using t(6) r by (intro map_cong) auto
    then show ?thesis using rd [OF r(1)] readi_ok [OF R f m(2) ty r(1)] by auto
  qed
  ultimately show ?thesis using t(1,2) by blast
qed


section \<open>Properties\<close>

text \<open>An empty disk with the layout that \<^verbatim>\<open>mkfs\<close> gives 200 inodes, inside a transaction, and one inode in use.\<close>

definition zero_inode :: inode where
  "zero_inode = \<lparr>i_dev = 0, i_inum = 0, i_ref = 0, i_lock = initsleeplock, i_valid = False, i_type = 0, i_major = 0, i_minor = 0,
     i_nlink = 0, i_size = 0, i_addrs = (\<lambda>_. 0)\<rparr>"

definition mkfs_sb :: superblock where
  "mkfs_sb = \<lparr>sb_size = 5000, sb_nblocks = 4940, sb_ninodes = 200, sb_nlog = 30, sb_logstart = 2, sb_inodestart = 32, sb_bmapstart = 58\<rparr>"

lemma mkfs_sb_size [simp]: "sb_size mkfs_sb = 5000"
  by (simp add: mkfs_sb_def)

definition empty_fs :: "(uint \<Rightarrow> uchar list) \<Rightarrow> inode \<Rightarrow> fsst" where
  "empty_fs d x = \<lparr>lg = empty_log\<lparr>lbio := binit (bss_bio\<lparr>memdisk := d\<rparr>)\<rparr>,
     sb = mkfs_sb, inodes = (\<lambda>_. zero_inode)(0 := x), devsw_read = Map.empty, devsw_write = Map.empty, cons = bss_console, my_killed = False, my_cwd = None\<rparr>"

lemma empty_fs_bio: "same_disk (bss_bio\<lparr>memdisk := d\<rparr>) (fs_bio (empty_fs d x))"
  using binit_other [of "bss_bio\<lparr>memdisk := d\<rparr>"] by (simp add: empty_fs_def fs_bio_def bss_bio_def)

lemma empty_fs_size:
  "disksize (fs_bio (empty_fs d x)) = 5000" "sb (empty_fs d x) = mkfs_sb" "l_size (lg (empty_fs d x)) = 30"
  "inodes (empty_fs d x) 0 = x" "memdisk (fs_bio (empty_fs d x)) = d" "mypid (fs_bio (empty_fs d x)) = 1"
  using empty_fs_bio [of d x] by (simp_all add: empty_fs_def empty_log_def same_disk_def bss_bio_def)

lemma empty_fs_rel: "(\<And>k. length (d k) = 512) \<Longrightarrow> fs_rel (empty_fs d x) d 0 {}"
  using binit_rel [of "bss_bio\<lparr>memdisk := d\<rparr>"] empty_fs_size [of d x]
  by (simp add: fs_rel_def layout_def empty_fs_def empty_log_def fs_bio_def bss_bio_def)

abbreviation zero_disk :: "uint \<Rightarrow> uchar list" where
  "zero_disk \<equiv> (\<lambda>_. replicate 512 0)"

lemma mkfs_BBLOCK: "r < 5000 \<Longrightarrow> BBLOCK (of_nat r) mkfs_sb = (if r < 4096 then 58 else 59)"
  by (auto simp: BBLOCK_def mkfs_sb_def unat_inject [symmetric] unat_word_ariths unat_of_nat_uint unat_div div_nat_eqI)

lemma empty_fs_bitmap: "bitmap_ok (empty_fs d x) {}"
  by (simp add: bitmap_ok_def empty_fs_size mkfs_BBLOCK)

text \<open>
  C23. \<open>balloc\<close> takes the lowest free block: it marks it in the bitmap and zeroes it, changes nothing else, and logs at most
  two blocks; it panics exactly when every block of the disk is in use.
\<close>

theorem balloc_lowest:
  assumes "fs_rel s v n H" and "bitmap_ok s H" and "n + 1 < LOGSIZE" and "int n + 1 < l_size (lg s) - 1" and "n + card H + 1 < NBUF"
    and "\<forall>r < unat (sb_size (sb s)). \<not> used (sb s) v r \<longrightarrow> of_nat r \<notin> H \<and> of_nat r < disksize (fs_bio s)"
  shows "if \<exists>r < unat (sb_size (sb s)). \<not> used (sb s) v r
    then \<exists>r t m. balloc 1 s = Inr (of_nat r, t) \<and> r < unat (sb_size (sb s)) \<and> \<not> used (sb s) v r
      \<and> (\<forall>q < r. used (sb s) v q) \<and> fs_rel t (alloc_view (sb s) r v) m H \<and> m \<le> n + 2
    else balloc 1 s = Inl (Panic ''balloc: out of blocks'')"
  using balloc_ok [OF assms(1-5)] assms(6) by (auto split: if_splits)

theorem balloc_lowest_witness:
  "\<exists>t. balloc 1 (empty_fs zero_disk zero_inode) = Inr (0, t)"
proof -
  let ?s = "empty_fs zero_disk zero_inode"
  have free: "\<not> used (sb ?s) (\<lambda>_. replicate 512 0) 0" by (simp add: used_def bit_used_def)
  have "\<forall>r < unat (sb_size (sb ?s)). \<not> used (sb ?s) (\<lambda>_. replicate 512 0) r \<longrightarrow> of_nat r \<notin> {} \<and> of_nat r < disksize (fs_bio ?s)"
    by (simp add: empty_fs_size word_less_nat_alt unat_of_nat_uint)
  from balloc_lowest [OF empty_fs_rel [of zero_disk] empty_fs_bitmap _ _ _ this] free
  obtain r t where "balloc 1 ?s = Inr (of_nat r, t)" "\<forall>q < r. used (sb ?s) (\<lambda>_. replicate 512 0) q"
    by (auto simp: empty_fs_size split: if_splits)
  then show ?thesis using free by (cases r) auto
qed

text \<open>
  A block that \<open>balloc\<close> has taken and \<open>bfree\<close> gives back leaves the bitmap as it was; only the block itself has been zeroed.
\<close>

lemma balloc_bfree:
  assumes "fs_rel s v n H" and "bitmap_ok s H" and "n + 2 < LOGSIZE" and "int n + 2 < l_size (lg s) - 1" and "n + card H + 2 < NBUF"
    and "\<forall>r < unat (sb_size (sb s)). \<not> used (sb s) v r \<longrightarrow> of_nat r \<notin> H \<and> of_nat r < disksize (fs_bio s) \<and> of_nat r \<noteq> BBLOCK (of_nat r) (sb s)"
    and "\<exists>r < unat (sb_size (sb s)). \<not> used (sb s) v r"
  shows "\<exists>r t u m. balloc 1 s = Inr (of_nat r, t) \<and> bfree 1 (of_nat r) t = Inr u \<and> r < unat (sb_size (sb s))
    \<and> fs_rel u (v(of_nat r := replicate 512 0)) m H"
proof -
  obtain r t m where t: "balloc 1 s = Inr (of_nat r, t)" "r < unat (sb_size (sb s))" "\<not> used (sb s) v r"
    "fs_rel t (alloc_view (sb s) r v) m H" "m \<le> n + 2" "fs_frame s t"
    using balloc_ok [OF assms(1,2)] assms(3-7) by (auto split: if_splits)
  let ?k = "BBLOCK (of_nat r) (sb s)" and ?v = "alloc_view (sb s) r v"
  have ne: "of_nat r \<noteq> ?k" using assms(6) t(2,3) by blast
  have b: "r mod 4096 div 8 < length (v ?k)" using fs_relD(2) [OF assms(1)] by (simp add: less_mult_imp_div_less)
  have vk: "?v ?k = set_bit_used (v ?k) (r mod 4096)" using ne by (simp add: alloc_view_def)
  have fr: "sb t = sb s" "l_size (lg t) = l_size (lg s)" using fs_frameD [OF t(6)] by simp_all
  have bm: "bitmap_ok t H" using assms(2) fs_frameD [OF t(6)] by (simp add: bitmap_ok_def)
  have "used (sb t) ?v r" using b by (simp add: used_def fr vk bit_used_set)
  then obtain u m' where u: "bfree 1 (of_nat r) t = Inr u" "fs_rel u (?v(?k := clear_bit_used (?v ?k) (r mod 4096))) m' H"
    using bfree_ok [OF t(4) bm, of r] t(2,5) assms(3-5) by (auto simp: fr split: if_splits)
  have "?v(?k := clear_bit_used (?v ?k) (r mod 4096)) = v(of_nat r := replicate 512 0)"
    using clear_set_bit [OF b] t(3) ne unfolding vk by (auto simp: alloc_view_def used_def fun_eq_iff)
  with t u show ?thesis by auto
qed

text \<open>A disk whose bitmap block is marked in the bitmap.\<close>

definition marked_disk :: "uint \<Rightarrow> uchar list" where
  "marked_disk = zero_disk(58 := set_bit_used (replicate 512 0) 58)"

text \<open>
  C24. An inode that \<open>iupdate\<close> has written is read back by \<open>ilock\<close>: when the cache entry has been invalidated in
  between, the next \<open>ilock\<close> restores type, device numbers, link count, size and addresses.
\<close>

theorem iupdate_ilock:
  assumes "fs_rel s v n H" and "i_dev (inodes s ip) = 1" and "IBLOCK (i_inum (inodes s ip)) (sb s) \<notin> H"
    and "IBLOCK (i_inum (inodes s ip)) (sb s) < disksize (fs_bio s)"
    and "n + card H + 1 < NBUF" and "n < LOGSIZE" and "int n < l_size (lg s) - 1" and "i_type (inodes s ip) \<noteq> 0"
    and "i_dev y = 1" and "i_inum y = i_inum (inodes s ip)" and "1 \<le> i_ref y" and "\<not> i_valid y" and "\<not> sl_locked (i_lock y)"
  shows "\<exists>t u. iupdate ip s = Inr t \<and> ilock (Some ip) (upd_inode ip (\<lambda>_. y) t) = Inr u \<and> same_dinode (inodes u ip) (inodes s ip)
    \<and> i_valid (inodes u ip)"
proof -
  let ?x = "inodes s ip" and ?k = "IBLOCK (i_inum (inodes s ip)) (sb s)"
  let ?v = "iupdate_view (sb s) ?x v"
  obtain t m where t: "iupdate ip s = Inr t" "fs_rel t ?v m H" "m \<le> n + 1" "fs_frame s t"
    using iupdate_ok [OF assms(1-4) _ assms(6,7)] assms(5) by auto
  note fr = fs_frameD [OF t(4)]
  let ?t = "upd_inode ip (\<lambda>_. y) t"
  have R: "fs_rel ?t ?v m H" using t(2) by simp
  have same: "same_dinode (get_dinode (?v ?k) (dip (i_inum ?x)) y) ?x"
    using get_put_dinode [of "dip (i_inum ?x)" "v ?k" ?x y] dip_fits fs_relD(2) [OF assms(1)]
    by (simp add: iupdate_view_def Let_def)
  then have ty: "i_type (get_dinode (?v ?k) (dip (i_inum ?x)) y) \<noteq> 0" using assms(8) by (simp add: same_dinode_def)
  have "\<exists>u. ilock (Some ip) ?t = Inr u \<and> same_dinode (inodes u ip) (get_dinode (?v ?k) (dip (i_inum ?x)) y) \<and> i_valid (inodes u ip)"
    using ilock_reads [OF R, of ip] assms(3-5,9-13) ty t(3) fr(2,9) by (auto split: if_splits)
  then show ?thesis using t(1) same by (auto simp: same_dinode_def)
qed

definition some_file :: inode where
  "some_file = zero_inode\<lparr>i_dev := 1, i_inum := 5, i_ref := 1, i_valid := True, i_type := T_FILE, i_nlink := 1, i_size := 1000,
     i_addrs := (\<lambda>_. 0)(0 := 200, 1 := 201)\<rparr>"

definition evicted :: inode where
  "evicted = zero_inode\<lparr>i_dev := 1, i_inum := 5, i_ref := 1\<rparr>"

lemma some_file_facts:
  "i_dev some_file = 1" "i_inum some_file = 5" "i_type some_file = T_FILE" "i_size some_file = 1000"
  "i_dev evicted = 1" "i_inum evicted = 5" "i_ref evicted = 1" "\<not> i_valid evicted" "\<not> sl_locked (i_lock evicted)"
  "IBLOCK 5 mkfs_sb = 32"
  by (simp_all add: some_file_def evicted_def zero_inode_def initsleeplock_def IBLOCK_def mkfs_sb_def)

theorem iupdate_ilock_witness:
  "\<exists>t u. iupdate 0 (empty_fs zero_disk some_file) = Inr t \<and> ilock (Some 0) (upd_inode 0 (\<lambda>_. evicted) t) = Inr u
    \<and> i_size (inodes u 0) = 1000"
  using iupdate_ilock [OF empty_fs_rel [of zero_disk some_file], where ip = 0 and y = evicted]
  by (auto simp: empty_fs_size some_file_facts same_dinode_def)

lemma some_file_blocks:
  "nblocks some_file = 2" "file_block v some_file 0 = 200" "file_block v some_file (Suc 0) = 201"
  by (simp_all add: nblocks_def file_block_def some_file_def)

lemma some_file_ok: "file_ok 5000 v some_file"
proof -
  have two: "b < 2 \<longleftrightarrow> b = 0 \<or> b = Suc 0" for b :: nat by auto
  have "inj_on (file_block v some_file) {..<2}" by (auto simp: inj_on_def two some_file_blocks)
  then show ?thesis by (auto simp: file_ok_def some_file_blocks some_file_facts two)
qed

text \<open>
  C22. \<open>readi\<close> inside a file returns the bytes of the file: byte \<open>j\<close> of the result is byte \<open>off + j\<close> of the contents that
  the inode's direct and indirect blocks hold, and nothing changes.
\<close>

theorem readi_contents:
  assumes "fs_rel s v n {}" and "file_ok (disksize (fs_bio s)) v (inodes s ip)" and "n < NBUF"
    and "i_type (inodes s ip) \<noteq> T_DEV" and "unat off + len \<le> unat (i_size (inodes s ip))"
  shows "\<exists>t bs. readi ip off (of_nat len) s = Inr ((int len, bs), t) \<and> length bs = len
    \<and> (\<forall>j < len. bs ! j = fbyte v (inodes s ip) (unat off + j)) \<and> fs_rel t v n {} \<and> fs_frame s t"
  using readi_ok [OF assms] by auto

theorem readi_contents_witness:
  "\<exists>t bs. readi 0 510 4 (empty_fs zero_disk some_file) = Inr ((4, bs), t) \<and> length bs = 4"
  using readi_contents [OF empty_fs_rel [of zero_disk some_file], where ip = 0 and off = 510 and len = 4]
  by (auto simp: empty_fs_size some_file_facts some_file_ok)

text \<open>
  C3. What \<open>writei\<close> writes inside a file is what \<open>readi\<close> reads back, across block boundaries and the indirect block, and every
  range that does not overlap the write reads as before.
\<close>

theorem writei_then_readi:
  assumes "fs_rel s v n {}" and "file_ok (disksize (fs_bio s)) v (inodes s ip)" and "i_type (inodes s ip) \<noteq> T_DEV"
    and "n + touched (unat off) (length src) < NBUF" and "int (n + touched (unat off) (length src)) < l_size (lg s)"
    and "unat off + length src \<le> unat (i_size (inodes s ip))"
  shows "\<exists>t v' m. writei ip src off s = Inr (int (length src), t) \<and> fs_rel t v' m {}
    \<and> (\<exists>u. readi ip off (of_nat (length src)) t = Inr ((int (length src), src), u))
    \<and> (\<forall>off' len. unat off' + len \<le> unat (i_size (inodes s ip)) \<longrightarrow>
         unat off' + len \<le> unat off \<or> unat off + length src \<le> unat off' \<longrightarrow>
         (\<exists>bs u u'. readi ip off' (of_nat len) t = Inr ((int len, bs), u) \<and> readi ip off' (of_nat len) s = Inr ((int len, bs), u')))"
  using writei_readi [OF assms] by blast

theorem writei_then_readi_witness:
  "\<exists>t u. writei 0 [1, 2, 3, 4] 510 (empty_fs zero_disk some_file) = Inr (4, t) \<and> readi 0 510 4 t = Inr ((4, [1, 2, 3, 4]), u)"
  using writei_then_readi [OF empty_fs_rel [of zero_disk some_file], where ip = 0 and off = 510 and src = "[1, 2, 3, 4]"]
  by (auto simp: empty_fs_size some_file_facts some_file_ok touched_def)

end
