(* ===== verification/Kinv.thy ===== *)
theory Kinv
  imports Frame Fsfile
begin

text \<open>
  An invariant of the process table that every trap and the scheduler keep: which process is running and with which
  page table, that a process that is not free has a kernel stack and a page table, and that every process has
  a living parent that will collect it.
\<close>

definition alive :: "proc \<Rightarrow> bool" where
  "alive x \<longleftrightarrow> p_state x \<in> {SLEEPING, RUNNABLE, RUNNING}"

definition proc_inv :: "kst \<Rightarrow> bool" where
  "proc_inv s \<longleftrightarrow>
    (\<forall>p. p_state (procs s p) = RUNNING \<longleftrightarrow> cur s = Some p) \<and>
    (\<forall>p. p_state (procs s p) \<noteq> EMBRYO) \<and>
    (\<forall>p. p_state (procs s p) \<noteq> UNUSED \<longrightarrow> p < NPROC \<and> p_kstack (procs s p) \<noteq> 0 \<and> p_pgdir (procs s p) \<noteq> 0) \<and>
    (\<forall>p. cur s = Some p \<longrightarrow> cr3 s = V2P (p_pgdir (procs s p))) \<and>
    (\<exists>i. initproc s = Some i \<and> alive (procs s i)) \<and>
    (\<forall>p. p_state (procs s p) \<noteq> UNUSED \<longrightarrow> initproc s = Some p \<or> (\<exists>q. p_parent (procs s p) = Some q \<and> alive (procs s q)))"

lemma proc_invD:
  assumes "proc_inv s"
  shows "p_state (procs s p) = RUNNING \<longleftrightarrow> cur s = Some p" "p_state (procs s p) \<noteq> EMBRYO"
    "p_state (procs s p) \<noteq> UNUSED \<Longrightarrow> p < NPROC" "p_state (procs s p) \<noteq> UNUSED \<Longrightarrow> p_kstack (procs s p) \<noteq> 0"
    "p_state (procs s p) \<noteq> UNUSED \<Longrightarrow> p_pgdir (procs s p) \<noteq> 0" "cur s = Some p \<Longrightarrow> cr3 s = V2P (p_pgdir (procs s p))"
    "\<exists>i. initproc s = Some i \<and> alive (procs s i)"
    "p_state (procs s p) \<noteq> UNUSED \<Longrightarrow> initproc s = Some p \<or> (\<exists>q. p_parent (procs s p) = Some q \<and> alive (procs s q))"
  using assms by (simp_all add: proc_inv_def)

lemma core_eqD: "core x = core y \<Longrightarrow> p_state x = p_state y \<and> p_kstack x = p_kstack y \<and> p_pgdir x = p_pgdir y \<and> p_parent x = p_parent y"
  by (simp add: core_def)

lemma kframe_sel:
  assumes "kframe s t"
  shows "cur t = cur s" "cr3 t = cr3 s" "initproc t = initproc s" "p_state (procs t p) = p_state (procs s p)"
    "p_kstack (procs t p) = p_kstack (procs s p)" "p_pgdir (procs t p) = p_pgdir (procs s p)" "p_parent (procs t p) = p_parent (procs s p)"
    "alive (procs t p) = alive (procs s p)"
proof -
  have "core (procs t p) = core (procs s p)" using assms by (simp add: kframe_def)
  note c = core_eqD [OF this]
  show "cur t = cur s" "cr3 t = cr3 s" "initproc t = initproc s" using assms by (simp_all add: kframe_def)
  show "p_state (procs t p) = p_state (procs s p)" "p_kstack (procs t p) = p_kstack (procs s p)"
    "p_pgdir (procs t p) = p_pgdir (procs s p)" "p_parent (procs t p) = p_parent (procs s p)" "alive (procs t p) = alive (procs s p)"
    using c by (simp_all add: alive_def)
qed

lemma proc_inv_kframe: "kframe s t \<Longrightarrow> proc_inv t = proc_inv s"
  by (simp add: proc_inv_def kframe_sel)

text \<open>A computation keeps the invariant: when it holds in \<open>s\<close>, it holds where the computation returns.\<close>

definition keeps :: "kst \<Rightarrow> kerror + 'a \<times> kst \<Rightarrow> bool" where
  "keeps s m \<longleftrightarrow> (proc_inv s \<longrightarrow> (\<forall>x t. m = Inr (x, t) \<longrightarrow> proc_inv t))"

definition keeps0 :: "kst \<Rightarrow> kerror + kst \<Rightarrow> bool" where
  "keeps0 s m \<longleftrightarrow> (proc_inv s \<longrightarrow> (\<forall>t. m = Inr t \<longrightarrow> proc_inv t))"

named_theorems keeps_intros

lemma keeps_frames: "frames s m \<Longrightarrow> keeps s m" "frames0 s n \<Longrightarrow> keeps0 s n"
  using proc_inv_kframe by (auto simp: keeps_def keeps0_def frames_def frames0_def)

lemma keeps_basic [keeps_intros]:
  "kframe s t \<Longrightarrow> keeps s (Inr (x, t))" "keeps s (Inl e)" "kframe s t \<Longrightarrow> keeps0 s (Inr t)" "keeps0 s (Inl e)"
  by (auto intro: keeps_frames frames_basic)

lemma keeps_bind [keeps_intros]:
  "frames s m \<Longrightarrow> (\<And>x t. kframe s t \<Longrightarrow> keeps s (g (x, t))) \<Longrightarrow> keeps s (bindE m g)"
  "frames0 s n \<Longrightarrow> (\<And>t. kframe s t \<Longrightarrow> keeps s (h t)) \<Longrightarrow> keeps s (bindE n h)"
  "frames s m \<Longrightarrow> (\<And>x t. kframe s t \<Longrightarrow> keeps0 s (g' (x, t))) \<Longrightarrow> keeps0 s (bindE m g')"
  "frames0 s n \<Longrightarrow> (\<And>t. kframe s t \<Longrightarrow> keeps0 s (h' t)) \<Longrightarrow> keeps0 s (bindE n h')"
  by (auto simp: keeps_def keeps0_def frames_def frames0_def bindE_eq_Inr)

lemma keeps_with_me [keeps_intros]:
  "(\<And>p. cur t = Some p \<Longrightarrow> keeps s (f p t)) \<Longrightarrow> keeps s (with_me f t)"
  "(\<And>p. cur t = Some p \<Longrightarrow> keeps0 s (f' p t)) \<Longrightarrow> keeps0 s (with_me f' t)"
  by (auto simp: with_me_def keeps_def keeps0_def split: option.splits)


section \<open>Waking\<close>

text \<open>Processes may be woken and children may pass to the initial process.\<close>

definition woken1 :: "nat option \<Rightarrow> proc \<Rightarrow> proc \<Rightarrow> bool" where
  "woken1 i x y \<longleftrightarrow> p_kstack y = p_kstack x \<and> p_pgdir y = p_pgdir x \<and> (p_parent y = p_parent x \<or> p_parent y = i) \<and>
    (p_state y = p_state x \<or> p_state x = SLEEPING \<and> p_state y = RUNNABLE)"

definition woken :: "kst \<Rightarrow> kst \<Rightarrow> bool" where
  "woken s t \<longleftrightarrow> cur t = cur s \<and> cr3 t = cr3 s \<and> initproc t = initproc s \<and> (\<forall>q. woken1 (initproc s) (procs s q) (procs t q))"

lemma woken_refl [simp]: "woken s s"
  by (simp add: woken_def woken1_def)

lemma woken1_trans: "woken1 i x y \<Longrightarrow> woken1 i y z \<Longrightarrow> woken1 i x z"
  by (auto simp: woken1_def)

lemma woken_trans: "woken s t \<Longrightarrow> woken t u \<Longrightarrow> woken s u"
  by (auto simp: woken_def intro: woken1_trans)

lemma woken1_alive: "woken1 i x y \<Longrightarrow> alive y = alive x"
  by (auto simp: woken1_def alive_def)

lemma woken1_state:
  assumes "woken1 i x y"
  shows "p_state y = RUNNING \<longleftrightarrow> p_state x = RUNNING" "p_state y = EMBRYO \<longleftrightarrow> p_state x = EMBRYO" "p_state y = UNUSED \<longleftrightarrow> p_state x = UNUSED"
    "p_state y = ZOMBIE \<longleftrightarrow> p_state x = ZOMBIE"
  using assms by (auto simp: woken1_def)

lemma woken_inv:
  assumes w: "woken s t" and inv: "proc_inv s"
  shows "proc_inv t"
proof -
  have w1: "woken1 (initproc s) (procs s q) (procs t q)" for q using w by (simp add: woken_def)
  have w': "cur t = cur s" "cr3 t = cr3 s" "initproc t = initproc s" "\<And>q. p_kstack (procs t q) = p_kstack (procs s q)"
    "\<And>q. p_pgdir (procs t q) = p_pgdir (procs s q)" "\<And>q. p_parent (procs t q) = p_parent (procs s q) \<or> p_parent (procs t q) = initproc s"
    using w by (auto simp: woken_def woken1_def)
  note st = woken1_state [OF w1] woken1_alive [OF w1]
  have "\<exists>i. initproc s = Some i \<and> alive (procs s i)" using inv by (simp add: proc_inv_def)
  moreover have "initproc s = Some p \<or> (\<exists>q. p_parent (procs s p) = Some q \<and> alive (procs s q))"
    if "p_state (procs s p) \<noteq> UNUSED" for p using inv that by (simp add: proc_inv_def)
  ultimately have "initproc s = Some p \<or> (\<exists>q. p_parent (procs t p) = Some q \<and> alive (procs s q))"
    if "p_state (procs s p) \<noteq> UNUSED" for p using w'(6) [of p] that by metis
  then show ?thesis using inv by (simp add: proc_inv_def w'(1-5) st)
qed

lemma wakeup1_woken [simp]: "woken s (wakeup1 ch s)" "woken s (wakeup ch s)"
  by (auto simp: woken_def woken1_def wakeup1_def wakeup_def Let_def)

lemma fold_woken: "(\<And>x t. woken t (f x t)) \<Longrightarrow> woken s (fold f xs s)"
  by (induction xs arbitrary: s) (auto intro: woken_trans)

lemma deliver_inv: "proc_inv s \<Longrightarrow> proc_inv (deliver s)"
proof -
  assume inv: "proc_inv s"
  have "proc_inv (s\<lparr>fil := f\<rparr>)" for f using inv by (simp add: proc_inv_def)
  then show ?thesis unfolding deliver_def Let_def by (intro woken_inv [OF fold_woken]) simp_all
qed


section \<open>Exec\<close>

lemma ustring_frames [frame_intros]: "kframe s t \<Longrightarrow> frames s (ustring a t)"
  unfolding ustring_def by (auto intro!: frame_intros split: option.splits)

lemma exec_bad_frames [frame_intros]: "kframe s t \<Longrightarrow> frames s (exec_bad d ipo t)"
  unfolding exec_bad_def by (auto intro!: frame_intros split: option.splits)

lemma exec_load_frames [frame_intros]: "kframe s t \<Longrightarrow> frames s (exec_load d ip off n sz t)"
  by (induction n arbitrary: off sz t) (auto intro!: frame_intros simp: Let_def)

lemma exec_args_frames [frame_intros]: "kframe s t \<Longrightarrow> frames s (exec_args d as sp us t)"
  by (induction as arbitrary: sp us t) (auto intro!: frame_intros simp: Let_def)

lemma exec_swap_frames [frame_intros]: "kframe s t \<Longrightarrow> frames0 s (exec_swap p t)"
  unfolding exec_swap_def by (auto intro!: frame_intros)

lemma exec_argv_frames [frame_intros]: "kframe s t \<Longrightarrow> frames s (exec_argv n a t)"
  by (induction n arbitrary: a t) (auto intro!: frame_intros split: option.splits)

lemma clearpteu_frames [frame_intros]: "kframe s t \<Longrightarrow> frames0 s (clearpteu d a t)"
  unfolding clearpteu_def by (auto intro!: frame_intros simp: Let_def split: option.splits prod.splits dest!: frame_dests)

text \<open>The new image becomes the address space of the current process.\<close>

lemma exec_commit_keeps [keeps_intros]:
  assumes "kframe s t" and p: "cur t = Some p"
  shows "keeps s (exec_commit p d sz e sp path t)"
proof -
  have "proc_inv v" if inv: "proc_inv t" and v: "exec_commit p d sz e sp path t = Inr (r, v)" for r v
  proof -
    let ?n = "upd_proc p (\<lambda>x. x\<lparr>p_name := safestrcpy (path_last path) 16, p_pgdir := d, p_sz := sz,
                p_tf := (p_tf x)\<lparr>tf_eip := e, tf_esp := sp\<rparr>\<rparr>) t"
    obtain u where u: "switchuvm (Some p) ?n = Inr u" "freevm (p_pgdir (procs t p)) u = Inr v"
      using v by (auto simp: exec_commit_def Let_def bindE_eq_Inr)
    then have d: "d \<noteq> 0" "u = ?n\<lparr>cr3 := V2P d\<rparr>"
      by (auto simp: switchuvm_def upd_proc_def split: if_splits)
    have "proc_inv u" using inv p by (auto simp: proc_inv_def d upd_proc_def alive_def)
    moreover have "frames0 u (freevm (p_pgdir (procs t p)) u)" by (intro frame_intros) simp
    ultimately show ?thesis using u(2) proc_inv_kframe by (auto simp: frames0_def)
  qed
  then show ?thesis using proc_inv_kframe [OF assms(1)] by (auto simp: keeps_def)
qed

lemma exec_stack_keeps [keeps_intros]:
  "kframe s t \<Longrightarrow> cur t = Some p \<Longrightarrow> keeps s (exec_stack p d sz e path argv t)"
  unfolding exec_stack_def
  by (auto intro!: keeps_intros frame_intros keeps_frames(1) [OF exec_bad_frames] simp: Let_def kframe_sel split: option.splits)


lemma exec_keeps: "kframe s t \<Longrightarrow> keeps s (exec path argv t)"
  unfolding exec_def
  by (auto intro!: keeps_intros frame_intros keeps_frames(1) [OF exec_bad_frames] simp: Let_def kframe_sel split: option.splits)

lemma sys_exec_keeps [keeps_intros]: "kframe s t \<Longrightarrow> keeps s (sys_exec t)"
  unfolding sys_exec_def by (auto intro!: keeps_intros frame_intros exec_keeps split: option.splits)


section \<open>Creating processes\<close>

text \<open>All but one slot is as before, and no process was alive in that slot.\<close>

definition born :: "nat \<Rightarrow> kst \<Rightarrow> kst \<Rightarrow> bool" where
  "born np s t \<longleftrightarrow> np < NPROC \<and> \<not> alive (procs s np) \<and> cur t = cur s \<and> cr3 t = cr3 s \<and> initproc t = initproc s \<and>
    (\<forall>q. q \<noteq> np \<longrightarrow> core (procs t q) = core (procs s q))"

lemma born_kframe: "born np s t \<Longrightarrow> kframe t u \<Longrightarrow> born np s u"
  by (auto simp: born_def kframe_def)

lemma born_upd [simp]: "born np s (upd_proc np f t) = born np s t"
  by (auto simp: born_def upd_proc_def)

lemma born_inv:
  assumes b: "born np s t" and inv: "proc_inv s" and p: "cur s = Some p"
    and np: "p_state (procs t np) = UNUSED \<or> p_state (procs t np) = RUNNABLE \<and> p_kstack (procs t np) \<noteq> 0 \<and> p_pgdir (procs t np) \<noteq> 0
      \<and> p_parent (procs t np) = Some p"
  shows "proc_inv t"
proof -
  have e: "cur t = cur s" "cr3 t = cr3 s" "initproc t = initproc s" "np < NPROC" and u: "\<not> alive (procs s np)"
    using b by (simp_all add: born_def)
  have c: "p_state (procs t q) = p_state (procs s q)" "p_kstack (procs t q) = p_kstack (procs s q)"
    "p_pgdir (procs t q) = p_pgdir (procs s q)" "p_parent (procs t q) = p_parent (procs s q)" if "q \<noteq> np" for q
    using b that core_eqD [of "procs t q" "procs s q"] by (simp_all add: born_def)
  have a: "alive (procs t q)" if "alive (procs s q)" for q
    using that c(1) [of q] u by (cases "q = np") (simp_all add: alive_def)
  have r: "p_state (procs s p) = RUNNING" using inv p by (simp add: proc_inv_def)
  then have pr: "alive (procs s p)" by (simp add: alive_def)
  then have pa: "alive (procs t p)" "p \<noteq> np" using a [of p] u by auto
  have "(p_state (procs t q) = RUNNING \<longleftrightarrow> cur t = Some q) \<and> p_state (procs t q) \<noteq> EMBRYO \<and>
    (p_state (procs t q) \<noteq> UNUSED \<longrightarrow> q < NPROC \<and> p_kstack (procs t q) \<noteq> 0 \<and> p_pgdir (procs t q) \<noteq> 0) \<and>
    (cur t = Some q \<longrightarrow> cr3 t = V2P (p_pgdir (procs t q))) \<and>
    (p_state (procs t q) \<noteq> UNUSED \<longrightarrow> initproc t = Some q \<or> (\<exists>x. p_parent (procs t q) = Some x \<and> alive (procs t x)))" for q
  proof (cases "q = np")
    case True
    then show ?thesis using np pa e p by auto
  next
    case False
    have "initproc t = Some q \<or> (\<exists>x. p_parent (procs t q) = Some x \<and> alive (procs t x))" if "p_state (procs s q) \<noteq> UNUSED"
      using proc_invD(8) [OF inv that] a c(4) [OF False] e(3) by auto
    then show ?thesis using proc_invD(1-6) [OF inv, of q] c [OF False] e by simp
  qed
  moreover have "\<exists>i. initproc t = Some i \<and> alive (procs t i)" using proc_invD(7) [OF inv] a e(3) by auto
  ultimately show ?thesis unfolding proc_inv_def by blast
qed

lemma allocproc_born:
  assumes "allocproc s = (r, t)"
  shows "t = s \<and> r = None \<or> (\<exists>np. born np s t \<and> (case r of None \<Rightarrow> p_state (procs t np) = UNUSED
    | Some q \<Rightarrow> q = np \<and> p_kstack (procs t np) \<noteq> 0))"
proof (cases "find (\<lambda>p. p_state (procs s p) = UNUSED) [0..<NPROC]")
  case None
  then show ?thesis using assms by (simp add: allocproc_def)
next
  case (Some np)
  then have "np < NPROC" "\<not> alive (procs s np)" by (auto simp: find_Some_iff alive_def)
  then show ?thesis using assms
    unfolding allocproc_def Some
    by (intro disjI2 exI [of _ np])
      (auto simp: Let_def k_kalloc_def born_def upd_proc_def set_kmm_def split: prod.splits if_splits)
qed

lemma fork_undo_inv:
  assumes "born np s t" and "proc_inv s" and "cur s = Some p" and "fork_undo np t = Inr (r, u)"
  shows "proc_inv u"
proof -
  obtain v where v: "k_kfree (p_kstack (procs t np)) t = Inr v" "u = upd_proc np (\<lambda>x. x\<lparr>p_kstack := 0, p_state := UNUSED\<rparr>) v"
    using assms(4) by (auto simp: fork_undo_def bindE_eq_Inr)
  have "frames0 t (k_kfree (p_kstack (procs t np)) t)" by (intro frame_intros) simp
  then have "born np s v" using v(1) assms(1) born_kframe by (auto simp: frames0_def)
  then have "born np s u" by (simp add: v)
  then show ?thesis by (rule born_inv [OF _ assms(2,3)]) (simp add: v upd_proc_def)
qed

lemma dup_fds_frames: "kframe s t \<Longrightarrow> frames0 s (foldE (dup_fd p np) xs t)"
proof -
  have "kframe u v \<Longrightarrow> frames0 u (dup_fd p np i v)" for u v i
    unfolding dup_fd_def by (auto intro!: frame_intros split: option.splits)
  then show "kframe s t \<Longrightarrow> frames0 s (foldE (dup_fd p np) xs t)" by (intro frame_intros)
qed

lemma framesD: "m = Inr (x, t) \<Longrightarrow> frames s m \<Longrightarrow> kframe s t" "n = Inr t \<Longrightarrow> frames0 s n \<Longrightarrow> kframe s t"
  by (simp_all add: frames_def frames0_def)

lemma fork_finish:
  assumes b: "born np s y" "p_kstack (procs y np) \<noteq> 0" "p_pgdir (procs y np) \<noteq> 0" "p_parent (procs y np) = Some p"
    and inv: "proc_inv s" and p: "cur s = Some p" and h: "\<And>i z x. core (h i z x) = core x"
    and f: "bindE (foldE (dup_fd p np) xs y) (\<lambda>s. case p_cwd (procs s p) of None \<Rightarrow> Inl e
      | Some cwd \<Rightarrow> bindE (kfs_val (k cwd) s) (\<lambda>(ip, s).
          Inr (g ip s, upd_proc np (\<lambda>y. y\<lparr>p_state := RUNNABLE\<rparr>) (upd_proc np (h ip s) s)))) = Inr (r, t)"
  shows "proc_inv t"
proof -
  obtain u c ip z where u: "foldE (dup_fd p np) xs y = Inr u" and z: "kfs_val (k c) u = Inr (ip, z)"
    and t: "t = upd_proc np (\<lambda>y. y\<lparr>p_state := RUNNABLE\<rparr>) (upd_proc np (h ip z) z)"
    using f by (auto simp: bindE_eq_Inr split: option.splits)
  have "kframe y u" by (rule framesD(2) [OF u]) (simp add: dup_fds_frames)
  then have yz: "kframe y z" by (rule kframe_trans) (rule framesD(1) [OF z], intro frame_intros, simp)
  note hz = core_eqD [OF h [of ip z "procs z np"]] kframe_sel [OF yz]
  have "born np s t" using born_kframe [OF b(1) yz] by (simp add: t)
  then show ?thesis by (rule born_inv [OF _ inv p]) (use b(2-4) hz in \<open>simp add: t upd_proc_def\<close>)
qed

lemma fork_inv:
  assumes inv: "proc_inv s" and f: "fork s = Inr (r, t)"
  shows "proc_inv t"
proof -
  obtain p where p: "cur s = Some p" using f by (auto simp: fork_def with_me_def split: option.splits)
  obtain a u where a: "allocproc s = (a, u)" by (cases "allocproc s")
  show ?thesis
  proof (cases a)
    case None
    then have "t = u" using f a p by (simp add: fork_def with_me_def)
    then show ?thesis using allocproc_born [OF a] None inv born_inv [OF _ inv p] by auto
  next
    case (Some np)
    then have b: "born np s u" "p_kstack (procs u np) \<noteq> 0" using allocproc_born [OF a] by auto
    obtain d v where c: "copyuvm (p_pgdir (procs u p)) (p_sz (procs u p)) u = Inr (d, v)"
      using f by (auto simp: fork_def with_me_def p a Some bindE_eq_Inr)
    have v: "kframe u v" by (rule framesD(1) [OF c]) (auto intro: frame_intros)
    define w where "w = upd_proc np (\<lambda>x. x\<lparr>p_pgdir := d\<rparr>) v"
    define x where "x = upd_proc np (\<lambda>y. y\<lparr>p_sz := p_sz (procs w p), p_parent := Some p, p_tf := (p_tf (procs w p))\<lparr>tf_eax := 0\<rparr>\<rparr>) w"
    have bw: "born np s w" and x: "born np s x" "p_kstack (procs x np) \<noteq> 0" "p_parent (procs x np) = Some p" "p_pgdir (procs x np) = d"
      using born_kframe [OF b(1) v] b(2) by (simp_all add: w_def x_def) (simp_all add: upd_proc_def kframe_sel(5) [OF v])
    note F = f [unfolded fork_def with_me_def p a Some, simplified, unfolded c, simplified, folded w_def, unfolded Let_def, folded x_def]
    show ?thesis
    proof (cases "d = 0")
      case True
      then show ?thesis using F fork_undo_inv [OF bw inv p] by simp
    next
      case False
      obtain q y where y: "initSwap np x = Inr (q, y)" using F False by (auto simp: bindE_eq_Inr)
      have fy: "kframe x y" by (rule framesD(1) [OF y]) (auto intro: frame_intros)
      note yb = born_kframe [OF x(1) fy]
      show ?thesis
      proof (cases "q < 0")
        case True
        then show ?thesis using F False y fork_undo_inv [OF yb inv p] by simp
      next
        case nq: False
        show ?thesis
          using F False nq y
          by (intro fork_finish [OF yb _ _ _ inv p,
                where h = "\<lambda>ip s y. y\<lparr>p_cwd := Some ip, p_name := safestrcpy (p_name (procs s p)) 16\<rparr>"])
            (simp_all add: x kframe_sel [OF fy] core_def)
      qed
    qed
  qed
qed


section \<open>Leaving the processor\<close>

definition left_cpu :: "nat \<Rightarrow> procstate \<Rightarrow> kst \<Rightarrow> kst \<Rightarrow> bool" where
  "left_cpu p st s t \<longleftrightarrow> cur t = None \<and> initproc t = initproc s \<and> p_state (procs t p) = st \<and>
    (\<forall>q. q \<noteq> p \<longrightarrow> p_state (procs t q) = p_state (procs s q)) \<and>
    (\<forall>q. p_kstack (procs t q) = p_kstack (procs s q) \<and> p_pgdir (procs t q) = p_pgdir (procs s q) \<and> p_parent (procs t q) = p_parent (procs s q))"

lemma sched_left_cpu:
  assumes "cur s = Some p" and "sched True 1 False (upd_proc p f s) = Inr t" and "\<And>x. core (f x) = core (x\<lparr>p_state := st\<rparr>)"
  shows "left_cpu p st s t"
proof -
  have "core (f (procs s p)) = core ((procs s p)\<lparr>p_state := st\<rparr>)" by (rule assms(3))
  note c = core_eqD [OF this]
  have "t = switchkvm (upd_proc p (\<lambda>x. x\<lparr>p_context := ToSched\<rparr>) (upd_proc p f s))\<lparr>cur := None\<rparr>"
    using assms(1,2) by (auto simp: sched_def with_me_def upd_proc_def split: if_splits)
  then show ?thesis using c by (simp add: left_cpu_def switchkvm_def upd_proc_def)
qed

lemma left_cpu_inv:
  assumes l: "left_cpu p st s t" and inv: "proc_inv s" and p: "cur s = Some p"
    and st: "st = RUNNABLE \<or> st = SLEEPING \<or>
      st = ZOMBIE \<and> initproc s \<noteq> Some p \<and> (\<forall>q. p_state (procs s q) \<noteq> UNUSED \<longrightarrow> p_parent (procs s q) \<noteq> Some p)"
  shows "proc_inv t"
proof -
  have e: "cur t = None" "initproc t = initproc s" "p_state (procs t q) = (if q = p then st else p_state (procs s q))"
    "p_kstack (procs t q) = p_kstack (procs s q)" "p_pgdir (procs t q) = p_pgdir (procs s q)" "p_parent (procs t q) = p_parent (procs s q)" for q
    using l by (simp_all add: left_cpu_def)
  have r: "p_state (procs s p) = RUNNING" using proc_invD(1) [OF inv] p by simp
  have a: "alive (procs t q)" if "alive (procs s q)" "st = ZOMBIE \<Longrightarrow> q \<noteq> p" for q
    using that e(3) [of q] st by (auto simp: alive_def)
  have "\<exists>q. p_parent (procs t x) = Some q \<and> alive (procs t q)"
    if "p_state (procs s x) \<noteq> UNUSED" "initproc s \<noteq> Some x" for x
    using proc_invD(8) [OF inv that(1)] that st a unfolding e by auto
  moreover have "\<exists>i. initproc t = Some i \<and> alive (procs t i)" using proc_invD(7) [OF inv] a st unfolding e by auto
  moreover have "p_state (procs t q) = UNUSED \<longleftrightarrow> p_state (procs s q) = UNUSED" "p_state (procs t q) \<noteq> RUNNING" "p_state (procs t q) \<noteq> EMBRYO" for q
    using r st proc_invD(1,2) [OF inv, of q] p unfolding e by auto
  ultimately show ?thesis
    using proc_invD(3-5) [OF inv] unfolding proc_inv_def by (auto simp: e(1,2,4-6))
qed

lemma yield_keeps: "kframe s t \<Longrightarrow> keeps0 s (yield t)"
proof -
  assume f: "kframe s t"
  have "proc_inv u" if inv: "proc_inv t" and y: "yield t = Inr u" for u
  proof -
    obtain p where p: "cur t = Some p" "sched True 1 False (upd_proc p (\<lambda>x. x\<lparr>p_state := RUNNABLE\<rparr>) t) = Inr u"
      using y by (auto simp: yield_def with_me_def split: option.splits)
    show ?thesis by (rule left_cpu_inv [OF sched_left_cpu [OF p, of RUNNABLE] inv p(1)]) simp_all
  qed
  then show ?thesis using proc_inv_kframe [OF f] by (auto simp: keeps0_def)
qed



section \<open>Exit and wait\<close>

lemma reparent_woken [simp]: "woken s (reparent p q s)"
proof (cases "p_parent (procs s q) = Some p")
  case True
  let ?t = "upd_proc q (\<lambda>x. x\<lparr>p_parent := initproc s\<rparr>) s"
  have "woken s ?t" by (simp add: woken_def woken1_def upd_proc_def)
  then show ?thesis using True woken_trans [OF _ wakeup1_woken(1)] by (auto simp: reparent_def Let_def split: option.split)
qed (simp add: reparent_def)

lemma reparent_orphan:
  assumes "initproc s \<noteq> Some p"
  shows "p_parent (procs (reparent p q s) q) \<noteq> Some p"
  using assms by (auto simp: reparent_def Let_def upd_proc_def wakeup1_def split: option.split)

lemma woken_orphan: "woken s t \<Longrightarrow> initproc s \<noteq> Some p \<Longrightarrow> p_parent (procs s q) \<noteq> Some p \<Longrightarrow> p_parent (procs t q) \<noteq> Some p"
  unfolding woken_def woken1_def by metis

lemma reparent_all:
  "initproc s \<noteq> Some p \<Longrightarrow> q \<in> set qs \<Longrightarrow> p_parent (procs (fold (reparent p) qs s) q) \<noteq> Some p"
proof (induction qs arbitrary: s)
  case (Cons x qs)
  have i: "initproc (reparent p x s) \<noteq> Some p" using Cons.prems(1) reparent_woken [of s p x] by (simp add: woken_def)
  show ?case
  proof (cases "q = x")
    case True
    have "woken (reparent p x s) (fold (reparent p) qs (reparent p x s))" by (rule fold_woken) simp
    then show ?thesis using woken_orphan [OF _ i reparent_orphan [OF Cons.prems(1)]] True by simp
  next
    case False
    then show ?thesis using Cons.IH [OF i] Cons.prems(2) by simp
  qed
qed simp


lemma close_fds_frames: "kframe s t \<Longrightarrow> frames0 s (foldE (close_fd p) xs t)"
proof -
  have "kframe u v \<Longrightarrow> frames0 u (close_fd p i v)" for u v i
    unfolding close_fd_def by (auto intro!: frame_intros split: option.splits)
  then show "kframe s t \<Longrightarrow> frames0 s (foldE (close_fd p) xs t)" by (intro frame_intros)
qed

lemma exit_leave:
  assumes f: "kframe s t" and p: "cur t = Some p" and i: "initproc t \<noteq> Some p" and w: "woken t w"
  shows "keeps0 s (sched True 1 False (upd_proc p (\<lambda>x. x\<lparr>p_state := ZOMBIE\<rparr>) (fold (reparent p) [0..<NPROC] w)))"
proof -
  let ?u = "fold (reparent p) [0..<NPROC] w"
  have wu: "woken w ?u" by (rule fold_woken) simp
  have "proc_inv v" if inv: "proc_inv t" and v: "sched True 1 False (upd_proc p (\<lambda>x. x\<lparr>p_state := ZOMBIE\<rparr>) ?u) = Inr v" for v
  proof -
    have iu: "proc_inv ?u" by (rule woken_inv [OF wu woken_inv [OF w inv]])
    have c: "cur ?u = Some p" "initproc w \<noteq> Some p" "initproc ?u \<noteq> Some p" using w wu p i by (simp_all add: woken_def)
    have "p_parent (procs ?u q) \<noteq> Some p" if "p_state (procs ?u q) \<noteq> UNUSED" for q
      using reparent_all [OF c(2), of q] proc_invD(3) [OF iu that] by simp
    then show ?thesis using c(3) by (intro left_cpu_inv [OF sched_left_cpu [OF c(1) v, of ZOMBIE] iu c(1)]) simp_all
  qed
  then show ?thesis using proc_inv_kframe [OF f] by (auto simp: keeps0_def)
qed

lemma keeps_assert [keeps_intros]: "keeps0 s (f ()) \<Longrightarrow> keeps0 s (bindE (assertE b msg) f)"
  by (auto simp: keeps0_def bindE_eq_Inr)

lemma exit_keeps: "kframe s t \<Longrightarrow> keeps0 s (exit t)"
  unfolding exit_def
  by (auto intro!: keeps_intros frame_intros close_fds_frames exit_leave simp: Let_def kframe_sel split: option.splits)

lemma wait_inv:
  assumes inv: "proc_inv s" and w: "wait s = Inr (r, t)"
  shows "proc_inv t"
proof -
  obtain p where p: "cur s = Some p" using w by (auto simp: wait_def with_me_def split: option.splits)
  show ?thesis
  proof (cases "find (\<lambda>q. p_parent (procs s q) = Some p \<and> p_state (procs s q) = ZOMBIE) [0..<NPROC]")
    case None
    then show ?thesis using w inv p by (auto simp: wait_def with_me_def Let_def split: if_splits)
  next
    case (Some q)
    then have q: "q < NPROC" "p_state (procs s q) = ZOMBIE" by (auto simp: find_Some_iff)
    let ?k = "upd_proc q (\<lambda>x. x\<lparr>p_kstack := 0\<rparr>)"
    obtain u v where u: "k_kfree (p_kstack (procs s q)) s = Inr u" and v: "freevm (p_pgdir (procs u q)) (?k u) = Inr v"
      and t: "t = upd_proc q (\<lambda>x. x\<lparr>p_pid := 0, p_parent := None, p_name := (p_name x)[0 := 0], p_killed := False, p_state := UNUSED\<rparr>) v"
      using w by (auto simp: wait_def with_me_def p Some Let_def bindE_eq_Inr)
    have "kframe s u" by (rule framesD(2) [OF u]) (auto intro: frame_intros)
    moreover have "kframe (?k u) v" by (rule framesD(2) [OF v]) (auto intro: frame_intros)
    moreover have "born q s s" using q by (simp add: born_def alive_def)
    ultimately have "born q s v" using born_kframe [of q s s u] born_kframe [of q s "?k u" v] by simp
    then have "born q s t" by (simp add: t)
    then show ?thesis by (rule born_inv [OF _ inv p]) (simp add: t upd_proc_def)
  qed
qed

lemma kill_woken: "kill pid s = (r, t) \<Longrightarrow> woken s t"
  by (auto simp: kill_def woken_def woken1_def upd_proc_def split: option.splits if_splits)


section \<open>System calls and traps\<close>

lemma growproc_keeps: "kframe s t \<Longrightarrow> keeps s (growproc n t)"
proof -
  have "keeps s (bindE (switchuvm (Some p) (upd_proc p (\<lambda>x. x\<lparr>p_sz := z\<rparr>) u)) (\<lambda>s. Inr (0 :: int, s)))"
    if f: "kframe s u" and p: "cur u = Some p" for p u z
  proof -
    have "proc_inv v" if inv: "proc_inv u" and v: "switchuvm (Some p) (upd_proc p (\<lambda>x. x\<lparr>p_sz := z\<rparr>) u) = Inr v" for v
    proof -
      have "v = (upd_proc p (\<lambda>x. x\<lparr>p_sz := z\<rparr>) u)\<lparr>cr3 := V2P (p_pgdir (procs u p))\<rparr>"
        using v by (auto simp: switchuvm_def upd_proc_def split: if_splits)
      then have "kframe u v" using proc_invD(6) [OF inv p] by (simp add: kframe_cr3 upd_proc_def) (simp add: kframe_def core_def)
      then show ?thesis using inv proc_inv_kframe by auto
    qed
    then show ?thesis using proc_inv_kframe [OF f] by (auto simp: keeps_def bindE_eq_Inr)
  qed
  then show "kframe s t \<Longrightarrow> keeps s (growproc n t)"
    unfolding growproc_def by (auto intro!: keeps_intros frame_intros simp: Let_def kframe_sel)
qed

lemma keepsD: "keeps s m \<Longrightarrow> proc_inv s \<Longrightarrow> m = Inr (x, t) \<Longrightarrow> proc_inv t"
  "keeps0 s n \<Longrightarrow> proc_inv s \<Longrightarrow> n = Inr t \<Longrightarrow> proc_inv t"
  by (simp_all add: keeps_def keeps0_def)

lemma sys_sbrk_keeps: "keeps s (sys_sbrk s)"
proof -
  have "keeps s (bindE (growproc n t) (\<lambda>(r, s). Inr (f r :: int, s)))" if "kframe s t" for n t f
    using growproc_keeps [OF that] by (auto simp: keeps_def bindE_eq_Inr)
  then show ?thesis unfolding sys_sbrk_def by (auto intro!: keeps_intros frame_intros simp: Let_def split: option.splits)
qed

lemma sys_kill_keeps: "keeps s (sys_kill s)"
proof -
  have "keeps s (Inr (kill pid t))" if "kframe s t" for pid t
    using woken_inv [OF kill_woken] proc_inv_kframe [OF that] by (auto simp: keeps_def)
  then show ?thesis unfolding sys_kill_def by (auto intro!: keeps_intros frame_intros split: option.splits)
qed

lemma sysproc_frames [frame_intros]:
  "frames s (sys_getpid s)" "frames s (sys_sleep s)" "frames s (sys_uptime s)"
  unfolding sys_getpid_def sys_sleep_def sys_sleep_from_def sys_uptime_def by (auto intro!: frame_intros split: option.splits)

lemma returns_keeps: "keeps s (f s) \<Longrightarrow> keeps s (returns f s)"
  by (auto simp: keeps_def returns_def bindE_eq_Inr)

lemma fork_keeps: "keeps s (fork s)"
  unfolding keeps_def using fork_inv by blast

lemma wait_keeps: "keeps s (wait s)"
  unfolding keeps_def using wait_inv by blast

lemma syscalls_keeps:
  assumes "syscalls num = Some f"
  shows "keeps s (f s)"
proof -
  have x: "keeps s (bindE (sys_exit s) (\<lambda>s. Inr (None, s)))"
    using exit_keeps [of s s] by (auto simp: sys_exit_def keeps_def keeps0_def bindE_eq_Inr)
  have p: "keeps s (sys_fork s)" "keeps s (sys_wait s)" "keeps s (sys_exec s)"
    using fork_keeps wait_keeps sys_exec_keeps [of s s] by (simp_all add: sys_fork_def sys_wait_def)
  note q = p sys_kill_keeps sys_sbrk_keeps keeps_frames(1) [OF sysproc_frames(1)] keeps_frames(1) [OF sysproc_frames(2)]
    keeps_frames(1) [OF sysproc_frames(3)] sysfile_frames [OF kframe_refl, THEN keeps_frames(1)]
  show ?thesis using assms by (auto simp: syscalls_def x q returns_keeps split: if_splits)
qed

lemma syscall_inv:
  assumes inv: "proc_inv s" and "syscall s = Inr t"
  shows "proc_inv t"
proof -
  obtain p where p: "cur s = Some p" using assms(2) by (auto simp: syscall_def with_me_def split: option.splits)
  have upd: "proc_inv (upd_proc p (\<lambda>x. x\<lparr>p_tf := f x\<rparr>) u) = proc_inv u" for u f
    by (rule proc_inv_kframe) (simp add: core_def)
  show ?thesis
  proof (cases "syscalls (tf_eax (p_tf (procs s p)))")
    case None
    then have "frames0 s (syscall s)" by (auto simp: syscall_def with_me_def p Let_def intro!: frame_intros)
    then show ?thesis using inv keepsD(2) [OF keeps_frames(2)] assms(2) by blast
  next
    case (Some f)
    then obtain r u where u: "f s = Inr (r, u)" and t: "t = (case r of None \<Rightarrow> deliver u
        | Some r \<Rightarrow> upd_proc p (\<lambda>x. x\<lparr>p_tf := (p_tf x)\<lparr>tf_eax := of_int r\<rparr>\<rparr>) (deliver u))"
      using assms(2) by (auto simp: syscall_def with_me_def p Let_def bindE_eq_Inr)
    have "proc_inv (deliver u)" by (rule deliver_inv [OF keepsD(1) [OF syscalls_keeps [OF Some] inv u]])
    then show ?thesis using t upd by (cases r) simp_all
  qed
qed

lemma trap_default_frames: "kframe s t \<Longrightarrow> frames0 s (trap_default tf cpuid cr2 t)"
proof -
  assume f: "kframe s t"
  have k: "frames0 s (bindE (kprintf_str str fmt args t) (\<lambda>s. Inr (upd_proc p (\<lambda>x. x\<lparr>p_killed := True\<rparr>) s)))" for str fmt args p
    using f by (auto intro!: frame_intros)
  have n: "frames0 s (bindE m (\<lambda>_. Inl e))" for m :: "kerror + kst" and e by (cases m) (simp_all add: frames0_def)
  have c: "frames0 s (case x of None \<Rightarrow> bindE m (\<lambda>_. Inl e) | Some p \<Rightarrow> g p)" if "\<And>p. frames0 s (g p)"
    for m :: "kerror + kst" and e x g
    using that n by (auto split: option.splits)
  show ?thesis unfolding trap_default_def by (rule c) (unfold Let_def, rule k)
qed

lemma kconsoleintr_inv: "proc_inv s \<Longrightarrow> kconsoleintr ebp cs s = Inr t \<Longrightarrow> proc_inv t"
proof -
  assume inv: "proc_inv s" and t: "kconsoleintr ebp cs s = Inr t"
  obtain d c where "let u = deliver (s\<lparr>fil := (fil s)\<lparr>fsys := (fsys (fil s))\<lparr>cons := c\<rparr>\<rparr>\<rparr>) in (if d then procdump ebp u else Inr u) = Inr t"
    using t by (auto simp: kconsoleintr_def Let_def bindE_eq_Inr)
  moreover have "proc_inv (deliver (s\<lparr>fil := (fil s)\<lparr>fsys := (fsys (fil s))\<lparr>cons := c\<rparr>\<rparr>\<rparr>))"
    by (rule deliver_inv) (use inv in \<open>simp add: proc_inv_def\<close>)
  ultimately show ?thesis
    using keepsD(2) [OF keeps_frames(2) [OF procdump_frames [OF kframe_refl]]] by (auto simp: Let_def split: if_splits)
qed

lemma trap_dispatch_inv:
  assumes inv: "proc_inv s" and t: "trap_dispatch tf cpuid cr2 ebp chars s = Inr t"
  shows "proc_inv t"
proof -
  have k: "proc_inv u" if "frames0 s m" "m = Inr u" for m u using that inv keepsD(2) [OF keeps_frames(2)] by blast
  show ?thesis
  proof (cases "tf_trapno tf = T_IRQ0")
    case True
    then obtain u where u: "nfu_Increment_Counter (cur s) s = Inr u"
      and t: "t = (if cpuid = 0 then wakeup ChTicks (u\<lparr>ticks := ticks u + 1\<rparr>) else u)"
      using t by (auto simp: trap_dispatch_def Let_def bindE_eq_Inr)
    have "proc_inv u" by (rule k [OF _ u]) (auto intro: frame_intros)
    moreover from this have "proc_inv (wakeup ChTicks (u\<lparr>ticks := ticks u + 1\<rparr>))"
      by (intro woken_inv [OF wakeup1_woken(2)]) (simp add: proc_inv_def)
    ultimately show ?thesis using t by simp
  next
    case False
    note d = trap_default_frames [of s, where tf = tf and cpuid = cpuid and ?cr2.0 = cr2]
    have "frames0 s (bindE (recoverPageFault cr2 s) (\<lambda>(r, s). if r = 0 then Inr s else trap_default tf cpuid cr2 s))"
      by (auto intro!: frame_intros d)
    then show ?thesis using False t inv kconsoleintr_inv [OF inv] k [OF layer_frames(8) [OF kframe_refl]] k [OF d [OF kframe_refl]] k
      unfolding trap_dispatch_def Let_def by (simp only: if_False split: if_splits) auto
  qed
qed


lemma exit_if_keeps: "kframe s t \<Longrightarrow> keeps0 s (exit_if b t)"
  by (simp add: exit_if_def exit_keeps keeps_basic)

lemma trap_inv:
  assumes inv: "proc_inv s" and t: "trap tf cpuid cr2 ebp chars s = Inr t"
  shows "proc_inv t"
proof (cases "tf_trapno tf = T_SYSCALL")
  case True
  then obtain p where p: "cur s = Some p" using t by (auto simp: trap_def with_me_def split: option.splits)
  let ?s = "upd_proc p (\<lambda>x. x\<lparr>p_tf := tf\<rparr>) s"
  have s: "proc_inv ?s" using inv proc_inv_kframe [of s ?s] by (simp add: core_def)
  show ?thesis
  proof (cases "p_killed (procs s p)")
    case True
    then show ?thesis using t \<open>tf_trapno tf = T_SYSCALL\<close> p inv keepsD(2) [OF exit_keeps [OF kframe_refl]] by (simp add: trap_def with_me_def)
  next
    case False
    then obtain u where u: "syscall ?s = Inr u" "exit_if (killed_now u) u = Inr t"
      using t True p by (auto simp: trap_def with_me_def bindE_eq_Inr)
    show ?thesis by (rule keepsD(2) [OF exit_if_keeps [OF kframe_refl] syscall_inv [OF s u(1)] u(2)])
  qed
next
  case False
  then obtain u where u: "trap_dispatch tf cpuid cr2 ebp chars s = Inr u"
    using t by (auto simp: trap_def Let_def bindE_eq_Inr)
  note iu = trap_dispatch_inv [OF inv u]
  show ?thesis using t False u iu keepsD(2) [OF exit_keeps [OF kframe_refl] iu] keepsD(2) [OF yield_keeps [OF kframe_refl] iu]
      keepsD(2) [OF exit_if_keeps [OF kframe_refl] iu]
    by (auto simp: trap_def Let_def split: if_splits option.splits)
qed

lemma scheduler_pick_ok:
  assumes inv: "proc_inv s" and c: "cur s = None"
  shows "\<exists>t. scheduler_pick p s = Inr t \<and> proc_inv t \<and>
    (if p_state (procs s p) = RUNNABLE then cur t = Some p \<and> p_state (procs t p) = RUNNING \<and> cr3 t = V2P (p_pgdir (procs t p))
     else t = s)"
proof (cases "p_state (procs s p) = RUNNABLE")
  case True
  then have k: "p < NPROC" "p_kstack (procs s p) \<noteq> 0" "p_pgdir (procs s p) \<noteq> 0" using proc_invD(3-5) [OF inv, of p] by simp_all
  let ?t = "upd_proc p (\<lambda>x. x\<lparr>p_state := RUNNING\<rparr>) (s\<lparr>cur := Some p, cr3 := V2P (p_pgdir (procs s p))\<rparr>)"
  have "scheduler_pick p s = Inr ?t" using True k by (simp add: scheduler_pick_def switchuvm_def)
  moreover have al: "alive (procs ?t q) = alive (procs s q)" for q using True by (simp add: upd_proc_def alive_def)
  have "proc_inv ?t"
    using proc_invD [OF inv] c True k unfolding proc_inv_def al by (auto simp: upd_proc_def)
  ultimately show ?thesis using True by (simp add: upd_proc_def)
qed (use inv in \<open>simp add: scheduler_pick_def\<close>)


section \<open>The order of the scheduler\<close>

text \<open>How many other processes can come before \<open>q\<close>.\<close>

definition sched_dist :: "nat \<Rightarrow> nat \<Rightarrow> nat" where
  "sched_dist q i = (if i \<le> q then q - i else NPROC - i + q)"

lemma find_upt_first:
  assumes "P q" and "i \<le> q" and "q < n"
  shows "\<exists>p. find P [i..<n] = Some p \<and> i \<le> p \<and> p \<le> q"
proof -
  obtain p where p: "find P [i..<n] = Some p" using assms by (cases "find P [i..<n]") (auto simp: find_None_iff)
  then obtain k where k: "k < n - i" "p = i + k" "\<And>j. j < k \<Longrightarrow> \<not> P (i + j)" by (auto simp: find_Some_iff)
  have "k \<le> q - i" using k(3) [of "q - i"] assms by (metis le_add_diff_inverse not_le)
  then show ?thesis using p k assms(2) by auto
qed

lemma scheduler_next_closer:
  assumes "st q = RUNNABLE" and "q < NPROC" and "i \<le> NPROC"
  shows "\<exists>p. scheduler_next st i = Some p \<and> p < NPROC \<and> (p = q \<or> sched_dist q (Suc p) < sched_dist q i)"
proof (cases "i \<le> q")
  case True
  obtain p where "find (\<lambda>p. st p = RUNNABLE) [i..<NPROC] = Some p" "i \<le> p" "p \<le> q"
    using find_upt_first [where P = "\<lambda>p. st p = RUNNABLE", OF assms(1) True assms(2)] by auto
  then show ?thesis using assms(2) True by (auto simp: scheduler_next_def sched_dist_def)
next
  case False
  show ?thesis
  proof (cases "find (\<lambda>p. st p = RUNNABLE) [i..<NPROC]")
    case None
    obtain p where "find (\<lambda>p. st p = RUNNABLE) [0..<NPROC] = Some p" "p \<le> q"
      using find_upt_first [where P = "\<lambda>p. st p = RUNNABLE" and i = 0, OF assms(1) _ assms(2)] by auto
    then show ?thesis using assms(2) None False by (auto simp: scheduler_next_def sched_dist_def)
  next
    case (Some p)
    then have "i \<le> p" "p < NPROC" by (auto simp: find_Some_iff)
    then show ?thesis using Some False assms(2) by (auto simp: scheduler_next_def sched_dist_def)
  qed
qed

lemma sched_dist_less: "q < NPROC \<Longrightarrow> i \<le> NPROC \<Longrightarrow> sched_dist q i < NPROC"
  by (simp add: sched_dist_def) linarith

lemma sched_reaches:
  assumes "\<And>k. st k q = RUNNABLE" and "q < NPROC" and "i \<le> NPROC"
  shows "\<exists>k \<le> sched_dist q i. scheduler_next (st k) (sched_pos st i k) = Some q"
  using assms
proof (induction "sched_dist q i" arbitrary: i st rule: less_induct)
  case less
  obtain p where p: "scheduler_next (st 0) i = Some p" "p < NPROC" "p = q \<or> sched_dist q (Suc p) < sched_dist q i"
    using scheduler_next_closer [of "st 0" q i] less.prems by auto
  show ?case
  proof (cases "p = q")
    case True
    then show ?thesis using p by (intro exI [of _ 0]) simp
  next
    case False
    then have d: "sched_dist q (Suc p) < sched_dist q i" using p by simp
    have pos: "sched_pos (\<lambda>k. st (Suc k)) (Suc p) k = sched_pos st i (Suc k)" for k
    proof (induction k)
      case (Suc k)
      then show ?case by (simp only: sched_pos.simps(2))
    qed (simp add: p)
    obtain k where "k \<le> sched_dist q (Suc p)" "scheduler_next (st (Suc k)) (sched_pos (\<lambda>k. st (Suc k)) (Suc p) k) = Some q"
      using less.hyps [OF d, of "\<lambda>k. st (Suc k)"] less.prems p(2) by auto
    then show ?thesis using d pos by (intro exI [of _ "Suc k"]) simp
  qed
qed


section \<open>Children\<close>

lemma reparent_parent:
  "p_parent (procs (reparent p q s) x) = (if x = q \<and> p_parent (procs s q) = Some p then initproc s else p_parent (procs s x))"
  by (auto simp: reparent_def Let_def upd_proc_def wakeup1_def split: option.split)

lemma reparent_parents:
  assumes "initproc s = Some i" and "i \<noteq> p"
  shows "p_parent (procs (fold (reparent p) qs s) x) = (if x \<in> set qs \<and> p_parent (procs s x) = Some p then Some i else p_parent (procs s x))"
  using assms
proof (induction qs arbitrary: s)
  case (Cons q qs)
  have "initproc (reparent p q s) = Some i" using Cons.prems(1) reparent_woken [of s p q] by (simp add: woken_def)
  then show ?case using Cons.IH [of "reparent p q s"] Cons.prems by (auto simp: reparent_parent)
qed simp

definition waits_for_child :: "kst \<Rightarrow> nat \<Rightarrow> bool" where
  "waits_for_child s i \<longleftrightarrow> p_state (procs s i) = SLEEPING \<and> p_chan (procs s i) = Some (ChProc i)"

lemma waits_reparent: "waits_for_child (reparent p q s) i \<Longrightarrow> waits_for_child s i"
  by (auto simp: waits_for_child_def reparent_def Let_def upd_proc_def wakeup1_def split: option.splits if_splits)

lemma waits_reparents: "waits_for_child (fold (reparent p) qs s) i \<Longrightarrow> waits_for_child s i"
  by (induction qs arbitrary: s) (auto dest: waits_reparent)

lemma reparent_wakes:
  assumes "initproc s = Some i" and "i < NPROC" and "q \<in> set qs" and "p_parent (procs s q) = Some p" and "p_state (procs s q) = ZOMBIE"
  shows "\<not> waits_for_child (fold (reparent p) qs s) i"
  using assms
proof (induction qs arbitrary: s)
  case (Cons x qs)
  show ?case
  proof (cases "x = q")
    case True
    then have "\<not> waits_for_child (reparent p x s) i" using Cons.prems
      by (auto simp: waits_for_child_def reparent_def Let_def upd_proc_def wakeup1_def)
    then show ?thesis using waits_reparents by auto
  next
    case False
    have w: "woken1 (initproc s) (procs s q) (procs (reparent p x s) q)" "initproc (reparent p x s) = Some i"
      using Cons.prems(1) reparent_woken [of s p x] by (auto simp: woken_def)
    then show ?thesis using Cons.IH [of "reparent p x s"] Cons.prems False woken1_state(4) [OF w(1)] by (simp add: reparent_parent)
  qed
qed simp


section \<open>Properties\<close>

text \<open>The initial process sleeping in slot 0 and its child in slot 1, which is running.\<close>

definition zero_proc :: proc where
  "zero_proc = \<lparr>p_sz = 0, p_pgdir = 0, p_kstack = 0, p_state = UNUSED, p_pid = 0, p_parent = None, p_tf = zero_tf, p_context = ToForkret,
     p_chan = None, p_killed = False, p_ofile = Map.empty, p_cwd = None, p_name = [], p_swapFile = None, VPA_Swap = [], VPA_Memory = [],
     size_mem = 0, q_head = 0, q_tail = 0\<rparr>"

definition two_procs :: kst where
  "two_procs = \<lparr>
     fil = \<lparr>fsys = empty_fs zero_disk zero_inode,
       ftable = (\<lambda>_. \<lparr>f_type = FD_NONE, f_ref = 0, readable = False, writable = False, f_pipe = 0, f_ip = 0, f_off = 0\<rparr>),
       pipes = (\<lambda>_. \<lparr>pdata = (\<lambda>_. 0), nread = 0, nwrite = 0, readopen = False, writeopen = False\<rparr>), km = bss_kmem\<rparr>,
     procs = (\<lambda>p. if p = 0 then zero_proc\<lparr>p_state := SLEEPING, p_chan := Some (ChProc 0), p_kstack := 0x80400000, p_pgdir := 0x80401000, p_pid := 1\<rparr>
       else if p = 1 then zero_proc\<lparr>p_state := RUNNING, p_kstack := 0x80402000, p_pgdir := 0x80403000, p_pid := 2, p_parent := Some 0\<rparr>
       else zero_proc),
     cur = Some 1, nextpid = 3, initproc = Some 0, ticks = 0, cr3 = 0x403000, kpgdir = 0x803FF000, kdata = 0x80108000, forkret_first = False\<rparr>"

lemma two_procs_inv: "proc_inv two_procs"
  by (auto simp: proc_inv_def two_procs_def zero_proc_def alive_def V2P_def)

text \<open>
  C2. The process table stays consistent across every trap, whether system call, fault or interrupt, exec,
  fork, exit and wait included: exactly the current process is running, with its page table loaded; no half-made process is left; every
  process that is not free has a kernel stack and a page table; and every process but the initial one has a living parent, so
  that no zombie is lost.
\<close>

theorem trap_preserves_proc_inv:
  assumes "proc_inv s" and "trap tf cpuid cr2 ebp chars s = Inr t"
  shows "proc_inv t"
  using assms by (rule trap_inv)

theorem trap_preserves_proc_inv_witness:
  "\<exists>t. trap (zero_tf\<lparr>tf_trapno := T_IRQ0, tf_cs := 0x1B\<rparr>) 0 0 (\<lambda>_. 0) [] two_procs = Inr t \<and> cur t = None \<and> p_state (procs t 1) = RUNNABLE \<and> proc_inv t"
proof -
  let ?tf = "zero_tf\<lparr>tf_trapno := T_IRQ0, tf_cs := 0x1B\<rparr>"
  obtain t where t: "trap ?tf 0 0 (\<lambda>_. 0) [] two_procs = Inr t" "cur t = None" "p_state (procs t 1) = RUNNABLE"
    by (simp add: trap_def trap_dispatch_def nfu_Increment_Counter_def killed_now_def yield_def sched_def with_me_def wakeup_def
        wakeup1_def upd_proc_def switchkvm_def two_procs_def zero_proc_def zero_tf_def Let_def)
  then show ?thesis using trap_preserves_proc_inv [OF two_procs_inv t(1)] by blast
qed

text \<open>
  C12. In a consistent state the scheduler never panics: for every slot, \<open>scheduler_pick\<close> leaves the state alone when the
  slot is not runnable and otherwise runs the process with its page table loaded, and the process table is consistent again.
\<close>

theorem scheduler_pick_safe:
  assumes "proc_inv s" and "cur s = None"
  shows "\<exists>t. scheduler_pick p s = Inr t \<and> proc_inv t \<and>
    (if p_state (procs s p) = RUNNABLE then cur t = Some p \<and> p_state (procs t p) = RUNNING \<and> cr3 t = V2P (p_pgdir (procs t p))
     else t = s)"
  using assms by (rule scheduler_pick_ok)

theorem scheduler_pick_safe_witness:
  "\<exists>s t. cur s = None \<and> p_state (procs s 1) = RUNNABLE \<and> scheduler_pick 1 s = Inr t \<and> cur t = Some 1 \<and> proc_inv t"
proof -
  obtain s where s: "yield two_procs = Inr s" "cur s = None" "p_state (procs s 1) = RUNNABLE"
    by (simp add: yield_def sched_def with_me_def upd_proc_def switchkvm_def two_procs_def)
  have "proc_inv s" by (rule keepsD(2) [OF yield_keeps [OF kframe_refl] two_procs_inv s(1)])
  from scheduler_pick_safe [OF this s(2), of 1] s show ?thesis by auto
qed

text \<open>
  C11. The scheduler starves nobody: whatever the other processes do between its choices, and from wherever in the
  table it goes on, a process that stays runnable is chosen within \<open>NPROC\<close> choices.
\<close>

theorem scheduler_fair:
  assumes "\<And>k. st k q = RUNNABLE" and "q < NPROC" and "i \<le> NPROC"
  shows "\<exists>k < NPROC. scheduler_next (st k) (sched_pos st i k) = Some q"
  using sched_reaches [of st q i, OF assms] sched_dist_less [OF assms(2,3)] le_less_trans by blast

theorem scheduler_fair_witness: "\<exists>k < NPROC. scheduler_next (\<lambda>_. RUNNABLE) (sched_pos (\<lambda>_ _. RUNNABLE) 9 k) = Some 8"
  using scheduler_fair [of "\<lambda>_ _. RUNNABLE" 8 9] by simp


text \<open>
  A process that exits passes all its children to the initial process, changes no other parent, and when one of them is
  a zombie already, the initial process is not left waiting for a child.
\<close>

lemma exit_reparents:
  assumes "initproc s = Some i" and "i \<noteq> p" and "i < NPROC" and "t = fold (reparent p) [0..<NPROC] s" and "q < NPROC"
  shows "p_parent (procs t q) = (if p_parent (procs s q) = Some p then Some i else p_parent (procs s q)) \<and>
    (p_parent (procs s q) = Some p \<longrightarrow> p_state (procs s q) = ZOMBIE \<longrightarrow> \<not> waits_for_child t i)"
  using assms reparent_parents [OF assms(1,2)] reparent_wakes [OF assms(1,3), of q "[0..<NPROC]" p] by simp

text \<open>
  C35. \<open>kill(0)\<close> finds a free slot, since free slots have pid 0, and marks it as killed; \<open>allocproc\<close> does not clear the
  mark, so the next process that \<open>fork\<close> makes in that slot is born killed.
\<close>

theorem kill_zero_marks_free_slot:
  assumes "find (\<lambda>p. p_pid (procs s p) = 0) [0..<NPROC] = Some p" and "find (\<lambda>p. p_state (procs s p) = UNUSED) [0..<NPROC] = Some p"
    and "fst (kalloc (kmm s)) \<noteq> 0"
  shows "\<exists>t u. kill 0 s = (0, t) \<and> allocproc t = (Some p, u) \<and> p_killed (procs u p)"
proof -
  let ?t = "upd_proc p (\<lambda>x. x\<lparr>p_killed := True, p_state := (if p_state x = SLEEPING then RUNNABLE else p_state x)\<rparr>) s"
  have p: "p_state (procs s p) = UNUSED" using assms(2) by (auto simp: find_Some_iff)
  have st: "p_state (procs ?t q) = p_state (procs s q)" for q using p by (simp add: upd_proc_def)
  then have "(\<lambda>q. p_state (procs ?t q) = UNUSED) = (\<lambda>q. p_state (procs s q) = UNUSED)" by auto
  then have f: "find (\<lambda>q. p_state (procs ?t q) = UNUSED) [0..<NPROC] = Some p" using assms(2) by simp
  obtain k m where k: "kalloc (kmm s) = (k, m)" "k \<noteq> 0" using assms(3) by (cases "kalloc (kmm s)") auto
  have "kill 0 s = (0, ?t)" using assms(1) by (simp add: kill_def)
  moreover have "\<exists>u. allocproc ?t = (Some p, u) \<and> p_killed (procs u p)"
    unfolding allocproc_def f using k by (simp add: Let_def k_kalloc_def kmm_def upd_proc_def set_kmm_def split: prod.split)
  ultimately show ?thesis by blast
qed


lemma slots: "[0..<NPROC] = 0 # 1 # 2 # [3..<NPROC]"
  by (simp add: upt_conv_Cons)

text \<open>The same two processes and one page that is free.\<close>

lemma one_free_page:
  obtains s where "procs s = procs two_procs" "cur s = Some 1" "free_pages (kmm s) [0x80200000]"
proof -
  obtain r where r: "kfree 0x80200000 bss_kmem = Inr r" "free_pages r [0x80200000]"
    using kfree_ok [OF bss_kmem_pool, of "0x80200000"] by (auto simp: kpage_def bss_kmem_def V2P_def pg_aligned_unat)
  let ?s = "set_kmm r two_procs"
  show ?thesis by (rule that [of ?s]) (simp_all add: r set_kmm_def kmm_def, simp add: two_procs_def)
qed

theorem kill_zero_marks_free_slot_witness:
  "\<exists>s t u. kill 0 s = (0, t) \<and> allocproc t = (Some 2, u) \<and> p_killed (procs u 2)"
proof -
  obtain s where s: "procs s = procs two_procs" "free_pages (kmm s) [0x80200000]" by (rule one_free_page)
  obtain m where "kalloc (kmm s) = (0x80200000, m)" using kalloc_some [OF s(2)] by metis
  then have "fst (kalloc (kmm s)) \<noteq> 0" by simp
  moreover have "find (\<lambda>p. p_pid (procs s p) = 0) [0..<NPROC] = Some 2" "find (\<lambda>p. p_state (procs s p) = UNUSED) [0..<NPROC] = Some 2"
    unfolding slots s(1) by (simp_all add: two_procs_def zero_proc_def)
  ultimately show ?thesis using kill_zero_marks_free_slot [of s 2] by blast
qed

text \<open>
  When \<open>fork\<close> gives up because \<open>initSwap\<close> has failed, it has already set the parent of the new process, and the freed slot keeps
  it; a later \<open>wait\<close> of a process without children takes the free slot for a child and sleeps instead of returning an error.
\<close>

lemma wait_after_failed_fork:
  assumes "cur s = Some p" and "np < NPROC" and "p_parent (procs s np) = Some p" and "fork_undo np s = Inr (r, t)"
    and "\<forall>q. q \<noteq> np \<longrightarrow> p_parent (procs s q) \<noteq> Some p" and "\<not> p_killed (procs s p)"
  shows "p_state (procs t np) = UNUSED \<and> wait t = Inl (Sleep (ChProc p))"
proof -
  obtain u where u: "k_kfree (p_kstack (procs s np)) s = Inr u" "t = upd_proc np (\<lambda>x. x\<lparr>p_kstack := 0, p_state := UNUSED\<rparr>) u"
    using assms(4) by (auto simp: fork_undo_def bindE_eq_Inr)
  from u(1) have "procs u = procs s" "cur u = cur s" by (auto simp: k_kfree_def bindE_eq_Inr lift_eq_Inr set_kmm_def)
  then have t: "cur t = Some p" "p_state (procs t np) = UNUSED" "p_parent (procs t q) = p_parent (procs s q)"
    "p_killed (procs t q) = p_killed (procs s q)" for q
    using assms(1) unfolding u(2) by (simp_all add: upd_proc_def)
  have z: "\<not> (p_parent (procs t q) = Some p \<and> p_state (procs t q) = ZOMBIE)" for q
    using assms(5) t(2,3) by (cases "q = np") auto
  have "find (\<lambda>q. p_parent (procs t q) = Some p \<and> p_state (procs t q) = ZOMBIE) [0..<NPROC] = None"
    using z by (auto simp: find_None_iff)
  moreover have "find (\<lambda>q. p_parent (procs t q) = Some p) [0..<NPROC] \<noteq> None"
    using assms(2,3) t(3) by (auto simp: find_None_iff)
  ultimately show ?thesis using t assms(6) by (auto simp: wait_def with_me_def Let_def)
qed



end
