(* ===== verification/Swapinv.thy ===== *)
theory Swapinv
  imports Kinv "HOL-Library.Multiset"
begin

text \<open>
  The bookkeeping of the page replacement: which virtual pages a process has in memory and in its swap file, as
  \<open>VPA_Memory\<close> and \<open>VPA_Swap\<close> record them, and how \<open>linkNewPage\<close>, \<open>unlinkPage\<close> and \<open>moveToSwap\<close> change it; the
  choice of the victim of \<open>NFU_SWAP\<close>; and the queue of \<open>FIFO_SWAP\<close> as a list.
\<close>

definition mem_pages :: "proc \<Rightarrow> uint list" where
  "mem_pages x = map MEM_ADDR (take (unat (size_mem x)) (VPA_Memory x))"

definition swap_pages :: "proc \<Rightarrow> uint list" where
  "swap_pages x = map SWAP_ADDR (filter (\<lambda>e. e AND SWAP_P \<noteq> 0) (VPA_Swap x))"

definition swap_ok :: "proc \<Rightarrow> bool" where
  "swap_ok x \<longleftrightarrow> length (VPA_Memory x) = MAX_PSYC_PAGES \<and> length (VPA_Swap x) = MAX_SWAP_PAGES \<and> unat (size_mem x) \<le> MAX_PSYC_PAGES
    \<and> distinct (mem_pages x @ swap_pages x)"


section \<open>Addresses and flags\<close>

lemma addr_eq: "MEM_ADDR = PTE_ADDR" "SWAP_ADDR = PTE_ADDR"
  by (auto simp: MEM_ADDR_def SWAP_ADDR_def PTE_ADDR_def)

lemma SWAP_ADDR_entry [simp]: "PTE_ADDR (SWAP_P OR PTE_ADDR e) = PTE_ADDR e"
  using PTE_ADDR_or [of "PTE_ADDR e" SWAP_P] by (simp add: or.commute)

lemma SWAP_P_entry [simp]: "(SWAP_P OR e) AND SWAP_P = SWAP_P"
  by (simp add: bit.conj_disj_distrib2)

lemma swap_okI:
  assumes "length (VPA_Memory y) = MAX_PSYC_PAGES" and "length (VPA_Swap y) = MAX_SWAP_PAGES" and "unat (size_mem y) \<le> MAX_PSYC_PAGES"
    and "mset (mem_pages y @ swap_pages y) = mset xs" and "distinct xs"
  shows "swap_ok y"
  using assms(1-3,5) mset_eq_imp_distinct_iff [OF assms(4)] by (simp add: swap_ok_def del: distinct_append)

lemma filter_update_mset:
  "i < length xs \<Longrightarrow> mset (filter P (xs[i := e])) + (if P (xs ! i) then {#xs ! i#} else {#}) = mset (filter P xs) + (if P e then {#e#} else {#})"
proof (induction xs arbitrary: i)
  case (Cons a xs)
  show ?case
  proof (cases i)
    case (Suc j)
    then show ?thesis using Cons.IH [of j] Cons.prems by (simp split: if_splits)
  qed simp
qed simp

lemma swap_set:
  assumes "i < length (VPA_Swap x)" and "VPA_Swap x ! i AND SWAP_P = 0" and "e AND SWAP_P \<noteq> 0"
  shows "mset (swap_pages (x\<lparr>VPA_Swap := (VPA_Swap x)[i := e]\<rparr>)) = add_mset (PTE_ADDR e) (mset (swap_pages x))"
  using filter_update_mset [OF assms(1), of "\<lambda>e. e AND SWAP_P \<noteq> 0" e] assms(2,3) by (simp add: swap_pages_def addr_eq)

lemma swap_clear:
  assumes "i < length (VPA_Swap x)" and "VPA_Swap x ! i AND SWAP_P \<noteq> 0"
  shows "mset (swap_pages x) = add_mset (PTE_ADDR (VPA_Swap x ! i)) (mset (swap_pages (x\<lparr>VPA_Swap := (VPA_Swap x)[i := 0]\<rparr>)))"
  using filter_update_mset [OF assms(1), of "\<lambda>e. e AND SWAP_P \<noteq> 0" 0, symmetric] assms(2) by (simp add: swap_pages_def addr_eq)

lemma mem_replace:
  assumes "i < unat (size_mem x)" and "unat (size_mem x) \<le> length (VPA_Memory x)"
  shows "add_mset (PTE_ADDR (VPA_Memory x ! i)) (mset (mem_pages (x\<lparr>VPA_Memory := (VPA_Memory x)[i := e]\<rparr>))) =
    add_mset (PTE_ADDR e) (mset (mem_pages x))"
proof -
  let ?m = "take (unat (size_mem x)) (VPA_Memory x)"
  have i: "i < length ?m" "?m ! i = VPA_Memory x ! i" using assms by simp_all
  have "mset (map PTE_ADDR (?m[i := e])) + {#PTE_ADDR (?m ! i)#} = mset (map PTE_ADDR ?m) + {#PTE_ADDR e#}"
    using filter_update_mset [OF i(1), of "\<lambda>_. True" e, THEN arg_cong, of "image_mset PTE_ADDR"] by simp
  then show ?thesis using i(2) by (simp add: mem_pages_def addr_eq take_update_swap)
qed

lemma mem_append:
  assumes "unat (size_mem x) < length (VPA_Memory x)" and "length (VPA_Memory x) = MAX_PSYC_PAGES"
  shows "mem_pages (x\<lparr>VPA_Memory := (VPA_Memory x)[unat (size_mem x) := e], size_mem := size_mem x + 1\<rparr>) = mem_pages x @ [PTE_ADDR e]"
    "unat (size_mem x + 1) = Suc (unat (size_mem x))"
proof -
  show s: "unat (size_mem x + 1) = Suc (unat (size_mem x))" using assms by (simp add: unat_word_ariths)
  show "mem_pages (x\<lparr>VPA_Memory := (VPA_Memory x)[unat (size_mem x) := e], size_mem := size_mem x + 1\<rparr>) = mem_pages x @ [PTE_ADDR e]"
    using assms(1) by (simp add: mem_pages_def addr_eq s take_Suc_conv_app_nth)
qed


section \<open>Linking and unlinking\<close>

lemma writeToSwapFile_procs: "writeToSwapFile p bs off s = Inr (r, t) \<Longrightarrow> same_procs s t"
  by (auto simp: writeToSwapFile_def split: option.splits dest: kfil_val_procs)

lemma error_exit_procs: "bindE (kprintf fmt args s) (\<lambda>s. Inr (v, s)) = Inr (r, t) \<Longrightarrow> r = v \<and> procs t = procs s"
  by (auto simp: bindE_eq_Inr same_procs_def dest!: kprintf_procs)

lemma moveToSwap_procs:
  assumes "moveToSwap p i j s = Inr (r, t)"
  shows "i < MAX_PSYC_PAGES \<and> (r = 0 \<and> procs t = (procs s)(p := (procs s p)\<lparr>VPA_Swap := (VPA_Swap (procs s p))[j := SWAP_P OR MEM_ADDR (VPA_Memory (procs s p) ! i)]\<rparr>)
    \<or> r \<noteq> 0 \<and> procs t = procs s)"
proof -
  let ?x = "procs s p" and ?vpa = "MEM_ADDR (VPA_Memory (procs s p) ! i)"
  obtain pte u where u: "k_walkpgdir (p_pgdir ?x) ?vpa False s = (pte, u)" by (cases "k_walkpgdir (p_pgdir ?x) ?vpa False s")
  have pu: "procs u = procs s" using k_walkpgdir_procs [OF u] by (simp add: same_procs_def)
  let ?m = "P2V (PTE_ADDR (kld u pte))"
  have i: "i < MAX_PSYC_PAGES" using assms by (auto simp: moveToSwap_def bindE_eq_Inr)
  show ?thesis
  proof (cases "pte = 0 \<or> ?m = 0")
    case True
    then show ?thesis using assms i pu
      by (auto simp: moveToSwap_def bindE_eq_Inr [where m = "assertE _ _"] Let_def u split: if_splits dest!: error_exit_procs)
  next
    case False
    then obtain q v where v: "writeToSwapFile p (mread (kmemory u) ?m PGSIZE) (of_nat j * PGSIZE) u = Inr (q, v)"
      using assms by (auto simp: moveToSwap_def bindE_eq_Inr Let_def u)
    have pv: "procs v = procs s" using writeToSwapFile_procs [OF v] pu by (simp add: same_procs_def)
    show ?thesis
    proof (cases "q = PGSIZE")
      case True
      then show ?thesis using assms i pv False
        by (auto simp: moveToSwap_def bindE_eq_Inr Let_def u v upd_proc_def kst32_def same_procs_def set_memory_def set_kmm_def dest!: k_kfree_procs)
    next
      case nq: False
      then show ?thesis using assms i pv False
        by (auto simp: moveToSwap_def bindE_eq_Inr [where m = "assertE _ _"] Let_def u v dest!: error_exit_procs)
    qed
  qed
qed


lemma getFree: "getFreeSwapPageIndex x = Some j \<Longrightarrow> j < length (VPA_Swap x) \<and> VPA_Swap x ! j AND SWAP_P = 0"
  by (auto simp: getFreeSwapPageIndex_def find_index_Some)

text \<open>Eviction: page \<open>i\<close> goes to slot \<open>j\<close> of the swap file and \<open>e\<close> takes its place.\<close>

lemma evict_pages:
  assumes "swap_ok x" and "size_mem x = 15" and "i < MAX_PSYC_PAGES" and "getFreeSwapPageIndex x = Some j" and "pg_aligned e" and "e \<notin> set (mem_pages x @ swap_pages x)"
  defines "y \<equiv> x\<lparr>VPA_Swap := (VPA_Swap x)[j := SWAP_P OR MEM_ADDR (VPA_Memory x ! i)], VPA_Memory := (VPA_Memory x)[i := e]\<rparr>"
  shows "swap_ok y \<and> mset (mem_pages y @ swap_pages y) = mset (e # mem_pages x @ swap_pages x)"
proof -
  let ?z = "x\<lparr>VPA_Swap := (VPA_Swap x)[j := SWAP_P OR MEM_ADDR (VPA_Memory x ! i)]\<rparr>"
  have s: "mset (swap_pages ?z) = add_mset (PTE_ADDR (VPA_Memory x ! i)) (mset (swap_pages x))"
    using getFree [OF assms(4)] by (simp add: swap_set addr_eq)
  have m: "add_mset (PTE_ADDR (VPA_Memory x ! i)) (mset (mem_pages (x\<lparr>VPA_Memory := (VPA_Memory x)[i := e]\<rparr>))) = add_mset e (mset (mem_pages x))"
    using mem_replace [of i x e] assms(1-3,5) by (simp add: swap_ok_def PTE_ADDR_aligned)
  have "mem_pages y = mem_pages (x\<lparr>VPA_Memory := (VPA_Memory x)[i := e]\<rparr>)" "swap_pages y = swap_pages ?z"
    by (simp_all add: y_def mem_pages_def swap_pages_def)
  then have ms: "mset (mem_pages y @ swap_pages y) = mset (e # mem_pages x @ swap_pages x)" using s m by simp
  have "swap_ok y" by (rule swap_okI [OF _ _ _ ms]) (use assms(1,6) in \<open>auto simp: y_def swap_ok_def\<close>)
  then show ?thesis using ms by blast
qed

lemma linkNewPage_pages:
  assumes ok: "swap_ok (procs s p)" and new: "vpa \<notin> set (mem_pages (procs s p) @ swap_pages (procs s p))" and l: "linkNewPage p vpa s = Inr (r, t)"
  shows "swap_ok (procs t p) \<and> mset (mem_pages (procs t p) @ swap_pages (procs t p)) =
    mset (if r = 0 then vpa # mem_pages (procs s p) @ swap_pages (procs s p) else mem_pages (procs s p) @ swap_pages (procs s p))"
proof -
  let ?x = "procs s p"
  have a: "pg_aligned vpa" using l by (auto simp: linkNewPage_def bindE_eq_Inr PTE_FLAGS_eq_0)
  show ?thesis
  proof (cases "size_mem ?x = 15")
    case True
    show ?thesis
    proof (cases "getFreeSwapPageIndex ?x")
      case None
      then have "r \<noteq> 0 \<and> procs t = procs s" using l a True
        by (auto simp: linkNewPage_def bindE_eq_Inr [where m = "assertE _ _"] Let_def dest!: error_exit_procs)
      then show ?thesis using ok by simp
    next
      case (Some j)
      let ?i = "nat (nfu_victim (VPA_Memory ?x))"
      obtain q u where u: "moveToSwap p ?i j s = Inr (q, u)" using l a True Some by (auto simp: linkNewPage_def bindE_eq_Inr Let_def)
      note P = moveToSwap_procs [OF u]
      show ?thesis
      proof (cases "q = 0")
        case False
        then have "r \<noteq> 0 \<and> procs t = procs s" using l a True Some u P
          by (auto simp: linkNewPage_def bindE_eq_Inr [where m = "assertE _ _"] Let_def dest!: error_exit_procs)
        then show ?thesis using ok by simp
      next
        case q: True
        then have "r = 0" "procs t p = ?x\<lparr>VPA_Swap := (VPA_Swap ?x)[j := SWAP_P OR MEM_ADDR (VPA_Memory ?x ! ?i)], VPA_Memory := (VPA_Memory ?x)[?i := vpa]\<rparr>"
          using l a True Some u P by (auto simp: linkNewPage_def bindE_eq_Inr Let_def upd_proc_def)
        then show ?thesis using evict_pages [OF ok True _ Some a new, of ?i] P by simp
      qed
    qed
  next
    case False
    have len: "length (VPA_Memory ?x) = 15" "unat (size_mem ?x) < 15" using ok False unat_eq_nat_uint
      by (auto simp: swap_ok_def le_less word_unat_eq_iff)
    then have "r = 0" "procs t p = ?x\<lparr>VPA_Memory := (VPA_Memory ?x)[unat (size_mem ?x) := vpa], size_mem := size_mem ?x + 1\<rparr>"
      using l a False by (auto simp: linkNewPage_def bindE_eq_Inr Let_def upd_proc_def)
    moreover have "mset (mem_pages (procs t p) @ swap_pages (procs t p)) = mset (vpa # mem_pages ?x @ swap_pages ?x)"
      using mem_append(1) [of ?x vpa] len a by (simp add: calculation(2) PTE_ADDR_aligned swap_pages_def)
    moreover have "swap_ok (procs t p)"
      by (rule swap_okI [OF _ _ _ calculation(3)]) (use ok new len mem_append(2) [of ?x] in \<open>auto simp: calculation(2) swap_ok_def\<close>)
    ultimately show ?thesis by simp
  qed
qed


lemma unlink_mem:
  assumes "swap_ok x" and "i < unat (size_mem x)"
  defines "n \<equiv> unat (size_mem x) - 1"
  defines "y \<equiv> x\<lparr>size_mem := size_mem x - 1, VPA_Memory := (VPA_Memory x)[i := VPA_Memory x ! n, n := 0]\<rparr>"
  shows "unat (size_mem y) = n \<and> mset (mem_pages x) = add_mset (PTE_ADDR (VPA_Memory x ! i)) (mset (mem_pages y))"
proof -
  let ?v = "(VPA_Memory x)[i := VPA_Memory x ! n]"
  have n: "unat (size_mem x) = Suc n" "n < length (VPA_Memory x)" "Suc n \<le> 15" using assms(1,2) by (auto simp: n_def swap_ok_def)
  have s: "unat (size_mem x - 1) = n"
  proof -
    have "1 \<le> size_mem x" using n(1) by (simp add: word_le_nat_alt)
    then show ?thesis using n(1) by (simp add: unat_sub)
  qed
  have "mem_pages (x\<lparr>VPA_Memory := ?v\<rparr>) = mem_pages y @ [PTE_ADDR (VPA_Memory x ! n)]"
    using n(2) by (cases "i = n") (simp_all add: mem_pages_def addr_eq n(1) s y_def take_Suc_conv_app_nth)
  then show ?thesis using mem_replace [of i x "VPA_Memory x ! n"] assms(2) n s by (simp add: y_def)
qed

lemma unlink_pages:
  assumes ok: "swap_ok x" and a: "pg_aligned vpa"
  shows "\<exists>r y. unlink_page vpa x = Inr (r, y) \<and> swap_ok y \<and>
    (if vpa \<in> set (mem_pages x @ swap_pages x) then r = 0 \<and> mset (mem_pages x @ swap_pages x) = mset (vpa # mem_pages y @ swap_pages y)
     else r = -1 \<and> y = x)"
proof (cases "find (\<lambda>i. MEM_ADDR (VPA_Memory x ! i) = vpa) [0..<unat (size_mem x)]")
  have pre: "PTE_FLAGS vpa = 0" "size_mem x \<le> 15" using ok a by (simp_all add: swap_ok_def PTE_FLAGS_eq_0 word_le_nat_alt)
  case None
  then have nm: "vpa \<notin> set (mem_pages x)" using ok
    by (auto simp: find_None_iff mem_pages_def in_set_conv_nth swap_ok_def) blast
  show ?thesis
  proof (cases "find_index (\<lambda>e. e AND SWAP_P \<noteq> 0 \<and> SWAP_ADDR e = vpa) (VPA_Swap x)")
    case no: None
    then have "vpa \<notin> set (swap_pages x)" by (auto simp: find_index_None swap_pages_def)
    then show ?thesis using None no pre nm ok by (simp add: unlink_page_def unlink_swap_def)
  next
    case (Some i)
    let ?y = "x\<lparr>VPA_Swap := (VPA_Swap x)[i := 0]\<rparr>"
    have i: "i < length (VPA_Swap x)" "VPA_Swap x ! i AND SWAP_P \<noteq> 0" "PTE_ADDR (VPA_Swap x ! i) = vpa"
      using Some by (auto simp: find_index_Some addr_eq)
    have ms: "mset (mem_pages x @ swap_pages x) = mset (vpa # mem_pages ?y @ swap_pages ?y)"
      using swap_clear [OF i(1,2)] i(3) by (simp add: mem_pages_def)
    have "distinct (vpa # mem_pages ?y @ swap_pages ?y)" using ok mset_eq_imp_distinct_iff [OF ms] by (simp add: swap_ok_def)
    then have "swap_ok ?y" using ok by (simp add: swap_ok_def)
    moreover have "vpa \<in> set (mem_pages x @ swap_pages x)" using mset_eq_setD [OF ms] by simp
    ultimately show ?thesis using None Some pre ms by (simp add: unlink_page_def unlink_swap_def)
  qed
next
  have pre: "PTE_FLAGS vpa = 0" "size_mem x \<le> 15" using ok a by (simp_all add: swap_ok_def PTE_FLAGS_eq_0 word_le_nat_alt)
  case (Some i)
  then have i: "i < unat (size_mem x)" "PTE_ADDR (VPA_Memory x ! i) = vpa" by (auto simp: find_Some_iff addr_eq)
  let ?n = "unat (size_mem x) - 1"
  let ?y = "x\<lparr>size_mem := size_mem x - 1, VPA_Memory := (VPA_Memory x)[i := VPA_Memory x ! ?n, ?n := 0]\<rparr>"
  note u = unlink_mem [OF ok i(1)]
  have ms: "mset (mem_pages x @ swap_pages x) = mset (vpa # mem_pages ?y @ swap_pages ?y)"
    using u i(2) by (simp add: swap_pages_def)
  have "distinct (vpa # mem_pages ?y @ swap_pages ?y)" using ok mset_eq_imp_distinct_iff [OF ms] by (simp add: swap_ok_def)
  moreover have "unat (size_mem ?y) \<le> 15" using ok u unfolding swap_ok_def by linarith
  ultimately have "swap_ok ?y" using ok by (simp add: swap_ok_def)
  moreover have "vpa \<in> set (mem_pages x @ swap_pages x)" using mset_eq_setD [OF ms] by simp
  moreover have "unlink_page vpa x = Inr (0, ?y)" using Some pre by (simp add: unlink_page_def Let_def)
  ultimately show ?thesis using ms by simp
qed


section \<open>The victim\<close>

lemma nfu_scan_min:
  "fold (nfu_scan vm) [0..<n] (0xFFFFFFFF, -1) = (c, v) \<Longrightarrow> 0 < n \<Longrightarrow>
    \<exists>i < n. v = int i \<and> c = NFU_MEM_COUNTER (vm ! i) \<and> (\<forall>j < n. c \<le> NFU_MEM_COUNTER (vm ! j) \<and> (i < j \<longrightarrow> c < NFU_MEM_COUNTER (vm ! j)))"
proof (induction n arbitrary: c v)
  case (Suc n)
  obtain d w where d: "fold (nfu_scan vm) [0..<n] (0xFFFFFFFF, -1) = (d, w)" by (cases "fold (nfu_scan vm) [0..<n] (0xFFFFFFFF, -1)")
  have s: "(c, v) = (if NFU_MEM_COUNTER (vm ! n) \<le> d then (NFU_MEM_COUNTER (vm ! n), int n) else (d, w))"
  proof -
    have "(c, v) = nfu_scan vm n (d, w)" using Suc.prems(1) by (simp add: d)
    then show ?thesis by (simp add: nfu_scan_def)
  qed
  show ?case
  proof (cases "n = 0")
    case True
    have "NFU_MEM_COUNTER (vm ! n) \<le> 0xFFFFFFFF" using unat_uint_less [of "NFU_MEM_COUNTER (vm ! n)"] by (simp add: word_le_nat_alt)
    then show ?thesis using s d True by auto
  next
    case False
    then obtain i where i: "i < n" "w = int i" "d = NFU_MEM_COUNTER (vm ! i)"
      "\<forall>j < n. d \<le> NFU_MEM_COUNTER (vm ! j) \<and> (i < j \<longrightarrow> d < NFU_MEM_COUNTER (vm ! j))" using Suc.IH [OF d] by auto
    show ?thesis
    proof (cases "NFU_MEM_COUNTER (vm ! n) \<le> d")
      case True
      then show ?thesis using s i by (intro exI [of _ n]) (auto simp: less_Suc_eq intro: order_trans)
    next
      case False
      then show ?thesis using s i by (intro exI [of _ i]) (auto simp: less_Suc_eq)
    qed
  qed
qed simp


section \<open>The queue of FIFO_SWAP\<close>

definition cyc :: "uint list \<Rightarrow> nat \<Rightarrow> nat \<Rightarrow> uint list" where
  "cyc vm h n = map (\<lambda>k. MEM_ADDR (vm ! ((h + k) mod MAX_PSYC_PAGES))) [0..<n]"

definition fifo_list :: "proc \<Rightarrow> uint list" where
  "fifo_list x = cyc (VPA_Memory x) (nat (q_head x)) (unat (size_mem x))"

definition fifo_ok :: "proc \<Rightarrow> bool" where
  "fifo_ok x \<longleftrightarrow> length (VPA_Memory x) = MAX_PSYC_PAGES \<and> fifo_index (q_head x) \<and> unat (size_mem x) \<le> MAX_PSYC_PAGES
    \<and> q_tail x = (q_head x + int (unat (size_mem x))) mod int MAX_PSYC_PAGES"

lemma length_cyc [simp]: "length (cyc vm h n) = n"
  by (simp add: cyc_def)

lemma nth_cyc [simp]: "k < n \<Longrightarrow> cyc vm h n ! k = MEM_ADDR (vm ! ((h + k) mod 15))"
  by (simp add: cyc_def)

lemma CIRCLE_NEXT_mod: "i < 15 \<Longrightarrow> CIRCLE_NEXT i = Suc i mod 15"
  by (simp add: CIRCLE_NEXT_def mod_Suc)

lemma fifo_find_first:
  "h < 15 \<Longrightarrow> case fifo_find vm vpa n h of
     None \<Rightarrow> vpa \<notin> set (cyc vm h n)
   | Some (j, m) \<Rightarrow> \<exists>k < n. j = (h + k) mod 15 \<and> m = n - 1 - k \<and> cyc vm h n ! k = vpa \<and> (\<forall>i < k. cyc vm h n ! i \<noteq> vpa)"
proof (induction n arbitrary: h)
  case (Suc n)
  let ?h = "CIRCLE_NEXT h"
  have h: "?h < 15" "(?h + k) mod 15 = (h + Suc k) mod 15" for k using Suc.prems by (simp_all add: CIRCLE_NEXT_mod mod_simps)
  have c: "cyc vm h (Suc n) = MEM_ADDR (vm ! h) # cyc vm ?h n"
    using Suc.prems by (intro nth_equalityI) (auto simp: h nth_Cons split: nat.split)
  show ?case
  proof (cases "MEM_ADDR (vm ! h) = vpa")
    case True
    then show ?thesis using Suc.prems by (auto simp: c)
  next
    case False
    then show ?thesis using Suc.IH [OF h(1)]
    proof (cases "fifo_find vm vpa n ?h")
      case (Some jm)
      obtain j m where jm: "jm = (j, m)" by (cases jm)
      then obtain k where k: "k < n" "j = (?h + k) mod 15" "m = n - 1 - k" "cyc vm ?h n ! k = vpa" "\<forall>i < k. cyc vm ?h n ! i \<noteq> vpa"
        using Suc.IH [OF h(1)] Some by auto
      have "\<exists>k < Suc n. j = (h + k) mod 15 \<and> m = Suc n - 1 - k \<and> cyc vm h (Suc n) ! k = vpa \<and> (\<forall>i < k. cyc vm h (Suc n) ! i \<noteq> vpa)"
        using k False h(2) [of k] unfolding c by (intro exI [of _ "Suc k"]) (auto simp: nth_Cons split: nat.split)
      then show ?thesis using Some jm False by simp
    qed (auto simp: c)
  qed
qed (simp add: cyc_def)

lemma fifo_shift_result:
  "n < 15 \<Longrightarrow> h < 15 \<Longrightarrow> length vm = 15 \<Longrightarrow> fifo_shift n h vm = (j, vm') \<Longrightarrow>
    j = (h + n) mod 15 \<and> length vm' = 15 \<and>
    (\<forall>c < 15. vm' ! ((h + c) mod 15) = vm ! ((h + (if c < n then Suc c else c)) mod 15))"
proof (induction n arbitrary: h vm)
  case (Suc n)
  let ?h = "CIRCLE_NEXT h" and ?vm = "vm[h := vm ! CIRCLE_NEXT h]"
  have h: "?h < 15" "(?h + k) mod 15 = (h + Suc k) mod 15" for k using Suc.prems by (simp_all add: CIRCLE_NEXT_mod mod_simps)
  have IH: "j = (?h + n) mod 15" "length vm' = 15" "\<And>c. c < 15 \<Longrightarrow> vm' ! ((?h + c) mod 15) = ?vm ! ((?h + (if c < n then Suc c else c)) mod 15)"
    using Suc.IH [of ?h ?vm] Suc.prems h(1) by simp_all
  have "vm' ! ((h + c) mod 15) = vm ! ((h + (if c < Suc n then Suc c else c)) mod 15)" if c: "c < 15" for c
  proof (cases c)
    case 0
    have "(?h + 14) mod 15 = h mod 15" using h(2) [of 14] by simp
    then show ?thesis using IH(3) [of 14] Suc.prems 0 h(2) [of 0] h(1) by simp
  next
    case (Suc d)
    have ne: "(h + Suc e) mod 15 \<noteq> h" if "e < 14" for e
      using that Suc.prems(2) by (cases "h + Suc e < 15") (simp_all add: le_mod_geq)
    let ?e = "if d < n then Suc d else d"
    have "?e < 14" using c Suc Suc.prems(1) by auto
    then show ?thesis using IH(3) [of d] c Suc h(2) [of d] h(2) [of ?e] ne [of ?e] by (auto split: if_splits)
  qed
  then show ?case using IH(1,2) h(2) by simp
qed auto

lemma remove1_first:
  assumes "k < length l" and "l ! k = v" and "\<forall>i < k. l ! i \<noteq> v"
  shows "remove1 v l = take k l @ drop (Suc k) l"
proof -
  have "v \<notin> set (take k l)" using assms by (auto simp: in_set_conv_nth)
  then show ?thesis using assms(1,2) by (subst id_take_nth_drop [OF assms(1)]) (simp add: remove1_append)
qed

lemma int_mod15: "0 \<le> h \<Longrightarrow> h < 15 \<Longrightarrow> n \<le> 15 \<Longrightarrow> (h + int n) mod 15 = (if h + int n < 15 then h + int n else h + int n - 15)"
  using mod_pos_pos_trivial [of "h + int n" 15] mod_pos_pos_trivial [of "h + int n - 15" 15] minus_mod_self2 [of "h + int n" 15] by auto

text \<open>Shifting the entries behind index \<open>k\<close> of the queue removes that entry.\<close>

lemma fifo_shift_remove:
  assumes h: "h < 15" and n: "n \<le> 15" and len: "length vm = 15" and s: "fifo_shift (n - 1 - k) ((h + k) mod 15) vm = (e, vm')"
    and k: "k < n" "cyc vm h n ! k = vpa" "\<forall>i < k. cyc vm h n ! i \<noteq> vpa"
  shows "e = (h + (n - 1)) mod 15 \<and> length vm' = 15 \<and> cyc vm' h (n - 1) = remove1 vpa (cyc vm h n)"
proof -
  let ?j = "(h + k) mod 15" and ?r = "n - 1 - k"
  have e: "e = (?j + ?r) mod 15" "length vm' = 15" "\<And>c. c < 15 \<Longrightarrow> vm' ! ((?j + c) mod 15) = vm ! ((?j + (if c < ?r then Suc c else c)) mod 15)"
    using fifo_shift_result [OF _ _ len s] k(1) n by auto
  have j: "(?j + c) mod 15 = (h + (k + c)) mod 15" for c by (simp add: mod_simps add.assoc)
  have "vm' ! ((h + c) mod 15) = vm ! ((h + (if c < k then c else Suc c)) mod 15)" if c: "c < n - 1" for c
  proof (cases "c < k")
    case True
    have "h + (k + (c + 15 - k)) = h + c + 15" using True k(1) n by simp
    then have "(h + (k + (c + 15 - k))) mod 15 = (h + c) mod 15" by (simp only: mod_add_self2)
    moreover have "c + 15 - k < 15" "\<not> c + 15 - k < ?r" using True k(1) n by auto
    ultimately show ?thesis using e(3) [of "c + 15 - k"] True by (simp only: j if_True if_False)
  next
    case False
    then have "c - k < 15" "c - k < ?r" "k + (c - k) = c" "k + Suc (c - k) = Suc c" using k(1) c n by auto
    then show ?thesis using e(3) [of "c - k"] False by (simp only: j if_True if_False)
  qed
  then have "cyc vm' h (n - 1) = remove1 vpa (cyc vm h n)"
    using k remove1_first [of k "cyc vm h n" vpa] by (intro nth_equalityI) (auto simp: nth_append)
  then show ?thesis using e(1,2) j [of ?r] k(1) by simp
qed

lemma fifo_unlink:
  assumes ok: "fifo_ok x" and a: "pg_aligned vpa" and m: "vpa \<in> set (fifo_list x)"
  shows "\<exists>y. unlink_page_fifo vpa x = Inr (0, y) \<and> fifo_ok y \<and> fifo_list y = remove1 vpa (fifo_list x)"
proof -
  let ?h = "nat (q_head x)"
  define N where "N = unat (size_mem x)"
  have h: "?h < 15" "0 \<le> q_head x" "q_head x < 15" and len: "length (VPA_Memory x) = 15" "N \<le> 15" and fl: "PTE_FLAGS vpa = 0"
    and l: "fifo_list x = cyc (VPA_Memory x) ?h N"
    using ok a by (auto simp: fifo_ok_def fifo_index_def PTE_FLAGS_eq_0 N_def fifo_list_def)
  obtain j r where f: "fifo_find (VPA_Memory x) vpa N ?h = Some (j, r)"
    using fifo_find_first [OF h(1), where vm = "VPA_Memory x" and vpa = vpa and n = N] m by (auto simp: l split: option.splits)
  then obtain k where k: "k < N" "j = (?h + k) mod 15" "r = N - 1 - k" "fifo_list x ! k = vpa" "\<forall>i < k. fifo_list x ! i \<noteq> vpa"
    using fifo_find_first [OF h(1), where vm = "VPA_Memory x" and vpa = vpa and n = N] by (auto simp: l)
  obtain e vm where s: "fifo_shift r j (VPA_Memory x) = (e, vm)" by (cases "fifo_shift r j (VPA_Memory x)")
  have e: "e = (?h + (N - 1)) mod 15" "length vm = 15" "cyc vm ?h (N - 1) = remove1 vpa (fifo_list x)"
    using fifo_shift_remove [OF h(1) len(2,1)] s k unfolding l by blast+
  have n1: "unat (size_mem x - 1) = N - 1" using k(1) by (simp add: unat_sub word_le_nat_alt N_def)
  have tail: "int e = (q_head x + int (N - 1)) mod 15"
    using h(2) unfolding e(1) by (simp only: zmod_int of_nat_add of_nat_numeral int_nat_eq if_True)
  let ?y = "x\<lparr>VPA_Memory := vm, q_tail := int e, size_mem := size_mem x - 1\<rparr>"
  have "size_mem x - 1 = 0 \<longleftrightarrow> N - 1 = 0" using n1 unat_eq_zero [of "size_mem x - 1"] by simp
  then have "unlink_page_fifo vpa x = Inr (0, ?y)"
    unfolding unlink_page_fifo_def using tail int_mod15 [OF h(2,3), of "N - 1"] k(1) len(2) n1 h fl f s
    by (auto simp: fifo_index_def Let_def simp flip: N_def)
  moreover have "fifo_ok ?y" using ok e(2) tail len(2) by (simp add: fifo_ok_def n1)
  ultimately show ?thesis using e(3) by (simp add: fifo_list_def n1)
qed

text \<open>The new page goes to the tail; on a full queue it takes the slot of the head, which moves on.\<close>

lemma cyc_push:
  assumes "h < 15" and "n < 15" and "length vm = 15"
  shows "cyc (vm[(h + n) mod 15 := v]) h (Suc n) = cyc vm h n @ [MEM_ADDR v]"
proof -
  have "(h + n) mod 15 \<noteq> (h + k) mod 15" if "k < n" for k
    using that assms by (auto simp: mod_if)
  then show ?thesis using assms by (intro nth_equalityI) (auto simp: nth_append less_Suc_eq)
qed

lemma cyc_rotate:
  assumes "h < 15" and "length vm = 15"
  shows "cyc (vm[h := v]) ((h + 1) mod 15) 15 = tl (cyc vm h 15) @ [MEM_ADDR v]"
proof (intro nth_equalityI)
  fix k assume "k < length (cyc (vm[h := v]) ((h + 1) mod 15) 15)"
  then have k: "k < 15" by simp
  have e: "((h + 1) mod 15 + k) mod 15 = (h + Suc k) mod 15" by (simp add: mod_simps)
  show "cyc (vm[h := v]) ((h + 1) mod 15) 15 ! k = (tl (cyc vm h 15) @ [MEM_ADDR v]) ! k"
  proof (cases "k < 14")
    case True
    then have "(h + Suc k) mod 15 \<noteq> h" using assms(1) by (auto simp: mod_if)
    then show ?thesis using True k e assms by (simp add: nth_append nth_tl)
  next
    case False
    then have "k = 14" using k by simp
    then show ?thesis using e assms by (simp add: nth_append)
  qed
qed simp


lemma fifo_link:
  assumes ok: "fifo_ok (procs s p)" and l: "linkNewPage_fifo p vpa s = Inr (0, t)"
  shows "fifo_ok (procs t p) \<and> fifo_list (procs t p) =
    (if size_mem (procs s p) = 15 then tl (fifo_list (procs s p)) else fifo_list (procs s p)) @ [vpa]"
proof -
  let ?x = "procs s p" and ?h = "nat (q_head (procs s p))"
  have a: "pg_aligned vpa" using l by (auto simp: linkNewPage_fifo_def bindE_eq_Inr PTE_FLAGS_eq_0)
  then have v: "MEM_ADDR vpa = vpa" by (simp add: addr_eq PTE_ADDR_aligned)
  have h: "?h < 15" "0 \<le> q_head ?x" "q_head ?x < 15" and len: "length (VPA_Memory ?x) = 15" "unat (size_mem ?x) \<le> 15"
    and tl: "q_tail ?x = (q_head ?x + int (unat (size_mem ?x))) mod 15"
    using ok by (auto simp: fifo_ok_def fifo_index_def)
  have nt: "nat (q_tail ?x) = (?h + unat (size_mem ?x)) mod 15"
    unfolding tl using h(2) by (simp only: nat_mod_distrib nat_add_distrib of_nat_0_le_iff nat_int) simp
  show ?thesis
  proof (cases "size_mem ?x = 15")
    case True
    then have ht: "q_tail ?x = q_head ?x" using tl h by simp
    obtain j where j: "getFreeSwapPageIndex ?x = Some j" using l a True
      by (auto simp: linkNewPage_fifo_def bindE_eq_Inr [where m = "assertE _ _"] Let_def split: option.splits if_splits dest!: error_exit_procs)
    then obtain r u where u: "moveToSwap p ?h j s = Inr (r, u)" and t: "procs t p = (fifo_push vpa (procs u p))\<lparr>q_head := (q_head (procs u p) + 1) mod 15\<rparr>"
      using l a True ht by (auto simp: linkNewPage_fifo_def bindE_eq_Inr Let_def upd_proc_def fifo_push_def split: if_splits)
    have pu: "VPA_Memory (procs u p) = VPA_Memory ?x" "q_head (procs u p) = q_head ?x" "q_tail (procs u p) = q_head ?x" "size_mem (procs u p) = 15"
      using moveToSwap_procs [OF u] True ht by auto
    have hh: "nat ((q_head ?x + 1) mod 15) = (?h + 1) mod 15" using h(2) by (simp add: nat_mod_distrib nat_add_distrib)
    show ?thesis using True len(1) h t pu hh cyc_rotate [OF h(1) len(1), of vpa] v
      by (simp add: fifo_ok_def fifo_list_def fifo_push_def fifo_index_def)
  next
    case False
    then have n: "unat (size_mem ?x) < 15" using len(2) by (auto simp: le_less word_unat_eq_iff)
    have s: "unat (size_mem ?x + 1) = Suc (unat (size_mem ?x))" using n by (simp add: unat_word_ariths)
    have t: "procs t p = (fifo_push vpa ?x)\<lparr>size_mem := size_mem ?x + 1\<rparr>"
      using l a False by (auto simp: linkNewPage_fifo_def bindE_eq_Inr Let_def upd_proc_def split: if_splits)
    have "(q_tail ?x + 1) mod 15 = (q_head ?x + int (Suc (unat (size_mem ?x)))) mod 15"
      unfolding tl by (simp only: mod_add_left_eq of_nat_Suc add.assoc) (simp add: add.commute)
    then show ?thesis using False len(1) h t s nt cyc_push [OF h(1) n len(1), of vpa] v n
      by (simp add: fifo_ok_def fifo_list_def fifo_push_def fifo_index_def)
  qed
qed


section \<open>Replacement policies\<close>

text \<open>
  What \<open>deallocuvm\<close> relies on, for either policy: a page that is recorded can be unlinked, and nothing else is
  forgotten.
\<close>

locale replacement =
  fixes pages :: "proc \<Rightarrow> uint list"
    and ok :: "proc \<Rightarrow> bool"
    and unlink :: "uint \<Rightarrow> proc \<Rightarrow> kerror + int \<times> proc"
  assumes unlink_one: "ok x \<Longrightarrow> pg_aligned v \<Longrightarrow> v \<in> set (pages x) \<Longrightarrow>
    \<exists>y. unlink v x = Inr (0, y) \<and> ok y \<and> mset (pages x) = add_mset v (mset (pages y))"
begin

lemma unlink_many:
  "ok x \<Longrightarrow> (\<And>v. v \<in> set vs \<Longrightarrow> pg_aligned v) \<Longrightarrow> mset vs \<subseteq># mset (pages x) \<Longrightarrow>
    \<exists>y. foldE (\<lambda>v x. bindE (unlink v x) (\<lambda>(r, y). if r = 0 then Inr y else Inl (Panic ''unlink''))) vs x = Inr y \<and> ok y
      \<and> mset (pages x) = mset vs + mset (pages y)"
proof (induction vs arbitrary: x)
  case (Cons v vs)
  have "v \<in> set (pages x)" using Cons.prems(3) by (metis list.set_intros(1) mset_subset_eqD set_mset_mset)
  then obtain y where y: "unlink v x = Inr (0, y)" "ok y" "mset (pages x) = add_mset v (mset (pages y))"
    using unlink_one [OF Cons.prems(1), of v] Cons.prems(2) [of v] by auto
  then have "mset vs \<subseteq># mset (pages y)" using Cons.prems(3) by simp
  then show ?case using Cons.IH [OF y(2)] Cons.prems(2) y by auto
qed simp

text \<open>Unlinking every page leaves none.\<close>

lemma unlink_all:
  assumes "ok x" and "\<And>v. v \<in> set (pages x) \<Longrightarrow> pg_aligned v"
  shows "\<exists>y. foldE (\<lambda>v x. bindE (unlink v x) (\<lambda>(r, y). if r = 0 then Inr y else Inl (Panic ''unlink''))) (pages x) x = Inr y \<and> ok y \<and> pages y = []"
  using unlink_many [of x "pages x"] assms by auto

end

interpretation nfu: replacement "\<lambda>x. mem_pages x @ swap_pages x" swap_ok unlink_page
proof unfold_locales
  fix x v assume "swap_ok x" "pg_aligned v" "v \<in> set (mem_pages x @ swap_pages x)"
  then show "\<exists>y. unlink_page v x = Inr (0, y) \<and> swap_ok y \<and> mset (mem_pages x @ swap_pages x) = add_mset v (mset (mem_pages y @ swap_pages y))"
    using unlink_pages [of x v] by auto
qed

interpretation fifo: replacement fifo_list fifo_ok unlink_page_fifo
proof unfold_locales
  fix x v assume "fifo_ok x" "pg_aligned v" "v \<in> set (fifo_list x)"
  then show "\<exists>y. unlink_page_fifo v x = Inr (0, y) \<and> fifo_ok y \<and> mset (fifo_list x) = add_mset v (mset (fifo_list y))"
    using fifo_unlink [of x v] by fastforce
qed

lemma pages_aligned:
  "v \<in> set (mem_pages x @ swap_pages x) \<Longrightarrow> pg_aligned v" "v \<in> set (fifo_list x) \<Longrightarrow> pg_aligned v"
  by (auto simp: mem_pages_def swap_pages_def fifo_list_def cyc_def addr_eq)


section \<open>Use counters\<close>

text \<open>The counter has 11 bits, so a page that is used at every tick is back at zero after 2048 ticks.\<close>

lemma NFU_take_bit: "NFU_MEM_COUNTER x = take_bit 11 x"
  by (simp add: NFU_MEM_COUNTER_def take_bit_eq_mask mask_numeral)

lemma unat_NFU: "unat (NFU_MEM_COUNTER x) = unat x mod 2048"
  by (simp add: NFU_take_bit take_bit_eq_mod unat_mod_distrib)

lemma counter_of_entry: "NFU_MEM_COUNTER (PTE_ADDR e OR NFU_MEM_COUNTER c) = NFU_MEM_COUNTER c"
  and addr_of_entry: "PTE_ADDR (PTE_ADDR e OR NFU_MEM_COUNTER c) = PTE_ADDR e"
proof -
  have "take_bit 11 (PTE_ADDR e) = 0" using pg_aligned_PTE_ADDR [of e] by (auto intro!: bit_eqI simp: pg_aligned_bits bit_take_bit_iff)
  then show "NFU_MEM_COUNTER (PTE_ADDR e OR NFU_MEM_COUNTER c) = NFU_MEM_COUNTER c" by (simp add: NFU_take_bit)
  have "NFU_MEM_COUNTER c < 4096" using mod_less_divisor [of 2048 "unat c"] by (simp add: word_less_nat_alt unat_NFU)
  then show "PTE_ADDR (PTE_ADDR e OR NFU_MEM_COUNTER c) = PTE_ADDR e" by (rule PTE_ADDR_or [OF pg_aligned_PTE_ADDR])
qed

lemma nfu_count_step:
  assumes "nfu_count p i s = Inr t" and "i < length (VPA_Memory (procs s p))"
    and w: "k_walkpgdir (p_pgdir (procs s p)) (MEM_ADDR (VPA_Memory (procs s p) ! i)) False s = (pte, u)" and "kld u pte AND PTE_A \<noteq> 0"
  shows "MEM_ADDR (VPA_Memory (procs t p) ! i) = MEM_ADDR (VPA_Memory (procs s p) ! i) \<and>
    unat (NFU_MEM_COUNTER (VPA_Memory (procs t p) ! i)) = Suc (unat (NFU_MEM_COUNTER (VPA_Memory (procs s p) ! i))) mod 2048"
proof -
  let ?e = "VPA_Memory (procs s p) ! i"
  have u: "procs u = procs s" using k_walkpgdir_procs [OF w] by (simp add: same_procs_def)
  have "VPA_Memory (procs t p) = (VPA_Memory (procs s p))[i := MEM_ADDR ?e OR NFU_MEM_COUNTER (NFU_MEM_COUNTER ?e + 1)]"
    using assms(1,4) u by (auto simp: nfu_count_def w Let_def bindE_eq_Inr upd_proc_def kst32_def set_memory_def set_kmm_def split: if_splits)
  moreover have "unat (NFU_MEM_COUNTER (NFU_MEM_COUNTER ?e + 1)) = Suc (unat (NFU_MEM_COUNTER ?e)) mod 2048"
    by (simp add: unat_NFU unat_word_ariths mod_simps mod_mod_cancel)
  ultimately show ?thesis using assms(2) by (simp add: addr_eq counter_of_entry addr_of_entry)
qed


section \<open>Properties\<close>

text \<open>
  C9. \<open>linkNewPage\<close> keeps the record of a process's pages exact, also when it evicts a page to the swap
  file or fails: no page is recorded twice, and on success the pages in memory and in the swap file together are those from before
  and the new one, at most \<open>MAX_PSYC_PAGES + MAX_SWAP_PAGES\<close>; on failure they are those from before.
\<close>

theorem linkNewPage_keeps_pages:
  assumes "swap_ok (procs s p)" and "vpa \<notin> set (mem_pages (procs s p) @ swap_pages (procs s p))" and "linkNewPage p vpa s = Inr (r, t)"
  shows "swap_ok (procs t p) \<and> set (mem_pages (procs t p) @ swap_pages (procs t p)) =
      (if r = 0 then {vpa} else {}) \<union> set (mem_pages (procs s p) @ swap_pages (procs s p))
    \<and> length (mem_pages (procs t p)) \<le> MAX_PSYC_PAGES \<and> length (swap_pages (procs t p)) \<le> MAX_SWAP_PAGES"
proof -
  note l = linkNewPage_pages [OF assms]
  then have "swap_ok (procs t p)" by blast
  then have "length (mem_pages (procs t p)) \<le> 15" "length (swap_pages (procs t p)) \<le> 15"
    using length_filter_le [of "\<lambda>e. e AND SWAP_P \<noteq> 0" "VPA_Swap (procs t p)"] by (auto simp: swap_ok_def mem_pages_def swap_pages_def)
  then show ?thesis using l mset_eq_setD [OF conjunct2 [OF l]] by (cases "r = 0") simp_all
qed

definition fresh_proc :: proc where
  "fresh_proc = zero_proc\<lparr>VPA_Swap := replicate 15 0, VPA_Memory := replicate 15 0\<rparr>"

lemma fresh_proc_ok: "swap_ok fresh_proc" "mem_pages fresh_proc = []" "swap_pages fresh_proc = []"
  by (simp_all add: swap_ok_def mem_pages_def swap_pages_def fresh_proc_def zero_proc_def)

theorem linkNewPage_keeps_pages_witness:
  "\<exists>s t. linkNewPage 1 0x3000 s = Inr (0, t) \<and> swap_ok (procs t 1) \<and> 0x3000 \<in> set (mem_pages (procs t 1) @ swap_pages (procs t 1))"
proof -
  let ?s = "upd_proc 1 (\<lambda>_. fresh_proc) two_procs"
  have p: "procs ?s 1 = fresh_proc" by (simp add: upd_proc_def)
  obtain t where t: "linkNewPage 1 0x3000 ?s = Inr (0, t)"
    by (simp add: linkNewPage_def p PTE_FLAGS_eq_0 pg_aligned_def Let_def) (simp add: fresh_proc_def zero_proc_def)
  have "swap_ok (procs t 1)" "0x3000 \<in> set (mem_pages (procs t 1) @ swap_pages (procs t 1))"
    using linkNewPage_keeps_pages [OF _ _ t] fresh_proc_ok by (simp_all add: p)
  then show ?thesis using t by blast
qed

text \<open>
  C10. \<open>unlinkPage\<close> never panics on a consistent record, finds a page wherever it is, in memory or in the swap file, and forgets exactly
  that page; for a page the process does not have it returns an error and changes nothing.
\<close>

theorem unlinkPage_forgets:
  assumes "swap_ok (procs s p)" and "pg_aligned vpa"
  shows "\<exists>r t. unlinkPage p vpa s = Inr (r, t) \<and> swap_ok (procs t p) \<and>
    set (mem_pages (procs t p) @ swap_pages (procs t p)) = set (mem_pages (procs s p) @ swap_pages (procs s p)) - {vpa} \<and>
    (r = 0 \<longleftrightarrow> vpa \<in> set (mem_pages (procs s p) @ swap_pages (procs s p))) \<and> (r \<noteq> 0 \<longrightarrow> t = s)"
proof -
  let ?x = "procs s p"
  obtain r y where u: "unlink_page vpa ?x = Inr (r, y)" "swap_ok y" and
    c: "if vpa \<in> set (mem_pages ?x @ swap_pages ?x) then r = 0 \<and> mset (mem_pages ?x @ swap_pages ?x) = mset (vpa # mem_pages y @ swap_pages y)
     else r = -1 \<and> y = ?x" using unlink_pages [OF assms] by blast
  have U: "unlinkPage p vpa s = Inr (r, upd_proc p (\<lambda>_. y) s)" using u by (simp add: unlinkPage_def)
  show ?thesis
  proof (cases "vpa \<in> set (mem_pages ?x @ swap_pages ?x)")
    case True
    then have r: "r = 0" and ms: "mset (mem_pages ?x @ swap_pages ?x) = mset (vpa # mem_pages y @ swap_pages y)" using c by auto
    have "distinct (vpa # mem_pages y @ swap_pages y)" using assms(1) mset_eq_imp_distinct_iff [OF ms] by (simp add: swap_ok_def)
    then have "set (mem_pages y @ swap_pages y) = set (mem_pages ?x @ swap_pages ?x) - {vpa}" using mset_eq_setD [OF ms] by auto
    then show ?thesis using U u(2) r True by (intro exI [of _ r] exI [of _ "upd_proc p (\<lambda>_. y) s"]) (simp add: upd_proc_def)
  next
    case False
    then show ?thesis using U u(2) c by (auto simp: upd_proc_def)
  qed
qed

theorem unlinkPage_forgets_witness:
  "\<exists>s r t. 0x3000 \<in> set (swap_pages (procs s 1)) \<and> unlinkPage 1 0x3000 s = Inr (r, t) \<and> r = 0 \<and> swap_pages (procs t 1) = []"
proof -
  let ?x = "fresh_proc\<lparr>VPA_Swap := 0x3800 # replicate 14 0\<rparr>"
  let ?s = "upd_proc 1 (\<lambda>_. ?x) two_procs"
  have x: "swap_pages ?x = [0x3000]" "mem_pages ?x = []" "swap_ok ?x"
    by (simp_all add: swap_ok_def mem_pages_def swap_pages_def fresh_proc_def zero_proc_def SWAP_ADDR_def)
  have p: "procs ?s 1 = ?x" by (simp add: upd_proc_def)
  obtain r t where "unlinkPage 1 0x3000 ?s = Inr (r, t)" "set (mem_pages (procs t 1) @ swap_pages (procs t 1)) = {}" "r = 0"
    using unlinkPage_forgets [of ?s 1 "0x3000"] x by (auto simp: p pg_aligned_def)
  then show ?thesis using x p by (metis append_is_Nil_conv list.set_intros(1) set_empty)
qed

text \<open>
  C13. The victim of \<open>NFU_SWAP\<close> is a page with the smallest use counter, the last of them in the table, and there is
  always one, so that the assertion in \<open>linkNewPage\<close> holds.
\<close>

theorem nfu_victim_least:
  "\<exists>i < MAX_PSYC_PAGES. nfu_victim vm = int i \<and> (\<forall>j < MAX_PSYC_PAGES.
    NFU_MEM_COUNTER (vm ! i) \<le> NFU_MEM_COUNTER (vm ! j) \<and> (i < j \<longrightarrow> NFU_MEM_COUNTER (vm ! i) < NFU_MEM_COUNTER (vm ! j)))"
proof -
  obtain c v where "fold (nfu_scan vm) [0..<15] (0xFFFFFFFF, -1) = (c, v)" by (cases "fold (nfu_scan vm) [0..<15] (0xFFFFFFFF, -1)")
  from nfu_scan_min [OF this] this show ?thesis unfolding nfu_victim_def by auto
qed

theorem nfu_victim_least_witness: "nfu_victim ((replicate 15 5)[3 := 1, 7 := 1]) = 7"
proof -
  let ?vm = "(replicate 15 5)[3 := 1, 7 := 1] :: uint list"
  obtain i where i: "i < 15" "nfu_victim ?vm = int i" and
    m: "\<forall>j < 15. NFU_MEM_COUNTER (?vm ! i) \<le> NFU_MEM_COUNTER (?vm ! j) \<and> (i < j \<longrightarrow> NFU_MEM_COUNTER (?vm ! i) < NFU_MEM_COUNTER (?vm ! j))"
    using nfu_victim_least [of ?vm] by blast
  have "?vm ! i = (if i = 3 \<or> i = 7 then 1 else 5)" "?vm ! 7 = 1" using i(1) by (simp_all add: nth_list_update)
  then have "i = 7" using m [rule_format, of 7] by (auto simp: NFU_MEM_COUNTER_def word_le_nat_alt split: if_splits)
  then show ?thesis using i(2) by simp
qed

text \<open>
  C14. Under \<open>FIFO_SWAP\<close>, \<open>linkNewPage\<close> implements a bounded queue on the ring \<open>VPA_Memory\<close>: the new page goes to
  the end, and on a full queue the oldest page leaves.
\<close>

theorem fifo_link_refines:
  assumes "fifo_ok (procs s p)" and "linkNewPage_fifo p vpa s = Inr (0, t)"
  shows "fifo_ok (procs t p) \<and> fifo_list (procs t p) =
    (if size_mem (procs s p) = of_nat MAX_PSYC_PAGES then tl (fifo_list (procs s p)) else fifo_list (procs s p)) @ [vpa]"
  using fifo_link [OF assms] by simp

lemma fresh_proc_fifo: "fifo_ok fresh_proc" "fifo_list fresh_proc = []"
  by (simp_all add: fifo_ok_def fifo_list_def fifo_index_def cyc_def fresh_proc_def zero_proc_def)

theorem fifo_link_refines_witness:
  "\<exists>s t. linkNewPage_fifo 1 0x3000 s = Inr (0, t) \<and> fifo_list (procs t 1) = [0x3000]"
proof -
  let ?s = "upd_proc 1 (\<lambda>_. fresh_proc) two_procs"
  have p: "procs ?s 1 = fresh_proc" by (simp add: upd_proc_def)
  obtain t where t: "linkNewPage_fifo 1 0x3000 ?s = Inr (0, t)"
    by (simp add: linkNewPage_fifo_def p PTE_FLAGS_eq_0 pg_aligned_def Let_def) (simp add: fresh_proc_def zero_proc_def fifo_index_def)
  have "size_mem fresh_proc \<noteq> 15" by (simp add: fresh_proc_def zero_proc_def)
  then show ?thesis using fifo_link_refines [OF _ t] fresh_proc_fifo t by (auto simp: p)
qed

text \<open>
  C15. Under \<open>FIFO_SWAP\<close>, \<open>unlinkPage\<close> of a page in memory removes it from the queue and keeps the order of the others,
  wherever in the ring it is, and its assertions on head, tail and size hold.
\<close>

theorem fifo_unlink_refines:
  assumes "fifo_ok x" and "pg_aligned vpa" and "vpa \<in> set (fifo_list x)"
  shows "\<exists>y. unlink_page_fifo vpa x = Inr (0, y) \<and> fifo_ok y \<and> fifo_list y = remove1 vpa (fifo_list x)"
  using assms by (rule fifo_unlink)

theorem fifo_unlink_refines_witness:
  "\<exists>x y. q_head x = 13 \<and> fifo_list x = [0x1000, 0x2000, 0x3000] \<and> unlink_page_fifo 0x2000 x = Inr (0, y) \<and> fifo_list y = [0x1000, 0x3000]"
proof -
  let ?x = "fresh_proc\<lparr>VPA_Memory := (replicate 15 0)[13 := 0x1000, 14 := 0x2000, 0 := 0x3000], q_head := 13, q_tail := 1, size_mem := 3\<rparr>"
  have l: "fifo_list ?x = [0x1000, 0x2000, 0x3000]"
    by (simp add: fifo_list_def cyc_def upt_rec MEM_ADDR_def)
  have "fifo_ok ?x" by (simp add: fifo_ok_def fifo_index_def)
  then obtain y where "unlink_page_fifo 0x2000 ?x = Inr (0, y)" "fifo_list y = remove1 0x2000 (fifo_list ?x)"
    using fifo_unlink_refines [of ?x "0x2000"] l by (auto simp: pg_aligned_def)
  then show ?thesis using l by - (rule exI [of _ ?x], rule exI [of _ y], simp)
qed

end
