(* ===== verification/Spinlock.thy ===== *)
theory Spinlock
  imports Prelude
begin

text \<open>
  \<^verbatim>\<open>spinlock.c\<close>: interrupt nesting and spin locks on several processors. Each function is a composition
  of the steps that other processors can see (the entry with interrupts off, the atomic \<open>xchg\<close>, the
  record of the owner; the removal of the record, the store that unlocks, \<open>popcli\<close>). \<open>cpu_step\<close> interleaves
  the steps of all processors, with interrupts switched on and off around them. The invariant gives
  mutual exclusion and that a processor holding a lock has its interrupts off; it is what lets the other
  theories treat a section under a spin lock as one step.
\<close>

section \<open>State\<close>

record cpu =
  ncli :: int
  intena :: bool
  IF :: bool

record spinlock =
  sp_locked :: bool
  sp_cpu :: "nat option"

record smp =
  cpus :: "nat \<Rightarrow> cpu"
  locks :: "nat \<Rightarrow> spinlock"

definition upd_cpu :: "nat \<Rightarrow> (cpu \<Rightarrow> cpu) \<Rightarrow> smp \<Rightarrow> smp" where
  "upd_cpu c f s = s\<lparr>cpus := (cpus s)(c := f (cpus s c))\<rparr>"

definition upd_lock :: "nat \<Rightarrow> (spinlock \<Rightarrow> spinlock) \<Rightarrow> smp \<Rightarrow> smp" where
  "upd_lock l f s = s\<lparr>locks := (locks s)(l := f (locks s l))\<rparr>"

definition initlock :: spinlock where
  "initlock = \<lparr>sp_locked = False, sp_cpu = None\<rparr>"


section \<open>Interrupt nesting\<close>

definition push :: "cpu \<Rightarrow> cpu" where
  "push x = x\<lparr>IF := False, intena := (if ncli x = 0 then IF x else intena x), ncli := ncli x + 1\<rparr>"

definition pushcli :: "nat \<Rightarrow> smp \<Rightarrow> smp" where
  "pushcli c s = upd_cpu c push s"

definition pop :: "cpu \<Rightarrow> kerror + cpu" where
  "pop x =
    (if IF x then Inl (Panic ''popcli - interruptible'')
     else
       let x = x\<lparr>ncli := ncli x - 1\<rparr> in
       if ncli x < 0 then Inl (Panic ''popcli'')
       else Inr (if ncli x = 0 \<and> intena x then x\<lparr>IF := True\<rparr> else x))"

definition popcli :: "nat \<Rightarrow> smp \<Rightarrow> kerror + smp" where
  "popcli c s = bindE (pop (cpus s c)) (\<lambda>x. Inr (upd_cpu c (\<lambda>_. x) s))"

lemma pop_push: "0 \<le> ncli x \<Longrightarrow> pop (push x) = Inr (x\<lparr>intena := (if ncli x = 0 then IF x else intena x), IF := IF x \<and> ncli x = 0\<rparr>)"
  by (cases x) (auto simp: pop_def push_def Let_def)


section \<open>Locks\<close>

definition holds_lock :: "nat \<Rightarrow> nat \<Rightarrow> smp \<Rightarrow> bool" where
  "holds_lock c l s \<longleftrightarrow> sp_locked (locks s l) \<and> sp_cpu (locks s l) = Some c"

definition holding :: "nat \<Rightarrow> nat \<Rightarrow> smp \<Rightarrow> kerror + bool \<times> smp" where
  "holding c l s =
    (let s = pushcli c s; r = holds_lock c l s in bindE (popcli c s) (\<lambda>s. Inr (r, s)))"

definition acquire_enter :: "nat \<Rightarrow> nat \<Rightarrow> smp \<Rightarrow> kerror + smp" where
  "acquire_enter c l s =
    bindE (holding c l (pushcli c s)) (\<lambda>(r, s). if r then Inl (Panic ''acquire'') else Inr s)"

text \<open>\<open>xchg(&lk->locked, 1)\<close>: the old value with the new state.\<close>

definition lock_xchg :: "nat \<Rightarrow> smp \<Rightarrow> bool \<times> smp" where
  "lock_xchg l s = (sp_locked (locks s l), upd_lock l (sp_locked_update (\<lambda>_. True)) s)"

definition acquire_record :: "nat \<Rightarrow> nat \<Rightarrow> smp \<Rightarrow> smp" where
  "acquire_record c l s = upd_lock l (sp_cpu_update (\<lambda>_. Some c)) s"

text \<open>\<open>acquire\<close> on a lock that no other processor will release spins for ever.\<close>

definition acquire :: "nat \<Rightarrow> nat \<Rightarrow> smp \<Rightarrow> kerror + smp" where
  "acquire c l s =
    bindE (acquire_enter c l s) (\<lambda>s.
      case lock_xchg l s of (old, s) \<Rightarrow> if old then Inl Hang else Inr (acquire_record c l s))"

definition release_enter :: "nat \<Rightarrow> nat \<Rightarrow> smp \<Rightarrow> kerror + smp" where
  "release_enter c l s =
    bindE (holding c l s) (\<lambda>(r, s).
      if \<not> r then Inl (Panic ''release'') else Inr (upd_lock l (sp_cpu_update (\<lambda>_. None)) s))"

definition release_unlock :: "nat \<Rightarrow> smp \<Rightarrow> smp" where
  "release_unlock l s = upd_lock l (sp_locked_update (\<lambda>_. False)) s"

definition release :: "nat \<Rightarrow> nat \<Rightarrow> smp \<Rightarrow> kerror + smp" where
  "release c l s = bindE (release_enter c l s) (\<lambda>s. popcli c (release_unlock l s))"

lemma holding_ok:
  assumes "1 \<le> ncli (cpus s c)" and "\<not> IF (cpus s c)"
  shows "holding c l s = Inr (holds_lock c l s, s)"
proof -
  have n: "0 \<le> ncli (cpus s c)" "ncli (cpus s c) \<noteq> 0" using assms(1) by auto
  have "cpus s c\<lparr>IF := False\<rparr> = cpus s c" using assms(2) by (cases "cpus s c") simp
  with pop_push [OF n(1)] n(2) assms(2) show ?thesis
    by (simp add: holding_def popcli_def pushcli_def upd_cpu_def holds_lock_def Let_def)
qed

text \<open>On one processor, \<open>release\<close> undoes \<open>acquire\<close>.\<close>

lemma acquire_ok:
  assumes "0 \<le> ncli (cpus s c)" and "\<not> sp_locked (locks s l)"
  shows "acquire c l s = Inr (acquire_record c l (snd (lock_xchg l (pushcli c s))))"
proof -
  have "1 \<le> ncli (cpus (pushcli c s) c)" "\<not> IF (cpus (pushcli c s) c)" "\<not> holds_lock c l (pushcli c s)"
    using assms by (simp_all add: pushcli_def upd_cpu_def push_def holds_lock_def)
  from holding_ok [OF this(1,2), of l] this(3) assms(2) show ?thesis
    by (simp add: acquire_def acquire_enter_def lock_xchg_def pushcli_def upd_cpu_def)
qed

lemma acquire_release:
  assumes "0 \<le> ncli (cpus s c)" and l: "locks s l = initlock" and "0 < ncli (cpus s c) \<Longrightarrow> \<not> IF (cpus s c)"
  shows "\<exists>t u. acquire c l s = Inr t \<and> holds_lock c l t \<and> \<not> IF (cpus t c) \<and> release c l t = Inr u \<and> locks u = locks s
    \<and> IF (cpus u c) = IF (cpus s c) \<and> ncli (cpus u c) = ncli (cpus s c)"
proof -
  let ?t = "acquire_record c l (snd (lock_xchg l (pushcli c s)))"
  have aq: "acquire c l s = Inr ?t" using acquire_ok [OF assms(1)] l by (simp add: initlock_def)
  have t: "cpus ?t c = push (cpus s c)" "locks ?t = (locks s)(l := \<lparr>sp_locked = True, sp_cpu = Some c\<rparr>)"
    using l by (simp_all add: acquire_record_def lock_xchg_def pushcli_def upd_cpu_def upd_lock_def initlock_def)
  have "1 \<le> ncli (cpus ?t c)" and off: "\<not> IF (cpus ?t c)" and h: "holds_lock c l ?t"
    using assms(1) by (simp_all add: t push_def holds_lock_def)
  note hold = holding_ok [OF this(1) off, of l]
  let ?u = "release_unlock l (upd_lock l (sp_cpu_update (\<lambda>_. None)) ?t)"
  have lu: "locks ?u = locks s" using l by (auto simp: release_unlock_def upd_lock_def t initlock_def fun_eq_iff)
  have cu: "cpus ?u c = push (cpus s c)" by (simp add: release_unlock_def upd_lock_def t)
  have "release c l ?t = popcli c ?u" using hold h by (simp add: release_def release_enter_def)
  also have "\<dots> = Inr (upd_cpu c (\<lambda>_. (cpus s c)\<lparr>intena := (if ncli (cpus s c) = 0 then IF (cpus s c) else intena (cpus s c)),
      IF := IF (cpus s c) \<and> ncli (cpus s c) = 0\<rparr>) ?u)"
    unfolding popcli_def cu pop_push [OF assms(1)] by simp
  finally have rl: "release c l ?t = \<dots>" .
  have "IF (cpus s c) \<Longrightarrow> ncli (cpus s c) = 0" using assms(1,3) by linarith
  with aq h off rl lu show ?thesis by (auto simp: upd_cpu_def)
qed


section \<open>Several processors\<close>

text \<open>
  Where a processor is in \<open>acquire\<close> or \<open>release\<close>. \<open>inside\<close> is a ghost set: the locks between the end of
  \<open>acquire\<close> and the start of \<open>release\<close>. \<open>pushes\<close> counts the calls of \<open>pushcli\<close> outside the lock functions.
\<close>

datatype pc = Away | Spinning nat | Taken nat | Dropping nat | Unlocked

record sys =
  smp :: smp
  pcs :: "nat \<Rightarrow> pc"
  inside :: "nat \<Rightarrow> nat set"
  pushes :: "nat \<Rightarrow> nat"

definition sys_init :: sys where
  "sys_init = \<lparr>smp = \<lparr>cpus = (\<lambda>_. \<lparr>ncli = 0, intena = False, IF = False\<rparr>), locks = (\<lambda>_. initlock)\<rparr>,
     pcs = (\<lambda>_. Away), inside = (\<lambda>_. {}), pushes = (\<lambda>_. 0)\<rparr>"

inductive cpu_step :: "sys \<Rightarrow> sys \<Rightarrow> bool" where
  enter: "pcs s c = Away \<Longrightarrow> acquire_enter c l (smp s) = Inr t \<Longrightarrow>
    cpu_step s (s\<lparr>smp := t, pcs := (pcs s)(c := Spinning l)\<rparr>)"
| spin: "pcs s c = Spinning l \<Longrightarrow> lock_xchg l (smp s) = (True, t) \<Longrightarrow> cpu_step s (s\<lparr>smp := t\<rparr>)"
| take: "pcs s c = Spinning l \<Longrightarrow> lock_xchg l (smp s) = (False, t) \<Longrightarrow>
    cpu_step s (s\<lparr>smp := t, pcs := (pcs s)(c := Taken l)\<rparr>)"
| own: "pcs s c = Taken l \<Longrightarrow>
    cpu_step s (s\<lparr>smp := acquire_record c l (smp s), pcs := (pcs s)(c := Away),
      inside := (inside s)(c := insert l (inside s c))\<rparr>)"
| drop: "pcs s c = Away \<Longrightarrow> release_enter c l (smp s) = Inr t \<Longrightarrow>
    cpu_step s (s\<lparr>smp := t, pcs := (pcs s)(c := Dropping l), inside := (inside s)(c := inside s c - {l})\<rparr>)"
| unlock: "pcs s c = Dropping l \<Longrightarrow>
    cpu_step s (s\<lparr>smp := release_unlock l (smp s), pcs := (pcs s)(c := Unlocked)\<rparr>)"
| leave: "pcs s c = Unlocked \<Longrightarrow> popcli c (smp s) = Inr t \<Longrightarrow>
    cpu_step s (s\<lparr>smp := t, pcs := (pcs s)(c := Away)\<rparr>)"
| push: "pcs s c = Away \<Longrightarrow>
    cpu_step s (s\<lparr>smp := pushcli c (smp s), pushes := (pushes s)(c := Suc (pushes s c))\<rparr>)"
| pop: "pcs s c = Away \<Longrightarrow> 0 < pushes s c \<Longrightarrow> popcli c (smp s) = Inr t \<Longrightarrow>
    cpu_step s (s\<lparr>smp := t, pushes := (pushes s)(c := pushes s c - 1)\<rparr>)"
| sti: "pcs s c = Away \<Longrightarrow> ncli (cpus (smp s) c) = 0 \<Longrightarrow>
    cpu_step s (s\<lparr>smp := upd_cpu c (IF_update (\<lambda>_. True)) (smp s)\<rparr>)"
| cli: "pcs s c = Away \<Longrightarrow> cpu_step s (s\<lparr>smp := upd_cpu c (IF_update (\<lambda>_. False)) (smp s)\<rparr>)"

inductive cpu_reachable :: "sys \<Rightarrow> bool" where
  start: "cpu_reachable sys_init"
| more: "cpu_reachable s \<Longrightarrow> cpu_step s t \<Longrightarrow> cpu_reachable t"

text \<open>The locks a processor has marked as taken, and the calls of \<open>pushcli\<close> it still has to undo.\<close>

definition marked :: "sys \<Rightarrow> nat \<Rightarrow> nat set" where
  "marked s c = inside s c \<union> (case pcs s c of Taken l \<Rightarrow> {l} | Dropping l \<Rightarrow> {l} | _ \<Rightarrow> {})"

definition depth :: "sys \<Rightarrow> nat \<Rightarrow> nat" where
  "depth s c = card (inside s c) + pushes s c + (if pcs s c = Away then 0 else 1)"

definition cpu_inv :: "sys \<Rightarrow> bool" where
  "cpu_inv s \<longleftrightarrow>
    (\<forall>c. finite (inside s c) \<and> ncli (cpus (smp s) c) = int (depth s c) \<and> (0 < depth s c \<longrightarrow> \<not> IF (cpus (smp s) c))) \<and>
    (\<forall>l. sp_locked (locks (smp s) l) \<longleftrightarrow> (\<exists>c. l \<in> marked s c)) \<and>
    (\<forall>c d l. l \<in> marked s c \<longrightarrow> l \<in> marked s d \<longrightarrow> c = d) \<and>
    (\<forall>c l. sp_cpu (locks (smp s) l) = Some c \<longleftrightarrow> l \<in> inside s c) \<and>
    (\<forall>c l. (pcs s c = Taken l \<or> pcs s c = Dropping l) \<longrightarrow> l \<notin> inside s c)"

lemma cpu_inv_init: "cpu_inv sys_init"
  by (simp add: cpu_inv_def sys_init_def marked_def depth_def initlock_def)


lemma cpu_invD:
  assumes "cpu_inv s"
  shows "finite (inside s c)" "ncli (cpus (smp s) c) = int (depth s c)" "0 < depth s c \<Longrightarrow> \<not> IF (cpus (smp s) c)"
    "sp_locked (locks (smp s) l) \<longleftrightarrow> (\<exists>c. l \<in> marked s c)" "l \<in> marked s c \<Longrightarrow> l \<in> marked s d \<Longrightarrow> c = d"
    "sp_cpu (locks (smp s) l) = Some c \<longleftrightarrow> l \<in> inside s c"
    "pcs s c = Taken l \<or> pcs s c = Dropping l \<Longrightarrow> l \<notin> inside s c"
  using assms unfolding cpu_inv_def by blast+

lemma cpu_inv_unowned: "cpu_inv s \<Longrightarrow> (\<And>c. l \<notin> inside s c) \<Longrightarrow> sp_cpu (locks (smp s) l) = None"
  using cpu_invD(6) by (cases "sp_cpu (locks (smp s) l)") auto

text \<open>Steps that change one processor and no lock.\<close>

lemma cpu_inv_local:
  assumes inv: "cpu_inv s" and "locks t = locks (smp s)" and "\<And>d. d \<noteq> c \<Longrightarrow> cpus t d = cpus (smp s) d"
    and u: "smp u = t" "inside u = inside s" "\<And>d. d \<noteq> c \<Longrightarrow> pcs u d = pcs s d \<and> pushes u d = pushes s d"
    and m: "marked u c = marked s c" "\<And>l. pcs u c \<noteq> Taken l \<and> pcs u c \<noteq> Dropping l"
    and n: "ncli (cpus t c) = int (depth u c)" "0 < depth u c \<Longrightarrow> \<not> IF (cpus t c)"
  shows "cpu_inv u"
proof -
  note i = cpu_invD [OF inv]
  have mk: "marked u d = marked s d" for d using m(1) u(2,3) by (cases "d = c") (simp_all add: marked_def)
  have "ncli (cpus t d) = int (depth u d) \<and> (0 < depth u d \<longrightarrow> \<not> IF (cpus t d))" for d
  proof (cases "d = c")
    case False
    then have "depth u d = depth s d" using u(2,3) by (simp add: depth_def)
    then show ?thesis using i(2,3) [of d] assms(3) [OF False] by simp
  qed (use n in simp)
  moreover have "l \<notin> inside u d" if "pcs u d = Taken l \<or> pcs u d = Dropping l" for d l
    using that m(2) u i(7) by (cases "d = c") auto
  ultimately show ?thesis
    unfolding cpu_inv_def u(1,2) mk assms(2) using i by blast
qed

lemma enter_effect:
  assumes "cpu_inv s" and "acquire_enter c l (smp s) = Inr t"
  shows "t = pushcli c (smp s)"
proof -
  have "0 \<le> ncli (cpus (smp s) c)" using cpu_invD(2) [OF assms(1)] by simp
  then have "1 \<le> ncli (cpus (pushcli c (smp s)) c)" "\<not> IF (cpus (pushcli c (smp s)) c)"
    by (simp_all add: pushcli_def upd_cpu_def push_def)
  from holding_ok [OF this, of l] assms(2) show ?thesis by (simp add: acquire_enter_def split: if_splits)
qed

lemma pop_effect:
  assumes "popcli c t = Inr u"
  shows "locks u = locks t" and "d \<noteq> c \<Longrightarrow> cpus u d = cpus t d" and "ncli (cpus u c) = ncli (cpus t c) - 1"
    and "0 < ncli (cpus u c) \<Longrightarrow> \<not> IF (cpus u c)"
  using assms by (auto simp: popcli_def pop_def upd_cpu_def bindE_eq_Inr Let_def split: if_splits)

lemma drop_effect:
  assumes "cpu_inv s" and "release_enter c l (smp s) = Inr t"
  shows "l \<in> inside s c" and "\<And>d. d \<noteq> c \<Longrightarrow> cpus t d = cpus (smp s) d" "ncli (cpus t c) = ncli (cpus (smp s) c)"
    "\<not> IF (cpus t c)" "locks t = (locks (smp s))(l := (locks (smp s) l)\<lparr>sp_cpu := None\<rparr>)"
proof -
  have r: "holds_lock c l (pushcli c (smp s))"
    using assms(2) by (auto simp: release_enter_def holding_def Let_def bindE_eq_Inr split: if_splits)
  then show l: "l \<in> inside s c"
    using cpu_invD(6) [OF assms(1)] by (simp add: holds_lock_def pushcli_def upd_cpu_def)
  have "0 < depth s c" using l cpu_invD(1) [OF assms(1), of c] by (auto simp: depth_def card_gt_0_iff)
  then have n: "1 \<le> ncli (cpus (smp s) c)" "\<not> IF (cpus (smp s) c)" using cpu_invD(2,3) [OF assms(1), of c] by auto
  from holding_ok [OF this, of l] assms(2) have "t = upd_lock l (sp_cpu_update (\<lambda>_. None)) (smp s)"
    by (simp add: release_enter_def split: if_splits)
  then show "\<And>d. d \<noteq> c \<Longrightarrow> cpus t d = cpus (smp s) d" "ncli (cpus t c) = ncli (cpus (smp s) c)"
    "\<not> IF (cpus t c)" "locks t = (locks (smp s))(l := (locks (smp s) l)\<lparr>sp_cpu := None\<rparr>)"
    using n by (simp_all add: upd_lock_def)
qed

text \<open>Steps that change one lock, on behalf of the processor \<open>c\<close>.\<close>

lemma cpu_inv_lock:
  assumes inv: "cpu_inv s" and cp: "\<And>d. ncli (cpus t d) = ncli (cpus (smp s) d) \<and> (IF (cpus t d) \<longrightarrow> IF (cpus (smp s) d))"
    and lk: "\<And>k. k \<noteq> l \<Longrightarrow> locks t k = locks (smp s) k"
    and u: "smp u = t" "\<And>d. d \<noteq> c \<Longrightarrow> inside u d = inside s d \<and> pcs u d = pcs s d" "pushes u = pushes s"
    and free: "\<And>d. d \<noteq> c \<Longrightarrow> l \<notin> marked s d"
    and d: "depth u c = depth s c" "finite (inside u c)"
    and m: "marked u c - {l} = marked s c - {l}" "inside u c - {l} = inside s c - {l}"
    and l: "sp_locked (locks t l) \<longleftrightarrow> l \<in> marked u c"
      "sp_cpu (locks t l) = (if l \<in> inside u c then Some c else None)"
    and p: "\<And>k. pcs u c = Taken k \<or> pcs u c = Dropping k \<Longrightarrow> k \<notin> inside u c"
  shows "cpu_inv u"
proof -
  note i = cpu_invD [OF inv]
  have mk: "marked u e = marked s e" if "e \<noteq> c" for e using u(2) [OF that] by (simp add: marked_def)
  have de: "depth u e = depth s e" for e using d(1) u(2) [of e] u(3) by (cases "e = c") (simp_all add: depth_def)
  have "ncli (cpus t e) = int (depth u e) \<and> (0 < depth u e \<longrightarrow> \<not> IF (cpus t e))" for e
    using i(2,3) [of e] cp [of e] de [of e] by auto
  moreover have "finite (inside u e)" for e using d(2) i(1) u(2) by (cases "e = c") auto
  moreover have "sp_locked (locks t k) \<longleftrightarrow> (\<exists>e. k \<in> marked u e)" for k
  proof (cases "k = l")
    case True
    then show ?thesis using l(1) free mk by (metis)
  next
    case False
    then have "k \<in> marked u e \<longleftrightarrow> k \<in> marked s e" for e using mk m(1) by (cases "e = c") auto
    then show ?thesis using i(4) [of k] lk [OF False] by simp
  qed
  moreover have "e = f" if "k \<in> marked u e" "k \<in> marked u f" for e f k
  proof (cases "k = l")
    case True
    then show ?thesis using that free mk by metis
  next
    case False
    then have "k \<in> marked u e \<longleftrightarrow> k \<in> marked s e" for e using mk m(1) by (cases "e = c") auto
    then show ?thesis using that i(5) by blast
  qed
  moreover have "sp_cpu (locks t k) = Some e \<longleftrightarrow> k \<in> inside u e" for e k
  proof (cases "k = l")
    case True
    have "l \<notin> inside u e" if "e \<noteq> c" using free [OF that] u(2) [OF that] by (auto simp: marked_def)
    then show ?thesis using True l(2) by auto
  next
    case False
    then have "k \<in> inside u e \<longleftrightarrow> k \<in> inside s e" using u(2) m(2) by (cases "e = c") auto
    then show ?thesis using i(6) [of k e] lk [OF False] by simp
  qed
  moreover have "k \<notin> inside u e" if "pcs u e = Taken k \<or> pcs u e = Dropping k" for e k
    using that p i(7) u(2) by (cases "e = c") auto
  ultimately show ?thesis unfolding cpu_inv_def u(1) by blast
qed

lemma cpu_step_inv: "cpu_step s u \<Longrightarrow> cpu_inv s \<Longrightarrow> cpu_inv u"
proof (induction rule: cpu_step.induct)
  case (enter s c l t)
  note i = cpu_invD [OF enter(3)]
  note t = enter_effect [OF enter(3,2)]
  show ?case
    by (rule cpu_inv_local [OF enter(3), where c = c and t = t])
      (use enter(1) i(2) [of c] in \<open>auto simp: t pushcli_def upd_cpu_def push_def marked_def depth_def\<close>)
next
  case (spin s c l t)
  then have "t = smp s" by (auto simp: lock_xchg_def upd_lock_def fun_eq_iff intro!: smp.equality)
  then show ?case using spin by simp
next
  case (take s c l t)
  note i = cpu_invD [OF take(3)]
  have f: "\<not> sp_locked (locks (smp s) l)" and t: "t = upd_lock l (sp_locked_update (\<lambda>_. True)) (smp s)"
    using take(2) by (auto simp: lock_xchg_def)
  have free: "l \<notin> marked s d" for d using f i(4) by blast
  then have n: "l \<notin> inside s d" for d by (auto simp: marked_def)
  note none = cpu_inv_unowned [OF take(3) n]
  show ?case
    by (rule cpu_inv_lock [OF take(3), where c = c and t = t and l = l])
      (use take(1) free n none i in \<open>auto simp: t upd_lock_def marked_def depth_def\<close>)
next
  case (own s c l)
  note i = cpu_invD [OF own(2)]
  have m: "l \<in> marked s c" "l \<notin> inside s c" using own(1) i(7) by (auto simp: marked_def)
  then have free: "l \<notin> marked s d" if "d \<noteq> c" for d using that i(5) by blast
  have "sp_locked (locks (smp s) l)" using m(1) i(4) by blast
  then show ?case
    by (intro cpu_inv_lock [OF own(2), where c = c and t = "acquire_record c l (smp s)" and l = l])
      (use own(1) free m i in \<open>auto simp: acquire_record_def upd_lock_def marked_def depth_def\<close>)
next
  case (drop s c l t)
  note i = cpu_invD [OF drop(3)]
  note t = drop_effect [OF drop(3,2)]
  have m: "l \<in> marked s c" using t(1) by (simp add: marked_def)
  then have free: "l \<notin> marked s d" if "d \<noteq> c" for d using that i(5) by blast
  have lk: "sp_locked (locks (smp s) l)" using m i(4) by blast
  have cp: "ncli (cpus t d) = ncli (cpus (smp s) d) \<and> (IF (cpus t d) \<longrightarrow> IF (cpus (smp s) d))" for d
    using t(2-4) by (cases "d = c") simp_all
  have "Suc (card (inside s c - {l})) = card (inside s c)"
    using card_Suc_Diff1 [OF i(1) t(1)] by simp
  then show ?case
    by (intro cpu_inv_lock [OF drop(3) cp, where c = c and l = l])
      (use drop(1) free t(1) lk i(1) [of c] in \<open>auto simp: t(5) marked_def depth_def\<close>)
next
  case (unlock s c l)
  note i = cpu_invD [OF unlock(2)]
  have m: "l \<in> marked s c" "l \<notin> inside s c" using unlock(1) i(7) by (auto simp: marked_def)
  then have free: "l \<notin> marked s d" if "d \<noteq> c" for d using that i(5) by blast
  have "l \<notin> inside s d" for d using m(2) free [of d] by (cases "d = c") (auto simp: marked_def)
  then have "sp_cpu (locks (smp s) l) = None" by (rule cpu_inv_unowned [OF unlock(2)])
  then show ?case
    by (intro cpu_inv_lock [OF unlock(2), where c = c and t = "release_unlock l (smp s)" and l = l])
      (use unlock(1) free m i in \<open>auto simp: release_unlock_def upd_lock_def marked_def depth_def\<close>)
next
  case (leave s c t)
  note i = cpu_invD [OF leave(3)]
  note t = pop_effect [OF leave(2)]
  show ?case
    by (rule cpu_inv_local [OF leave(3), where c = c and t = t])
      (use leave(1) i(2) [of c] t in \<open>auto simp: marked_def depth_def\<close>)
next
  case (push s c)
  note i = cpu_invD [OF push(2)]
  show ?case
    by (rule cpu_inv_local [OF push(2), where c = c and t = "pushcli c (smp s)"])
      (use push(1) i(2) [of c] in \<open>auto simp: pushcli_def upd_cpu_def Spinlock.push_def marked_def depth_def\<close>)
next
  case (pop s c t)
  note i = cpu_invD [OF pop(4)]
  note t = pop_effect [OF pop(3)]
  show ?case
    by (rule cpu_inv_local [OF pop(4), where c = c and t = t])
      (use pop(1,2) i(2) [of c] t in \<open>auto simp: marked_def depth_def\<close>)
next
  case (sti s c)
  note i = cpu_invD [OF sti(3)]
  show ?case
    by (rule cpu_inv_local [OF sti(3), where c = c and t = "upd_cpu c (IF_update (\<lambda>_. True)) (smp s)"])
      (use sti(1,2) i(2) [of c] in \<open>auto simp: upd_cpu_def marked_def depth_def\<close>)
next
  case (cli s c)
  note i = cpu_invD [OF cli(2)]
  show ?case
    by (rule cpu_inv_local [OF cli(2), where c = c and t = "upd_cpu c (IF_update (\<lambda>_. False)) (smp s)"])
      (use cli(1) i(2) [of c] in \<open>auto simp: upd_cpu_def marked_def depth_def\<close>)
qed

lemma cpu_reachable_inv: "cpu_reachable s \<Longrightarrow> cpu_inv s"
  by (induction rule: cpu_reachable.induct) (auto intro: cpu_inv_init cpu_step_inv)


section \<open>Properties\<close>

text \<open>
  C4. Spin locks on several processors, with the test-and-set, the record of the owner and the clearing of the flag as
  separate steps: two processors are never inside the same lock, and a processor that is inside a lock has its
  interrupts off, owns the lock and has the depth of nested \<open>cli\<close> that matches its locks.
\<close>

theorem spinlock_mutex:
  assumes "cpu_reachable s" and "l \<in> inside s c"
  shows "(l \<in> inside s d \<longrightarrow> c = d) \<and> \<not> IF (cpus (smp s) c) \<and> holds_lock c l (smp s)
    \<and> int (card (inside s c)) \<le> ncli (cpus (smp s) c)"
proof -
  note i = cpu_invD [OF cpu_reachable_inv [OF assms(1)]]
  have m: "l \<in> marked s c" using assms(2) by (simp add: marked_def)
  have "l \<in> inside s d \<Longrightarrow> c = d" using i(5) [OF m] by (simp add: marked_def)
  moreover have "0 < depth s c" using assms(2) i(1) [of c] by (auto simp: depth_def card_gt_0_iff)
  moreover have "holds_lock c l (smp s)" using m i(4,6) assms(2) by (auto simp: holds_lock_def)
  ultimately show ?thesis using i(2,3) [of c] by (auto simp: depth_def)
qed

definition one_inside :: sys where
  "one_inside = \<lparr>smp = \<lparr>cpus = (\<lambda>_. \<lparr>ncli = 0, intena = False, IF = False\<rparr>)(0 := \<lparr>ncli = 1, intena = False, IF = False\<rparr>),
       locks = (\<lambda>_. initlock)(5 := \<lparr>sp_locked = True, sp_cpu = Some 0\<rparr>)\<rparr>,
     pcs = (\<lambda>_. Away)(0 := Away), inside = (\<lambda>_. {})(0 := {5}), pushes = (\<lambda>_. 0)\<rparr>"

lemma one_inside_reachable: "cpu_reachable one_inside"
proof -
  let ?c = "(\<lambda>_. \<lparr>ncli = 0, intena = False, IF = False\<rparr>)(0 := \<lparr>ncli = 1, intena = False, IF = False\<rparr>)"
  let ?a = "sys_init\<lparr>smp := \<lparr>cpus = ?c, locks = (\<lambda>_. initlock)\<rparr>, pcs := (\<lambda>_. Away)(0 := Spinning 5)\<rparr>"
  let ?b = "?a\<lparr>smp := \<lparr>cpus = ?c, locks = (\<lambda>_. initlock)(5 := \<lparr>sp_locked = True, sp_cpu = None\<rparr>)\<rparr>, pcs := (\<lambda>_. Away)(0 := Taken 5)\<rparr>"
  have "acquire_enter 0 5 (smp sys_init) = Inr (smp ?a)"
    by (simp add: acquire_enter_def holding_def popcli_def pop_def pushcli_def upd_cpu_def push_def holds_lock_def
        sys_init_def initlock_def Let_def)
  from cpu_step.enter [OF _ this] have "cpu_step sys_init ?a" by (simp add: sys_init_def)
  then have "cpu_reachable ?a" by (rule cpu_reachable.more [OF cpu_reachable.start])
  moreover have "cpu_step ?a ?b"
    using cpu_step.take [of ?a 0 5 "smp ?b"] by (simp add: lock_xchg_def upd_lock_def initlock_def)
  ultimately have "cpu_reachable ?b" by (rule cpu_reachable.more)
  moreover have "cpu_step ?b one_inside"
    using cpu_step.own [of ?b 0 5]
    by (simp add: acquire_record_def upd_lock_def one_inside_def sys_init_def)
  ultimately show ?thesis by (rule cpu_reachable.more)
qed

theorem spinlock_mutex_witness:
  "cpu_reachable one_inside \<and> 5 \<in> inside one_inside 0 \<and> 5 \<notin> inside one_inside 1 \<and> \<not> IF (cpus (smp one_inside) 0)"
proof -
  have "5 \<in> inside one_inside 0" by (simp add: one_inside_def)
  from spinlock_mutex [OF one_inside_reachable this, of 1] this show ?thesis
    using one_inside_reachable by auto
qed

text \<open>
  On a free lock, \<open>acquire\<close> succeeds and \<open>release\<close> brings back the lock, the interrupt flag and the depth of
  nested \<open>cli\<close> as they were.
\<close>

lemma acquire_release_restores:
  assumes "0 \<le> ncli (cpus s c)" and "locks s l = initlock" and "0 < ncli (cpus s c) \<longrightarrow> \<not> IF (cpus s c)"
  shows "\<exists>t u. acquire c l s = Inr t \<and> holds_lock c l t \<and> \<not> IF (cpus t c) \<and> release c l t = Inr u \<and> locks u = locks s
    \<and> IF (cpus u c) = IF (cpus s c) \<and> ncli (cpus u c) = ncli (cpus s c)"
  using acquire_release [OF assms(1,2)] assms(3) by blast

end
