(* ===== verification/Ulib.thy ===== *)
theory Ulib
  imports Console
begin

text \<open>
  The user library: the string routines of \<^verbatim>\<open>ulib.c\<close> and \<open>printf\<close> of \<^verbatim>\<open>printf.c\<close>. C strings are byte lists as in
  \<^verbatim>\<open>Strings\<close>; input is the list of the bytes that \<open>read\<close> will return, output the list of the bytes written. Names that
  the kernel's library has too carry the suffix \<open>_u\<close>.
\<close>

section \<open>ulib.c\<close>

text \<open>The bytes that \<open>strcpy(s, t)\<close> stores from \<open>s\<close> on.\<close>

fun strcpy :: "uchar list \<Rightarrow> uchar list" where
  "strcpy [] = [0]"
| "strcpy (c # t) = c # (if c \<noteq> 0 then strcpy t else [])"

fun strcmp :: "uchar list \<Rightarrow> uchar list \<Rightarrow> int" where
  "strcmp [] q = - Word.uint (hd0 q)"
| "strcmp (c # p) q = (if c \<noteq> 0 \<and> c = hd0 q then strcmp p (tl q) else Word.uint c - Word.uint (hd0 q))"

fun strlen_u :: "uchar list \<Rightarrow> nat" where
  "strlen_u [] = 0"
| "strlen_u (c # s) = (if c \<noteq> 0 then Suc (strlen_u s) else 0)"

definition memset_u :: "memory \<Rightarrow> uint \<Rightarrow> uint \<Rightarrow> uint \<Rightarrow> memory" where
  "memset_u m dst c n = stosb m dst (ucast c) (unat n)"

text \<open>The rest of the string from the first \<open>c\<close> on; the terminating zero is never found.\<close>

fun strchr :: "uchar list \<Rightarrow> uchar \<Rightarrow> uchar list option" where
  "strchr [] c = None"
| "strchr (d # s) c = (if d = 0 then None else if d = c then Some (d # s) else strchr s c)"

text \<open>The bytes \<open>gets\<close> stores before the terminating zero, and the input that is left.\<close>

fun gets_loop :: "nat \<Rightarrow> uchar list \<Rightarrow> uchar list \<times> uchar list" where
  "gets_loop 0 inp = ([], inp)"
| "gets_loop (Suc n) [] = ([], [])"
| "gets_loop (Suc n) (c # inp) =
    (if c = 10 \<or> c = 13 then ([c], inp) else case gets_loop n inp of (cs, inp) \<Rightarrow> (c # cs, inp))"

definition gets :: "int \<Rightarrow> uchar list \<Rightarrow> uchar list \<times> uchar list" where
  "gets mx inp = (case gets_loop (nat (mx - 1)) inp of (cs, inp) \<Rightarrow> (cs @ [0], inp))"

fun atoi_loop :: "uchar list \<Rightarrow> uint \<Rightarrow> uint" where
  "atoi_loop [] n = n"
| "atoi_loop (c # s) n = (if 48 \<le> c \<and> c \<le> 57 then atoi_loop s (n * 10 + ucast c - 48) else n)"

definition atoi :: "uchar list \<Rightarrow> uint" where
  "atoi s = atoi_loop s 0"

text \<open>A copy in increasing order of addresses, whatever the overlap.\<close>

definition memmove_u :: "memory \<Rightarrow> uint \<Rightarrow> uint \<Rightarrow> int \<Rightarrow> memory" where
  "memmove_u m dst src n = copy_forward m dst src (nat n)"


section \<open>printf.c\<close>

definition digit_u :: "uint \<Rightarrow> uchar" where
  "digit_u x = (if x < 10 then 48 + ucast x else 55 + ucast x)"

fun printint_u_digits :: "nat \<Rightarrow> uint \<Rightarrow> uint \<Rightarrow> uchar list option" where
  "printint_u_digits 0 x base = None"
| "printint_u_digits (Suc n) x base =
    (if x div base \<noteq> 0
     then map_option (\<lambda>ds. digit_u (x mod base) # ds) (printint_u_digits n (x div base) base)
     else Some [digit_u (x mod base)])"

definition printint_u :: "uint \<Rightarrow> uint \<Rightarrow> bool \<Rightarrow> kerror + uchar list" where
  "printint_u xx base sg =
    (let neg = sg \<and> sint xx < 0; x = if neg then - xx else xx in
     case printint_u_digits 16 x base of None \<Rightarrow> Inl (Fault ''printint buf'')
     | Some ds \<Rightarrow> Inr (rev (if neg then ds @ [45] else ds)))"

text \<open>
  \<open>printf\<close> without its first argument: the bytes that go to the file. \<open>args\<close> are the words on the stack and \<open>str\<close> the string at an
  address; after a last \<open>%\<close> nothing is printed.
\<close>

fun printf :: "(uint \<Rightarrow> uchar list) \<Rightarrow> uchar list \<Rightarrow> uint list \<Rightarrow> kerror + uchar list" where
  "printf str [] args = Inr []"
| "printf str (c # fmt) args =
    (if c = 0 then Inr []
     else if c \<noteq> 37 then bindE (printf str fmt args) (\<lambda>out. Inr (c # out))
     else case fmt of
       [] \<Rightarrow> Inr []
     | c # fmt \<Rightarrow>
       if c = 0 then Inr []
       else if c = 100 \<or> c = 120 \<or> c = 112 \<or> c = 115 \<or> c = 99 then
         (case args of
            [] \<Rightarrow> Inl (Fault ''printf args'')
          | a # args \<Rightarrow>
            bindE (if c = 100 then printint_u a 10 True
                   else if c = 120 \<or> c = 112 then printint_u a 16 False
                   else if c = 115 then Inr (if a = 0 then bytes ''(null)'' else cstr (str a))
                   else Inr [ucast a]) (\<lambda>o1.
            bindE (printf str fmt args) (\<lambda>o2. Inr (o1 @ o2))))
       else bindE (printf str fmt args) (\<lambda>out. Inr (if c = 37 then 37 # out else 37 # c # out)))"


section \<open>Lemmas\<close>

lemma strcpy_cstr: "strcpy t = cstr t @ [0]"
  by (induction t) simp_all

lemma strlen_u_cstr: "strlen_u s = length (cstr s)"
  by (induction s) simp_all

lemma strcmp_zero: "strcmp p q = 0 \<longleftrightarrow> cstr p = cstr q"
proof (induction p q rule: strcmp.induct)
  case (1 q)
  then show ?case by (cases q) (auto simp: cstr_def uint_0_iff)
next
  case (2 c p q)
  then show ?case by (cases q) (auto simp: uint_0_iff simp flip: word_uint_eq_iff)
qed

lemma strchr_Some:
  "strchr s c = Some r \<Longrightarrow> \<exists>p. s = p @ r \<and> c \<notin> set p \<and> 0 \<notin> set p \<and> hd r = c \<and> r \<noteq> []"
proof (induction s)
  case (Cons d s)
  show ?case
  proof (cases "d = c \<or> d = 0")
    case True
    then show ?thesis using Cons.prems by (auto split: if_splits)
  next
    case False
    then obtain p where "s = p @ r" "c \<notin> set p" "0 \<notin> set p" "hd r = c" "r \<noteq> []" using Cons by auto
    then show ?thesis using False by (intro exI [of _ "d # p"]) auto
  qed
qed simp

lemma strchr_None: "strchr s c = None \<longleftrightarrow> c \<notin> set (cstr s)"
  by (induction s) auto

lemma gets_loop_splits: "gets_loop n inp = (cs, rest) \<Longrightarrow> inp = cs @ rest \<and> length cs \<le> n \<and> 10 \<notin> set (butlast cs) \<and> 13 \<notin> set (butlast cs)"
  by (induction n inp arbitrary: cs rule: gets_loop.induct) (auto split: if_splits prod.splits)

text \<open>Reading back a number that \<open>printf\<close> has printed.\<close>

lemma digit_u_digit: "x < 10 \<Longrightarrow> digit_u x = digit x"
  by (simp add: digit_u_def digit_def)

lemma printint_u_decimal: "printint_u_digits n x 10 = printint_digits n x 10"
proof (induction n arbitrary: x)
  case (Suc n)
  have "x mod 10 < 10" by (simp add: word_less_nat_alt unat_mod_distrib)
  then show ?case using Suc by (simp add: digit_u_digit)
qed simp

lemma atoi_loop_digits:
  "(\<And>c. c \<in> set cs \<Longrightarrow> 48 \<le> c \<and> c \<le> 57) \<Longrightarrow> atoi_loop cs n = n * 10 ^ length cs + of_nat (digits_value 10 (rev cs))"
proof (induction cs arbitrary: n)
  case (Cons c cs)
  have c: "48 \<le> c" "c \<le> 57" using Cons.prems by auto
  then have "digit_value c = unat c - 48" by (simp add: digit_value_def word_le_nat_alt word_less_nat_alt)
  then have "of_nat (digit_value c) = (ucast c - 48 :: uint)" using c(1) by (simp add: of_nat_diff word_le_nat_alt)
  moreover have "digits_value 10 (rev cs @ [c]) = digits_value 10 (rev cs) + 10 ^ length cs * digit_value c"
  proof -
    have "foldr (\<lambda>c v. digit_value c + 10 * v) ds w = foldr (\<lambda>c v. digit_value c + 10 * v) ds 0 + 10 ^ length ds * w" for ds w
      by (induction ds) (simp_all add: algebra_simps)
    from this [of "rev cs" "digit_value c"] show ?thesis by (simp add: digits_value_def)
  qed
  moreover from calculation(1) have "atoi_loop (c # cs) n = atoi_loop cs (n * 10 + of_nat (digit_value c))" using c by (simp add: add_diff_eq)
  ultimately show ?case using Cons.IH [of "n * 10 + of_nat (digit_value c)"] Cons.prems by (simp add: algebra_simps)
qed (simp add: digits_value_def)

lemma digit_range: "x < 10 \<Longrightarrow> 48 \<le> digit x \<and> digit x \<le> 57"
proof -
  assume "x < 10"
  then have "unat x \<in> set [0..<10]" by (simp add: word_less_nat_alt)
  moreover have "\<forall>k \<in> set [0..<10]. 48 \<le> digit (of_nat k) \<and> digit (of_nat k) \<le> 57" by code_simp
  ultimately have "48 \<le> digit (of_nat (unat x)) \<and> digit (of_nat (unat x)) \<le> 57" by blast
  then show ?thesis by simp
qed

lemma printint_digits_range: "printint_digits n x 10 = Some ds \<Longrightarrow> c \<in> set ds \<Longrightarrow> 48 \<le> c \<and> c \<le> 57"
proof (induction n arbitrary: x ds)
  case (Suc n)
  have "x mod 10 < 10" by (simp add: word_less_nat_alt unat_mod_distrib)
  then show ?case using Suc digit_range [of "x mod 10"] by (auto split: if_splits)
qed simp

lemma atoi_printf_ok:
  assumes "0 \<le> sint x"
  shows "\<exists>out. printf str [37, 100] [x] = Inr out \<and> atoi out = x"
proof -
  have "unat x < 10 ^ 16" using unat_uint_less [of x] by (rule less_trans) simp
  from printint_digits_value [of 10, OF _ _ this] obtain ds where
    ds: "printint_digits 16 x 10 = Some ds" "digits_value 10 ds = unat x" by auto
  have "atoi (rev ds) = x" unfolding atoi_def
    using atoi_loop_digits [of "rev ds" 0] printint_digits_range [OF ds(1)] ds(2) by simp
  then show ?thesis using ds assms by (simp add: printint_u_def printint_u_decimal Let_def)
qed

text \<open>
  C38. \<open>atoi\<close> reads back every number that \<open>printf\<close> with the format \<open>%d\<close> prints for an \<open>int\<close> that is not negative.
\<close>

theorem atoi_printf:
  assumes "0 \<le> sint x"
  shows "\<exists>out. printf str [37, 100] [x] = Inr out \<and> atoi out = x"
  using assms by (rule atoi_printf_ok)

theorem atoi_printf_witness: "\<exists>out. printf (\<lambda>_. []) [37, 100] [0x7FFFFFFF] = Inr out \<and> atoi out = 0x7FFFFFFF"
  by (rule atoi_printf) simp

end
