(* ===== verification/Grep.thy ===== *)
theory Grep
  imports Ulib
begin

text \<open>
  \<^verbatim>\<open>grep.c\<close>: the matcher for patterns with \<open>^ . * $\<close>, and the loop that reads a file in pieces and prints the lines that
  match. The matcher is shown to decide the language of the pattern, and the loop, with its buffer of 1024 bytes, to print the lines
  that match where the reads bring newlines, and to lose parts of lines where they do not.
\<close>

section \<open>The matcher\<close>

text \<open>Both functions walk over byte lists; \<open>hd0\<close> gives the terminating zero at the end.\<close>

lemma length_tl_hd0: "hd0 s \<noteq> 0 \<Longrightarrow> length (tl s) < length s"
  by (cases s) auto

function matchhere :: "uchar list \<Rightarrow> uchar list \<Rightarrow> bool"
  and matchstar :: "uchar \<Rightarrow> uchar list \<Rightarrow> uchar list \<Rightarrow> bool" where
  "matchhere re tx =
    (if hd0 re = 0 then True
     else if hd0 (tl re) = 42 then matchstar (hd0 re) (tl (tl re)) tx
     else if hd0 re = 36 \<and> hd0 (tl re) = 0 then hd0 tx = 0
     else if hd0 tx \<noteq> 0 \<and> (hd0 re = 46 \<or> hd0 re = hd0 tx) then matchhere (tl re) (tl tx)
     else False)"
| "matchstar c re tx =
    (if matchhere re tx then True
     else if hd0 tx \<noteq> 0 \<and> (hd0 tx = c \<or> c = 46) then matchstar c re (tl tx)
     else False)"
  by pat_completeness auto

termination
proof (relation "inv_image (less_than <*lex*> less_than <*lex*> less_than)
    (\<lambda>x. case x of Inl (re, tx) \<Rightarrow> (length re, length tx, 0) | Inr (c, re, tx) \<Rightarrow> (length re, length tx, 1 :: nat))", goal_cases)
  case (2 re tx)
  then show ?case using length_tl_hd0 [of re] by auto
next
  case (3 re tx)
  then show ?case using length_tl_hd0 [of re] by auto
next
  case (5 c re tx)
  then show ?case using length_tl_hd0 [of tx] by auto
qed auto

declare matchhere.simps [simp del] matchstar.simps [simp del]

fun match_loop :: "uchar list \<Rightarrow> uchar list \<Rightarrow> bool" where
  "match_loop re [] = matchhere re []"
| "match_loop re (c # tx) = (if matchhere re (c # tx) then True else if c \<noteq> 0 then match_loop re tx else False)"

definition match :: "uchar list \<Rightarrow> uchar list \<Rightarrow> bool" where
  "match re tx = (if hd0 re = 94 then matchhere (tl re) tx else match_loop re tx)"


section \<open>Reading a file\<close>

text \<open>The lines of the buffer that are complete: those that match, with their newlines, and the rest of the buffer.\<close>

function grep_lines :: "uchar list \<Rightarrow> uchar list \<Rightarrow> uchar list \<times> uchar list" where
  "grep_lines pattern p =
    (case strchr p 10 of
       None \<Rightarrow> ([], p)
     | Some q \<Rightarrow>
       let line = take (length p - length q) p; (out, rest) = grep_lines pattern (tl q)
       in (if match pattern line then line @ 10 # out else out, rest))"
  by auto
termination
proof (relation "measure (\<lambda>(_, p). length p)", goal_cases)
  case (2 pattern p q)
  then obtain r where "p = r @ q" "q \<noteq> []" using strchr_Some by metis
  then show ?case by (cases q) auto
qed simp

declare grep_lines.simps [simp del]

text \<open>
  The input comes in pieces, as the writes into a pipe or the lines of a terminal; a file is one piece. A call of \<open>read\<close> returns at
  most as many bytes as it is asked for, all of the same piece, and leaves the rest for the next call.
\<close>

fun read_piece :: "nat \<Rightarrow> uchar list list \<Rightarrow> uchar list \<times> uchar list list" where
  "read_piece n [] = ([], [])"
| "read_piece n (c # cs) = (take n c, if length c \<le> n then cs else drop n c # cs)"

lemma read_piece_shorter:
  "read_piece n cs = (c, cs') \<Longrightarrow> c \<noteq> [] \<Longrightarrow> sum_list (map length cs') < sum_list (map length cs)"
  by (cases cs) (auto split: if_splits)

text \<open>\<open>rest\<close> are the \<open>m\<close> bytes kept at the start of \<open>buf\<close>, which has 1024 bytes, one of them for the terminating zero.\<close>

function grep_loop :: "uchar list \<Rightarrow> uchar list \<Rightarrow> uchar list list \<Rightarrow> uchar list" where
  "grep_loop pattern rest input =
    (let (chunk, input) = read_piece (1024 - length rest - 1) input in
     if chunk = [] then []
     else
       let buf = rest @ chunk; (out, p) = grep_lines pattern buf;
           rest = (if length p = length buf then [] else p)
       in out @ grep_loop pattern rest input)"
  by auto
termination
  by (relation "measure (\<lambda>(_, _, input). sum_list (map length input))") (auto intro: read_piece_shorter [OF sym])

declare grep_loop.simps [simp del]

definition grep :: "uchar list \<Rightarrow> uchar list list \<Rightarrow> uchar list" where
  "grep pattern input = grep_loop pattern [] input"


section \<open>The language of a pattern\<close>

text \<open>A pattern is a list of characters, each perhaps starred, and a mark whether it must reach the end of the text.\<close>

fun parse_re :: "uchar list \<Rightarrow> (uchar \<times> bool) list \<times> bool" where
  "parse_re [] = ([], False)"
| "parse_re (c # re) =
    (if hd0 re = 42 then (case parse_re (tl re) of (as, e) \<Rightarrow> ((c, True) # as, e))
     else if c = 36 \<and> re = [] then ([], True)
     else (case parse_re re of (as, e) \<Rightarrow> ((c, False) # as, e)))"

inductive denotes :: "(uchar \<times> bool) list \<Rightarrow> uchar list \<Rightarrow> bool" where
  empty: "denotes [] []"
| one: "c = 46 \<or> c = d \<Longrightarrow> denotes as w \<Longrightarrow> denotes ((c, False) # as) (d # w)"
| none: "denotes as w \<Longrightarrow> denotes ((c, True) # as) w"
| again: "c = 46 \<or> c = d \<Longrightarrow> denotes ((c, True) # as) w \<Longrightarrow> denotes ((c, True) # as) (d # w)"

inductive_cases denotes_NilE: "denotes [] w"
inductive_cases denotes_oneE: "denotes ((c, False) # as) w"
inductive_cases denotes_starE: "denotes ((c, True) # as) w"

code_pred denotes .

text \<open>A match of the atoms at the start of the text.\<close>

definition at_start :: "(uchar \<times> bool) list \<times> bool \<Rightarrow> uchar list \<Rightarrow> bool" where
  "at_start a tx \<longleftrightarrow> (\<exists>u v. tx = u @ v \<and> denotes (fst a) u \<and> (snd a \<longrightarrow> v = []))"

lemma at_startI: "denotes as u \<Longrightarrow> (e \<Longrightarrow> v = []) \<Longrightarrow> at_start (as, e) (u @ v)"
  by (auto simp: at_start_def)

lemma at_start_all: "denotes as u \<Longrightarrow> at_start (as, e) u"
  using at_startI [of as u e "[]"] by simp

lemma at_startE:
  assumes "at_start (as, e) tx"
  obtains u v where "tx = u @ v" "denotes as u" "e \<Longrightarrow> v = []"
  using assms by (auto simp: at_start_def)

lemma at_start_Nil: "at_start ([], e) tx \<longleftrightarrow> (e \<longrightarrow> tx = [])"
  by (auto simp: at_start_def intro: denotes.empty elim: denotes_NilE)

lemma at_start_one: "at_start ((c, False) # as, e) tx \<longleftrightarrow> tx \<noteq> [] \<and> (c = 46 \<or> c = hd tx) \<and> at_start (as, e) (tl tx)"
proof
  assume "at_start ((c, False) # as, e) tx"
  then show "tx \<noteq> [] \<and> (c = 46 \<or> c = hd tx) \<and> at_start (as, e) (tl tx)"
    by (auto elim!: at_startE denotes_oneE intro: at_startI at_start_all)
next
  assume a: "tx \<noteq> [] \<and> (c = 46 \<or> c = hd tx) \<and> at_start (as, e) (tl tx)"
  then obtain u v where u: "tl tx = u @ v" "denotes as u" "e \<Longrightarrow> v = []" by (blast elim: at_startE)
  have "denotes ((c, False) # as) (hd tx # u)" using a u(2) by (blast intro: denotes.one)
  from at_startI [OF this u(3)] show "at_start ((c, False) # as, e) tx" using a u(1) by (cases tx) simp_all
qed

lemma at_start_star:
  "at_start ((c, True) # as, e) tx \<longleftrightarrow> at_start (as, e) tx \<or> tx \<noteq> [] \<and> (c = 46 \<or> c = hd tx) \<and> at_start ((c, True) # as, e) (tl tx)"
proof
  assume "at_start ((c, True) # as, e) tx"
  then obtain u v where u: "tx = u @ v" "denotes ((c, True) # as) u" "e \<Longrightarrow> v = []" by (blast elim: at_startE)
  consider "denotes as u" | d w where "u = d # w" "c = 46 \<or> c = d" "denotes ((c, True) # as) w"
    using u(2) by (blast elim: denotes_starE)
  then show "at_start (as, e) tx \<or> tx \<noteq> [] \<and> (c = 46 \<or> c = hd tx) \<and> at_start ((c, True) # as, e) (tl tx)"
  proof cases
    case 1
    then show ?thesis using u(1) at_startI [OF 1 u(3)] by simp
  next
    case (2 d w)
    from at_startI [OF 2(3) u(3)] show ?thesis using u(1) 2 by auto
  qed
next
  assume "at_start (as, e) tx \<or> tx \<noteq> [] \<and> (c = 46 \<or> c = hd tx) \<and> at_start ((c, True) # as, e) (tl tx)"
  then show "at_start ((c, True) # as, e) tx"
  proof
    assume "at_start (as, e) tx"
    then show ?thesis by (auto elim!: at_startE intro!: at_startI denotes.none)
  next
    assume a: "tx \<noteq> [] \<and> (c = 46 \<or> c = hd tx) \<and> at_start ((c, True) # as, e) (tl tx)"
    then obtain u v where u: "tl tx = u @ v" "denotes ((c, True) # as) u" "e \<Longrightarrow> v = []" by (blast elim: at_startE)
    have "denotes ((c, True) # as) (hd tx # u)" using a u(2) by (blast intro: denotes.again)
    from at_startI [OF this u(3)] show ?thesis using a u(1) by (cases tx) simp_all
  qed
qed

lemma hd0_zero: "0 \<notin> set s \<Longrightarrow> hd0 s = 0 \<longleftrightarrow> s = []"
  by (cases s) auto

lemma zero_tl: "0 \<notin> set s \<Longrightarrow> 0 \<notin> set (tl s)"
  by (cases s) auto

lemma match_at_start:
  "0 \<notin> set re \<Longrightarrow> 0 \<notin> set tx \<Longrightarrow> matchhere re tx \<longleftrightarrow> at_start (parse_re re) tx"
  "0 \<notin> set re \<Longrightarrow> 0 \<notin> set tx \<Longrightarrow> matchstar c re tx \<longleftrightarrow> at_start ((c, True) # fst (parse_re re), snd (parse_re re)) tx"
proof (induction re tx and c re tx rule: matchhere_matchstar.induct)
  case (1 re tx)
  show ?case
  proof (cases re)
    case (Cons c r)
    have z: "c \<noteq> 0" "0 \<notin> set r" "0 \<notin> set (tl r)" "0 \<notin> set (tl tx)" using 1(3,4) Cons zero_tl by auto
    show ?thesis
    proof (cases "hd0 r = 42")
      case True
      then show ?thesis using 1(1) Cons z 1(4) by (subst matchhere.simps) (simp add: split_beta)
    next
      case star: False
      show ?thesis
      proof (cases "c = 36 \<and> r = []")
        case True
        then show ?thesis using Cons star hd0_zero [OF 1(4)] by (subst matchhere.simps) (auto simp: at_start_Nil)
      next
        case False
        then have "matchhere re tx \<longleftrightarrow> hd0 tx \<noteq> 0 \<and> (c = 46 \<or> c = hd0 tx) \<and> matchhere r (tl tx)"
          using Cons star z hd0_zero [of r] by (subst matchhere.simps) auto
        moreover have "matchhere r (tl tx) \<longleftrightarrow> at_start (parse_re r) (tl tx)" if "hd0 tx \<noteq> 0" "c = 46 \<or> c = hd0 tx"
          using 1(2) Cons star False z that hd0_zero [of r] by auto
        moreover have "hd0 tx = hd tx" if "tx \<noteq> []" using that by (cases tx) auto
        ultimately show ?thesis using Cons star False hd0_zero [OF 1(4)] by (auto simp: at_start_one split_beta)
      qed
    qed
  qed (subst matchhere.simps, simp add: at_start_Nil)
next
  case (2 c re tx)
  have "hd0 tx = hd tx" if "tx \<noteq> []" using that by (cases tx) auto
  then show ?case using 2 hd0_zero [OF 2(4)] zero_tl [OF 2(4)]
    by (subst matchstar.simps, subst at_start_star) auto
qed


lemma match_loop_search:
  "0 \<notin> set re \<Longrightarrow> 0 \<notin> set tx \<Longrightarrow> match_loop re tx \<longleftrightarrow> (\<exists>p q. tx = p @ q \<and> at_start (parse_re re) q)"
proof (induction tx)
  case (Cons c tx)
  have "(\<exists>p q. c # tx = p @ q \<and> P q) \<longleftrightarrow> P (c # tx) \<or> (\<exists>p q. tx = p @ q \<and> P q)" for P
    by (auto simp: Cons_eq_append_conv)
  then show ?case using Cons match_at_start(1) [of re "c # tx"] by auto
qed (simp add: match_at_start)


section \<open>Lines\<close>

text \<open>The complete lines of a text, without their newlines, and what follows the last newline.\<close>

fun split_lines :: "uchar list \<Rightarrow> uchar list list \<times> uchar list" where
  "split_lines [] = ([], [])"
| "split_lines (c # s) =
    (case split_lines s of (ls, r) \<Rightarrow>
       if c = 10 then ([] # ls, r) else case ls of [] \<Rightarrow> ([], c # r) | l # ls \<Rightarrow> ((c # l) # ls, r))"

definition matching :: "uchar list \<Rightarrow> uchar list list \<Rightarrow> uchar list" where
  "matching pattern ls = concat (map (\<lambda>l. l @ [10]) (filter (match pattern) ls))"

lemma split_lines_line: "10 \<notin> set l \<Longrightarrow> split_lines (l @ 10 # s) = (l # fst (split_lines s), snd (split_lines s))"
  by (induction l) (simp_all add: split_beta)

lemma split_lines_none: "10 \<notin> set l \<Longrightarrow> split_lines l = ([], l)"
  by (induction l) simp_all

lemma split_lines_append:
  "split_lines (a @ b) = (let (ls, r) = split_lines a; (ls', r') = split_lines (r @ b) in (ls @ ls', r'))"
proof (induction a rule: measure_induct_rule [of length])
  case (less a)
  show ?case
  proof (cases "10 \<in> set a")
    case True
    then obtain l s where a: "a = l @ 10 # s" "10 \<notin> set l" using split_list_first by metis
    then have "split_lines (s @ b) = (let (ls, r) = split_lines s; (ls', r') = split_lines (r @ b) in (ls @ ls', r'))"
      using less by simp
    then show ?thesis using a by (simp add: split_lines_line split_beta Let_def)
  qed (simp add: split_lines_none split_beta)
qed

lemma split_lines_rest: "10 \<notin> set (snd (split_lines s))"
  by (induction s) (auto split: prod.splits list.splits)

lemma split_lines_shorter: "10 \<in> set s \<Longrightarrow> length (snd (split_lines s)) < length s"
proof (induction s rule: measure_induct_rule [of length])
  case (less s)
  then obtain l r where s: "s = l @ 10 # r" "10 \<notin> set l" using split_list_first by metis
  then show ?case using less.IH [of r] by (cases "10 \<in> set r") (auto simp: split_lines_line split_lines_none)
qed

lemma grep_lines_split:
  "0 \<notin> set p \<Longrightarrow> grep_lines pattern p = (matching pattern (fst (split_lines p)), snd (split_lines p))"
proof (induction pattern p rule: grep_lines.induct)
  case (1 pattern p)
  show ?case
  proof (cases "strchr p 10")
    case None
    moreover have "cstr p = p" using 1(2) by (simp add: cstr_def takeWhile_eq_all_conv) metis
    ultimately have "10 \<notin> set p" using strchr_None [of p 10] by simp
    then show ?thesis using None by (subst grep_lines.simps) (simp add: split_lines_none matching_def)
  next
    case (Some q)
    then obtain l r where p: "p = l @ 10 # r" "10 \<notin> set l" "q = 10 # r"
      using strchr_Some [OF Some] by (metis hd_Cons_tl)
    then have "grep_lines pattern r = (matching pattern (fst (split_lines r)), snd (split_lines r))"
      using 1(1) [OF Some] 1(2) by simp
    then show ?thesis using Some p by (subst grep_lines.simps) (simp add: split_lines_line matching_def)
  qed
qed

lemma grep_loop_Nil [simp]: "grep_loop pattern rest [] = []"
  by (subst grep_loop.simps) simp

lemma split_lines_set: "set (snd (split_lines s)) \<subseteq> set s"
  by (induction s) (auto split: prod.splits list.splits if_splits)

lemma split_lines_last: "10 \<in> set c \<Longrightarrow> snd (split_lines (r @ c)) = snd (split_lines c)"
proof -
  assume "10 \<in> set c"
  then obtain l s where c: "c = l @ 10 # s" "10 \<notin> set s" using split_list_last by metis
  have "snd (split_lines (x @ 10 # s)) = s" for x
    using split_lines_append [of x "10 # s"] split_lines_rest [of x] c(2)
    by (simp add: split_beta Let_def split_lines_line split_lines_none)
  from this [of "r @ l"] this [of l] c show ?thesis by simp
qed

lemma split_lines_ends: "c \<noteq> [] \<Longrightarrow> last c = 10 \<Longrightarrow> snd (split_lines c) = []"
  using split_lines_append [of "butlast c" "[10]"] split_lines_line [OF split_lines_rest, of "butlast c" "[]"]
  by (cases c rule: rev_cases) (auto simp: split_beta Let_def)

text \<open>A long stretch without a newline that is followed by one is part of a long line.\<close>

lemma long_line: "10 \<notin> set b \<Longrightarrow> 10 \<in> set y \<Longrightarrow> \<exists>l \<in> set (fst (split_lines (b @ y))). length b \<le> length l"
proof -
  assume b: "10 \<notin> set b" and "10 \<in> set y"
  then obtain l r where y: "y = l @ 10 # r" "10 \<notin> set l" using split_list_first by metis
  then show ?thesis using b split_lines_line [of "b @ l" r] by simp
qed

text \<open>The pieces \<open>grep\<close> copes with: they end with a newline, or are short and have one.\<close>

definition piece_ok :: "uchar list \<Rightarrow> bool" where
  "piece_ok c \<longleftrightarrow> c \<noteq> [] \<and> 0 \<notin> set c \<and> (last c = 10 \<or> 10 \<in> set c \<and> length c \<le> 512)"

definition lines_fit :: "uchar list \<Rightarrow> bool" where
  "lines_fit s \<longleftrightarrow> (\<forall>l \<in> set (fst (split_lines s)). length l \<le> 1022)"

text \<open>What may be in the buffer before a read: little, or less than a line when the next piece ends with a newline.\<close>

definition rest_ok :: "uchar list \<Rightarrow> uchar list list \<Rightarrow> bool" where
  "rest_ok rest cs \<longleftrightarrow> 0 \<notin> set rest \<and> 10 \<notin> set rest \<and>
    (length rest \<le> 511 \<or> length rest \<le> 1022 \<and> cs \<noteq> [] \<and> last (hd cs) = 10)"

lemma read_ok:
  assumes p: "piece_ok c" "\<forall>x \<in> set cs. piece_ok x" and r: "rest_ok rest (c # cs)" and l: "lines_fit (rest @ concat (c # cs))"
    and rd: "read_piece (1024 - length rest - 1) (c # cs) = (chunk, input)"
  shows "10 \<in> set chunk" "0 \<notin> set chunk" "c @ concat cs = chunk @ concat input" "\<forall>x \<in> set input. piece_ok x"
    "rest_ok (snd (split_lines (rest @ chunk))) input"
proof -
  let ?n = "1024 - length rest - 1"
  have c: "c \<noteq> []" "0 \<notin> set c" "10 \<in> set c" using p(1) unfolding piece_ok_def by (blast, blast, metis last_in_set)
  have n: "0 < ?n" using r by (auto simp: rest_ok_def)
  show chunk: "0 \<notin> set chunk" and cat: "c @ concat cs = chunk @ concat input"
    using rd c(2) by (auto dest: in_set_takeD split: if_splits)
  show nl: "10 \<in> set chunk"
  proof (cases "length c \<le> ?n")
    case True
    then show ?thesis using rd c(3) by auto
  next
    case False
    then have "length chunk = ?n" and e: "c = chunk @ drop ?n c" using rd by auto
    show ?thesis
    proof (rule ccontr)
      assume no: "10 \<notin> set chunk"
      then have y: "10 \<in> set (drop ?n c @ concat cs)" using c(3) e by (metis UnE set_append UnI1)
      have nr: "10 \<notin> set (rest @ chunk)" using no r by (simp add: rest_ok_def)
      obtain x where "x \<in> set (fst (split_lines ((rest @ chunk) @ drop ?n c @ concat cs)))" "length (rest @ chunk) \<le> length x"
        using long_line [OF nr y] by blast
      moreover have "(rest @ chunk) @ drop ?n c @ concat cs = rest @ concat (c # cs)" using e by simp
      ultimately have "length (rest @ chunk) \<le> 1022" using l unfolding lines_fit_def by (metis le_trans)
      then show False using \<open>length chunk = ?n\<close> r by (auto simp: rest_ok_def)
    qed
  qed
  let ?r = "snd (split_lines (rest @ chunk))"
  have z: "0 \<notin> set ?r" "10 \<notin> set ?r" using split_lines_set [of "rest @ chunk"] split_lines_rest r chunk by (auto simp: rest_ok_def)
  have len: "length ?r < length chunk" using split_lines_last [OF nl, of rest] split_lines_shorter [OF nl] by simp
  have "(\<forall>x \<in> set input. piece_ok x) \<and> rest_ok ?r input"
  proof (cases "length c \<le> ?n")
    case True
    then have i: "chunk = c" "input = cs" using rd by auto
    show ?thesis
    proof (cases "last c = 10")
      case True
      then have "?r = []" using split_lines_ends [of "rest @ c"] c(1) i(1) by simp
      then show ?thesis using p(2) i by (simp add: rest_ok_def)
    next
      case False
      then have "length chunk \<le> 512" using p(1) i by (simp add: piece_ok_def)
      then show ?thesis using p(2) i z len by (auto simp: rest_ok_def)
    qed
  next
    case False
    have long: "last c = 10" using False p(1) r by (auto simp: piece_ok_def rest_ok_def)
    have "piece_ok (drop ?n c)" using False long c(2) by (auto simp: piece_ok_def dest: in_set_dropD)
    moreover have i: "input = drop ?n c # cs" "length chunk \<le> 1023" using False rd by auto
    moreover have "last (drop ?n c) = 10" using False long by simp
    ultimately show ?thesis using p(2) z len by (auto simp: rest_ok_def)
  qed
  then show "\<forall>x \<in> set input. piece_ok x" "rest_ok ?r input" by simp_all
qed

text \<open>The loop over such pieces, whatever comes after them.\<close>

lemma grep_loop_pieces:
  "(\<And>c. c \<in> set as \<Longrightarrow> piece_ok c) \<Longrightarrow> rest_ok rest as \<Longrightarrow> lines_fit (rest @ concat as) \<Longrightarrow>
    grep_loop pattern rest (as @ bs) = matching pattern (fst (split_lines (rest @ concat as))) @
      grep_loop pattern (snd (split_lines (rest @ concat as))) bs \<and>
    rest_ok (snd (split_lines (rest @ concat as))) []"
proof (induction "sum_list (map length as)" arbitrary: as rest rule: less_induct)
  case less
  show ?case
  proof (cases as)
    case Nil
    then show ?thesis using less.prems(2) split_lines_none [of rest] by (simp add: matching_def rest_ok_def)
  next
    case (Cons c cs)
    obtain chunk input where rd: "read_piece (1024 - length rest - 1) (c # cs) = (chunk, input)" by fastforce
    have ok: "piece_ok c" "\<forall>x \<in> set cs. piece_ok x" using less.prems(1) Cons by auto
    note r = read_ok [OF ok less.prems(2,3) [unfolded Cons] rd]
    let ?b = "rest @ chunk"
    have z: "0 \<notin> set ?b" using r(2) less.prems(2) by (simp add: rest_ok_def)
    have short: "length (snd (split_lines ?b)) \<noteq> length ?b" using split_lines_shorter [of ?b] r(1) by simp
    have sl: "split_lines (rest @ concat as) = (fst (split_lines ?b) @ fst (split_lines (snd (split_lines ?b) @ concat input)),
        snd (split_lines (snd (split_lines ?b) @ concat input)))"
      using split_lines_append [of ?b "concat input"] r(3) Cons by (simp add: split_beta Let_def)
    have fit: "lines_fit (snd (split_lines ?b) @ concat input)" using less.prems(3) sl by (simp add: lines_fit_def)
    have "sum_list (map length input) < sum_list (map length as)" using read_piece_shorter [OF rd] r(1) Cons by force
    from less.hyps [OF this _ r(5) fit] r(4)
    have IH: "grep_loop pattern (snd (split_lines ?b)) (input @ bs) =
        matching pattern (fst (split_lines (snd (split_lines ?b) @ concat input))) @
          grep_loop pattern (snd (split_lines (snd (split_lines ?b) @ concat input))) bs"
      "rest_ok (snd (split_lines (snd (split_lines ?b) @ concat input))) []" by auto
    have "read_piece (1024 - length rest - 1) (as @ bs) = (chunk, input @ bs)" using rd Cons by auto
    moreover have "chunk \<noteq> []" using r(1) by auto
    ultimately have "grep_loop pattern rest (as @ bs) =
        matching pattern (fst (split_lines ?b)) @ grep_loop pattern (snd (split_lines ?b)) (input @ bs)"
      using short grep_lines_split [OF z, of pattern] by (subst grep_loop.simps) (simp add: Let_def)
    then show ?thesis using IH sl by (simp add: matching_def)
  qed
qed



section \<open>Properties\<close>

text \<open>
  C25. \<open>match\<close> decides whether the text contains a string of the language that the pattern denotes, at the start
  after \<open>^\<close>, reaching the end before \<open>$\<close>; a star is greedy or not as the rest of the pattern needs.
\<close>

theorem match_correct:
  assumes "0 \<notin> set re" and "0 \<notin> set tx"
  shows "match re tx \<longleftrightarrow>
    (if hd0 re = 94 then at_start (parse_re (tl re)) tx else \<exists>p q. tx = p @ q \<and> at_start (parse_re re) q)"
  using assms match_at_start(1) [of "tl re" tx] match_loop_search [of re tx] zero_tl [of re] by (auto simp: match_def)

theorem match_correct_witness: "\<exists>p q. bytes ''xaab'' = p @ q \<and> at_start (parse_re (bytes ''a*b$'')) q"
proof -
  have "match (bytes ''a*b$'') (bytes ''xaab'')" by code_simp
  moreover have "0 \<notin> set (bytes ''a*b$'')" "0 \<notin> set (bytes ''xaab'')" "hd0 (bytes ''a*b$'') \<noteq> 94" by code_simp+
  ultimately show ?thesis using match_correct [of "bytes ''a*b$''" "bytes ''xaab''"] by simp
qed

text \<open>
  C26. For input without zero bytes whose lines have at most 1022 characters, \<open>grep\<close> prints exactly the lines that match, in
  order, however the reads cut the lines, if every piece in which the input arrives ends with a newline (a text file of any length,
  read in as many buffers as it takes) or is short and has a newline in it.
\<close>

theorem grep_prints_matching_lines:
  assumes "\<And>c. c \<in> set input \<Longrightarrow> c \<noteq> [] \<and> 0 \<notin> set c \<and> (last c = 10 \<or> 10 \<in> set c \<and> length c \<le> 512)"
    and "\<And>l. l \<in> set (fst (split_lines (concat input))) \<Longrightarrow> length l \<le> 1022"
  shows "grep pattern input = matching pattern (fst (split_lines (concat input)))"
  using grep_loop_pieces [of input "[]" pattern "[]"] assms by (simp add: grep_def piece_ok_def lines_fit_def rest_ok_def)

text \<open>The line \<open>ab\<close> arrives in two pieces, of which the first ends a line before it.\<close>

theorem grep_prints_matching_lines_witness:
  "grep (bytes ''b'') [bytes ''a'' @ [10, 97], bytes ''b'' @ [10]] = [97, 98, 10]"
proof -
  let ?i = "[bytes ''a'' @ [10, 97], bytes ''b'' @ [10]]"
  have l: "fst (split_lines (concat ?i)) = [[97], [97, 98]]" by code_simp
  have m: "match (bytes ''b'') [97, 98]" "\<not> match (bytes ''b'') [97]" by code_simp+
  have "grep (bytes ''b'') ?i = matching (bytes ''b'') (fst (split_lines (concat ?i)))"
  proof (rule grep_prints_matching_lines)
    fix c assume "c \<in> set ?i"
    then show "c \<noteq> [] \<and> 0 \<notin> set c \<and> (last c = 10 \<or> 10 \<in> set c \<and> length c \<le> 512)" by (auto simp: bytes_def)
  next
    fix x assume "x \<in> set (fst (split_lines (concat ?i)))"
    then show "length x \<le> 1022" unfolding l by auto
  qed
  then show ?thesis unfolding l using m by (simp add: matching_def)
qed



end
