(* ===== verification/Sh.thy ===== *)
theory Sh
  imports Ulib
begin

text \<open>
  The shell's reader and parser (\<^verbatim>\<open>sh.c\<close>). A command is a tree whose words are pairs of positions in the input buffer,
  as the pointers \<open>argv\<close> and \<open>eargv\<close> are; \<open>nulterminate\<close> then writes the terminating zeros into the buffer. The loops and
  the recursive descent take fuel, which \<open>parsecmd\<close> chooses from the length of the input; it always suffices.
\<close>

datatype cmd =
    EXEC "(nat \<times> nat) list"
  | REDIR cmd nat nat uint nat
  | PIPE cmd cmd
  | LIST cmd cmd
  | BACK cmd

abbreviation (input) MAXARGS :: nat where "MAXARGS \<equiv> 10"
abbreviation (input) O_RDONLY :: uint where "O_RDONLY \<equiv> 0"
abbreviation (input) O_WRONLY :: uint where "O_WRONLY \<equiv> 1"
abbreviation (input) O_CREATE :: uint where "O_CREATE \<equiv> 0x200"


section \<open>Reading a command\<close>

definition getcmd :: "nat \<Rightarrow> uchar list \<Rightarrow> int \<times> uchar list \<times> uchar list" where
  "getcmd nbuf inp =
    (let (cs, inp) = gets (int nbuf) inp; buf = cs @ replicate (nbuf - length cs) 0
     in (if hd0 buf = 0 then -1 else 0, buf, inp))"


section \<open>Tokens\<close>

definition whitespace :: "uchar list" where "whitespace = [32, 9, 13, 10, 11]"
definition symbols :: "uchar list" where "symbols = bytes ''<|>&;()''"

text \<open>The byte at a position; the buffer is followed by zeros.\<close>

definition buf_at :: "uchar list \<Rightarrow> nat \<Rightarrow> uchar" where
  "buf_at b i = (if i < length b then b ! i else 0)"

function scan :: "(uchar \<Rightarrow> bool) \<Rightarrow> uchar list \<Rightarrow> nat \<Rightarrow> nat \<Rightarrow> nat" where
  "scan P b es s = (if s < es \<and> P (buf_at b s) then scan P b es (Suc s) else s)"
  by auto
termination by (relation "measure (\<lambda>(P, b, es, s). es - s)") auto

declare scan.simps [simp del]

definition is_ws :: "uchar \<Rightarrow> bool" where
  "is_ws c \<longleftrightarrow> strchr whitespace c \<noteq> None"

definition is_word :: "uchar \<Rightarrow> bool" where
  "is_word c \<longleftrightarrow> strchr whitespace c = None \<and> strchr symbols c = None"

text \<open>The token, its start and end, and the position after it and the white space that follows.\<close>

definition gettoken :: "uchar list \<Rightarrow> nat \<Rightarrow> nat \<Rightarrow> uchar \<times> nat \<times> nat \<times> nat" where
  "gettoken b es s =
    (let s = scan is_ws b es s; q = s; c = buf_at b s;
         (ret, s) =
           (if c = 0 then (c, s)
            else if c \<in> {124, 40, 41, 59, 38, 60} then (c, Suc s)
            else if c = 62 then (if buf_at b (Suc s) = 62 then (43, Suc (Suc s)) else (c, Suc s))
            else (97, scan is_word b es s));
         eq = s
     in (ret, q, eq, scan is_ws b es s))"

definition peek :: "uchar list \<Rightarrow> nat \<Rightarrow> uchar list \<Rightarrow> nat \<Rightarrow> bool \<times> nat" where
  "peek b es toks s =
    (let s = scan is_ws b es s in (buf_at b s \<noteq> 0 \<and> strchr toks (buf_at b s) \<noteq> None, s))"


section \<open>Parsing\<close>

fun redircmd :: "nat \<times> nat \<times> uint \<times> nat \<Rightarrow> cmd \<Rightarrow> cmd" where
  "redircmd (file, efile, mode, fd) c = REDIR c file efile mode fd"

text \<open>The redirections in the order in which they wrap the command.\<close>

fun parseredirs :: "nat \<Rightarrow> uchar list \<Rightarrow> nat \<Rightarrow> nat \<Rightarrow> kerror + (nat \<times> nat \<times> uint \<times> nat) list \<times> nat" where
  "parseredirs 0 b es s = Inl Hang"
| "parseredirs (Suc n) b es s =
    (case peek b es (bytes ''<>'') s of (go, s) \<Rightarrow>
       if \<not> go then Inr ([], s)
       else
         case gettoken b es s of (tok, _, _, s) \<Rightarrow>
         case gettoken b es s of (t, q, eq, s) \<Rightarrow>
           if t \<noteq> 97 then Inl (Panic ''missing file for redirection'')
           else
             bindE (parseredirs n b es s) (\<lambda>(rs, s).
               Inr ((if tok = 60 then [(q, eq, O_RDONLY, 0)]
                     else if tok = 62 \<or> tok = 43 then [(q, eq, O_WRONLY OR O_CREATE, 1)] else []) @ rs, s)))"

text \<open>The loop of \<open>parseexec\<close>: the words of the command and the redirections between them.\<close>

fun parseargs :: "nat \<Rightarrow> uchar list \<Rightarrow> nat \<Rightarrow> nat \<Rightarrow> nat \<Rightarrow>
    kerror + ((nat \<times> nat) list \<times> (nat \<times> nat \<times> uint \<times> nat) list) \<times> nat" where
  "parseargs 0 b es argc s = Inl Hang"
| "parseargs (Suc n) b es argc s =
    (case peek b es (bytes ''|)&;'') s of (stop, s) \<Rightarrow>
       if stop then Inr (([], []), s)
       else
         case gettoken b es s of (tok, q, eq, s) \<Rightarrow>
           if tok = 0 then Inr (([], []), s)
           else if tok \<noteq> 97 then Inl (Panic ''syntax'')
           else if Suc argc \<ge> MAXARGS then Inl (Panic ''too many args'')
           else
             bindE (parseredirs n b es s) (\<lambda>(rs, s).
             bindE (parseargs n b es (Suc argc) s) (\<lambda>((as, rs'), s). Inr (((q, eq) # as, rs @ rs'), s))))"

text \<open>The loop for \<open>&\<close> of \<open>parseline\<close>.\<close>

fun parsebacks :: "nat \<Rightarrow> uchar list \<Rightarrow> nat \<Rightarrow> cmd \<Rightarrow> nat \<Rightarrow> kerror + cmd \<times> nat" where
  "parsebacks 0 b es cmd s = Inl Hang"
| "parsebacks (Suc n) b es cmd s =
    (case peek b es (bytes ''&'') s of (go, s) \<Rightarrow>
       if \<not> go then Inr (cmd, s)
       else case gettoken b es s of (_, _, _, s) \<Rightarrow> parsebacks n b es (BACK cmd) s)"

text \<open>
  The functions that call each other: \<open>call f s\<close> stands for a call of the function \<open>f\<close> at position \<open>s\<close>, and \<open>n\<close> is the fuel
  of the loops. \<open>parse\<close> ties the recursion.
\<close>

datatype parser = Parseline | Parsepipe | Parseexec | Parseblock

definition parseline :: "(parser \<Rightarrow> nat \<Rightarrow> kerror + cmd \<times> nat) \<Rightarrow> nat \<Rightarrow> uchar list \<Rightarrow> nat \<Rightarrow> nat \<Rightarrow> kerror + cmd \<times> nat" where
  "parseline call n b es s =
    bindE (call Parsepipe s) (\<lambda>(cmd, s).
    bindE (parsebacks n b es cmd s) (\<lambda>(cmd, s).
      case peek b es (bytes '';'') s of (go, s) \<Rightarrow>
        if \<not> go then Inr (cmd, s)
        else case gettoken b es s of (_, _, _, s) \<Rightarrow>
          bindE (call Parseline s) (\<lambda>(right, s). Inr (LIST cmd right, s))))"

definition parsepipe :: "(parser \<Rightarrow> nat \<Rightarrow> kerror + cmd \<times> nat) \<Rightarrow> uchar list \<Rightarrow> nat \<Rightarrow> nat \<Rightarrow> kerror + cmd \<times> nat" where
  "parsepipe call b es s =
    bindE (call Parseexec s) (\<lambda>(cmd, s).
      case peek b es (bytes ''|'') s of (go, s) \<Rightarrow>
        if \<not> go then Inr (cmd, s)
        else case gettoken b es s of (_, _, _, s) \<Rightarrow>
          bindE (call Parsepipe s) (\<lambda>(right, s). Inr (PIPE cmd right, s)))"

definition parseexec :: "(parser \<Rightarrow> nat \<Rightarrow> kerror + cmd \<times> nat) \<Rightarrow> nat \<Rightarrow> uchar list \<Rightarrow> nat \<Rightarrow> nat \<Rightarrow> kerror + cmd \<times> nat" where
  "parseexec call n b es s =
    (case peek b es (bytes ''('') s of (block, s) \<Rightarrow>
       if block then call Parseblock s
       else
         bindE (parseredirs n b es s) (\<lambda>(rs, s).
         bindE (parseargs n b es 0 s) (\<lambda>((as, rs'), s).
           Inr (fold redircmd (rs @ rs') (EXEC as), s))))"

definition parseblock :: "(parser \<Rightarrow> nat \<Rightarrow> kerror + cmd \<times> nat) \<Rightarrow> nat \<Rightarrow> uchar list \<Rightarrow> nat \<Rightarrow> nat \<Rightarrow> kerror + cmd \<times> nat" where
  "parseblock call n b es s =
    (case peek b es (bytes ''('') s of (left, s) \<Rightarrow>
       if \<not> left then Inl (Panic ''parseblock'')
       else case gettoken b es s of (_, _, _, s) \<Rightarrow>
         bindE (call Parseline s) (\<lambda>(cmd, s).
           case peek b es (bytes '')'') s of (right, s) \<Rightarrow>
             if \<not> right then Inl (Panic ''syntax - missing )'')
             else case gettoken b es s of (_, _, _, s) \<Rightarrow>
               bindE (parseredirs n b es s) (\<lambda>(rs, s). Inr (fold redircmd rs cmd, s))))"

primrec parse :: "nat \<Rightarrow> uchar list \<Rightarrow> nat \<Rightarrow> parser \<Rightarrow> nat \<Rightarrow> kerror + cmd \<times> nat" where
  "parse 0 b es f s = Inl Hang"
| "parse (Suc n) b es f s =
    (case f of
       Parseline \<Rightarrow> parseline (parse n b es) n b es s
     | Parsepipe \<Rightarrow> parsepipe (parse n b es) b es s
     | Parseexec \<Rightarrow> parseexec (parse n b es) n b es s
     | Parseblock \<Rightarrow> parseblock (parse n b es) n b es s)"

fun nulterminate :: "cmd \<Rightarrow> uchar list \<Rightarrow> uchar list" where
  "nulterminate (EXEC argv) b = fold (\<lambda>(q, eq) b. b[eq := 0]) argv b"
| "nulterminate (REDIR c file efile mode fd) b = (nulterminate c b)[efile := 0]"
| "nulterminate (PIPE l r) b = nulterminate r (nulterminate l b)"
| "nulterminate (LIST l r) b = nulterminate r (nulterminate l b)"
| "nulterminate (BACK c) b = nulterminate c b"

text \<open>The command and the buffer that its words point into.\<close>

definition parsecmd :: "uchar list \<Rightarrow> kerror + cmd \<times> uchar list" where
  "parsecmd b =
    (let es = strlen_u b in
     bindE (parse (4 * es + 4) b es Parseline 0) (\<lambda>(cmd, s).
       case peek b es [] s of (_, s) \<Rightarrow>
         if s \<noteq> es then Inl (Panic ''syntax'') else Inr (cmd, nulterminate cmd b)))"


section \<open>Tokens lie in the buffer\<close>

text \<open>\<open>es\<close> is the end of the string in the buffer.\<close>

definition ends_at :: "uchar list \<Rightarrow> nat \<Rightarrow> bool" where
  "ends_at b es \<longleftrightarrow> es \<le> length b \<and> (\<forall>i < es. b ! i \<noteq> 0) \<and> buf_at b es = 0"

lemma ends_at_strlen: "ends_at b (strlen_u b)"
proof -
  have "strlen_u b \<le> length b \<and> (\<forall>i < strlen_u b. b ! i \<noteq> 0) \<and> (strlen_u b < length b \<longrightarrow> b ! strlen_u b = 0)"
  proof (induction b)
    case (Cons c b)
    then show ?case by (auto simp: nth_Cons split: nat.splits)
  qed simp
  then show ?thesis by (auto simp: ends_at_def buf_at_def)
qed

lemma ends_at_nonzero: "ends_at b es \<Longrightarrow> s \<le> es \<Longrightarrow> buf_at b s \<noteq> 0 \<longleftrightarrow> s < es"
  by (auto simp: ends_at_def buf_at_def le_less split: if_splits)

lemma scan_bounds:
  "s \<le> es \<Longrightarrow> s \<le> scan P b es s \<and> scan P b es s \<le> es \<and> (\<forall>i. s \<le> i \<longrightarrow> i < scan P b es s \<longrightarrow> P (buf_at b i)) \<and>
    (scan P b es s < es \<longrightarrow> \<not> P (buf_at b (scan P b es s)))"
proof (induction P b es s rule: scan.induct)
  case (1 P b es s)
  show ?case
  proof (cases "s < es \<and> P (buf_at b s)")
    case True
    then have e: "scan P b es s = scan P b es (Suc s)" by (subst scan.simps) simp
    note IH = 1(1) [OF True, simplified Suc_le_eq, OF conjunct1 [OF True]]
    have "P (buf_at b i)" if "s \<le> i" "i < scan P b es (Suc s)" for i
      using that True IH by (cases "i = s") (auto simp: Suc_le_eq)
    then show ?thesis using IH unfolding e by (auto simp: Suc_le_eq)
  next
    case False
    then have "scan P b es s = s" by (subst scan.simps) auto
    then show ?thesis using False 1 by auto
  qed
qed

text \<open>A word: at least one character, all of them word characters, up to the end of the string or a character that ends words.\<close>

definition word_ok :: "uchar list \<Rightarrow> nat \<Rightarrow> nat \<times> nat \<Rightarrow> bool" where
  "word_ok b es w \<longleftrightarrow> (case w of (q, e) \<Rightarrow> q < e \<and> e \<le> es \<and> (\<forall>i. q \<le> i \<longrightarrow> i < e \<longrightarrow> is_word (buf_at b i)) \<and>
    (e = es \<or> \<not> is_word (buf_at b e)))"

lemma peek_bounds:
  assumes "ends_at b es" and "s \<le> es" and "peek b es toks s = (t, s')"
  shows "s \<le> s' \<and> s' \<le> es \<and> (t \<longrightarrow> s' < es)"
  using assms scan_bounds [of s es is_ws b] ends_at_nonzero [OF assms(1), of s'] by (auto simp: peek_def Let_def)

lemma symbol_chars: "c \<in> {124, 40, 41, 59, 38, 60} \<or> c = 62 \<longleftrightarrow> strchr symbols c \<noteq> None" if "c \<noteq> 0"
  by (auto simp: symbols_def bytes_def)

lemma gettoken_bounds:
  assumes b: "ends_at b es" and s: "s \<le> es" and g: "gettoken b es s = (ret, q, e, s')"
  shows "s \<le> s' \<and> s' \<le> es \<and> (ret \<noteq> 0 \<longrightarrow> s < s') \<and> (ret = 97 \<longrightarrow> word_ok b es (q, e))"
proof -
  let ?q = "scan is_ws b es s" and ?w = "scan is_word b es (scan is_ws b es s)"
  let ?c = "buf_at b ?q"
  note q = scan_bounds [OF s, of is_ws b]
  have c0: "?c \<noteq> 0 \<longleftrightarrow> ?q < es" using ends_at_nonzero [OF b, of ?q] q by simp
  define e' where "e' = (if ?c = 0 then ?q else if ?c \<in> {124, 40, 41, 59, 38, 60} then Suc ?q
    else if ?c = 62 then (if buf_at b (Suc ?q) = 62 then Suc (Suc ?q) else Suc ?q) else ?w)"
  have r: "q = ?q" "e = e'" "s' = scan is_ws b es e'" "ret \<noteq> 0 \<longrightarrow> ?c \<noteq> 0"
    "ret = 97 \<longrightarrow> ?c \<noteq> 0 \<and> ?c \<notin> {124, 40, 41, 59, 38, 60} \<and> ?c \<noteq> 62"
    using g unfolding gettoken_def Let_def e'_def by (auto split: if_splits)
  have two: "Suc ?q < es" if "?c \<noteq> 0" "buf_at b (Suc ?q) = 62" using that c0 ends_at_nonzero [OF b, of "Suc ?q"] by auto
  note w = scan_bounds [of ?q es is_word b]
  have word: "is_word ?c \<and> ?q < ?w" if "?c \<noteq> 0" "?c \<notin> {124, 40, 41, 59, 38, 60}" "?c \<noteq> 62"
  proof -
    have "is_word ?c" using that q c0 symbol_chars [of ?c] by (auto simp: is_word_def is_ws_def)
    moreover have "?w = scan is_word b es (Suc ?q)" using calculation that(1) c0 by (subst scan.simps) simp
    ultimately show ?thesis using scan_bounds [of "Suc ?q" es is_word b] c0 that(1) by auto
  qed
  have e: "?q \<le> e' \<and> e' \<le> es \<and> (?c \<noteq> 0 \<longrightarrow> ?q < e')" using q w c0 two word unfolding e'_def by (auto split: if_splits)
  then have "s \<le> s' \<and> s' \<le> es \<and> (ret \<noteq> 0 \<longrightarrow> s < s')" using q r scan_bounds [of e' es is_ws b] by auto
  moreover have "word_ok b es (q, e)" if "ret = 97"
  proof -
    have "e' = ?w" "?q < ?w" using r(5) that word unfolding e'_def by auto
    then show ?thesis using w q r by (auto simp: word_ok_def)
  qed
  ultimately show ?thesis by blast
qed


section \<open>The parser ends and finds words\<close>

text \<open>A parser at \<open>s\<close> does not run out of fuel, moves on within the string, and the words \<open>W\<close> of its result are words of the string.\<close>

definition parsed :: "uchar list \<Rightarrow> nat \<Rightarrow> nat \<Rightarrow> ('a \<Rightarrow> (nat \<times> nat) set) \<Rightarrow> kerror + 'a \<times> nat \<Rightarrow> bool" where
  "parsed b es s W r \<longleftrightarrow> (case r of Inl e \<Rightarrow> e \<noteq> Hang | Inr (x, s') \<Rightarrow> s \<le> s' \<and> s' \<le> es \<and> (\<forall>w \<in> W x. word_ok b es w))"

fun cmd_words :: "cmd \<Rightarrow> (nat \<times> nat) set" where
  "cmd_words (EXEC argv) = set argv"
| "cmd_words (REDIR c file efile mode fd) = insert (file, efile) (cmd_words c)"
| "cmd_words (PIPE l r) = cmd_words l \<union> cmd_words r"
| "cmd_words (LIST l r) = cmd_words l \<union> cmd_words r"
| "cmd_words (BACK c) = cmd_words c"

definition redir_words :: "(nat \<times> nat \<times> uint \<times> nat) list \<Rightarrow> (nat \<times> nat) set" where
  "redir_words rs = (\<lambda>(f, e, m, d). (f, e)) ` set rs"

lemma redir_words_simps [simp]: "redir_words [] = {}" "redir_words (x # rs) = insert (fst x, fst (snd x)) (redir_words rs)"
  "redir_words (rs @ rs') = redir_words rs \<union> redir_words rs'"
  by (auto simp: redir_words_def split_beta)

lemma cmd_words_redirs: "cmd_words (fold redircmd rs c) = redir_words rs \<union> cmd_words c"
  by (induction rs arbitrary: c) auto

lemma parsed_Inl [simp]: "parsed b es s W (Inl e) \<longleftrightarrow> e \<noteq> Hang"
  by (simp add: parsed_def)

lemma parsed_Inr [simp]: "parsed b es s W (Inr (x, s')) \<longleftrightarrow> s \<le> s' \<and> s' \<le> es \<and> (\<forall>w \<in> W x. word_ok b es w)"
  by (simp add: parsed_def)

lemma parsed_mono: "parsed b es s' W r \<Longrightarrow> s \<le> s' \<Longrightarrow> parsed b es s W r"
  by (auto simp: parsed_def split: sum.splits)

lemma parsed_bind:
  assumes "parsed b es s W m" and "\<And>x s'. s \<le> s' \<Longrightarrow> s' \<le> es \<Longrightarrow> \<forall>w \<in> W x. word_ok b es w \<Longrightarrow> parsed b es s' V (f (x, s'))"
  shows "parsed b es s V (bindE m f)"
proof (cases m)
  case (Inr y)
  then obtain x s' where "m = Inr (x, s')" by (cases y) auto
  then show ?thesis using assms parsed_mono by fastforce
qed (use assms in simp)

lemma parsed_peek:
  assumes "ends_at b es" and "s \<le> es" and "\<And>t s'. s \<le> s' \<Longrightarrow> s' \<le> es \<Longrightarrow> (t \<Longrightarrow> s' < es) \<Longrightarrow> parsed b es s' V (f t s')"
  shows "parsed b es s V (case peek b es toks s of (t, s') \<Rightarrow> f t s')"
proof -
  obtain t s' where p: "peek b es toks s = (t, s')" by (cases "peek b es toks s")
  show ?thesis using peek_bounds [OF assms(1,2) p] assms(3) [of s' t] parsed_mono [of b es s' V "f t s'" s] by (auto simp: p)
qed

lemma parsed_token:
  assumes "ends_at b es" and "s \<le> es"
    and "\<And>t q e s'. s \<le> s' \<Longrightarrow> s' \<le> es \<Longrightarrow> (t \<noteq> 0 \<Longrightarrow> s < s') \<Longrightarrow> (t = 97 \<Longrightarrow> word_ok b es (q, e)) \<Longrightarrow> parsed b es s' V (f t q e s')"
  shows "parsed b es s V (case gettoken b es s of (t, q, e, s') \<Rightarrow> f t q e s')"
proof -
  obtain t q e s' where p: "gettoken b es s = (t, q, e, s')" by (metis prod_cases4)
  show ?thesis using gettoken_bounds [OF assms(1,2) p] assms(3) [of s' t q e] parsed_mono [of b es s' V "f t q e s'" s] by (auto simp: p)
qed

text \<open>After \<open>peek\<close> has seen a token, \<open>gettoken\<close> moves on.\<close>

lemma token_after_peek:
  assumes "ends_at b es" and "s < es" and "\<not> is_ws (buf_at b s)" and "gettoken b es s = (t, q, e, s')"
  shows "s < s'"
proof -
  have "scan is_ws b es s = s" using assms(3) by (subst scan.simps) simp
  moreover have "buf_at b s \<noteq> 0" using ends_at_nonzero [OF assms(1), of s] assms(2) by simp
  ultimately have "t \<noteq> 0" using assms(4) by (auto simp: gettoken_def Let_def split: if_splits)
  then show ?thesis using gettoken_bounds [OF assms(1) _ assms(4)] assms(2) by simp
qed

lemma peek_not_ws: "s \<le> es \<Longrightarrow> peek b es toks s = (t, s') \<Longrightarrow> s' < es \<Longrightarrow> \<not> is_ws (buf_at b s')"
  using scan_bounds [of s es is_ws b] by (auto simp: peek_def Let_def)

lemma parsed_peek_token:
  assumes b: "ends_at b es" and s: "s \<le> es"
    and stop: "\<And>s'. s \<le> s' \<Longrightarrow> s' \<le> es \<Longrightarrow> parsed b es s' V (g s')"
    and go: "\<And>t q e s'. s < s' \<Longrightarrow> s' \<le> es \<Longrightarrow> parsed b es s' V (f t q e s')"
  shows "parsed b es s V (case peek b es toks s of (t, s) \<Rightarrow> if \<not> t then g s else case gettoken b es s of (t, q, e, s) \<Rightarrow> f t q e s)"
proof -
  obtain t s1 where p: "peek b es toks s = (t, s1)" by (cases "peek b es toks s")
  note P = peek_bounds [OF b s p]
  obtain k q e s2 where q: "gettoken b es s1 = (k, q, e, s2)" by (metis prod_cases4)
  show ?thesis
  proof (cases t)
    case True
    then have "s1 < s2" using token_after_peek [OF b _ peek_not_ws [OF s p] q] P by simp
    moreover have "s2 \<le> es" using gettoken_bounds [OF b _ q] P by simp
    ultimately have "parsed b es s2 V (f k q e s2)" "s \<le> s2" using go P by auto
    then show ?thesis using True p q parsed_mono [of b es s2 V "f k q e s2" s] by simp
  next
    case False
    then show ?thesis using stop [of s1] P p parsed_mono [of b es s1 V "g s1" s] by simp
  qed
qed

lemma parseredirs_parsed: "ends_at b es \<Longrightarrow> s \<le> es \<Longrightarrow> es - s < n \<Longrightarrow> parsed b es s redir_words (parseredirs n b es s)"
proof (induction n arbitrary: s)
  case (Suc n)
  note IH = Suc.IH [OF Suc.prems(1)]
  have more: "es - s' < n" if "s < s'" "s' \<le> es" for s' using that Suc.prems(2,3) by linarith
  show ?case unfolding parseredirs.simps
    by (rule parsed_peek_token [OF Suc.prems(1,2)], simp)
      (rule parsed_token [OF Suc.prems(1)], simp, auto intro!: parsed_bind [OF IH] more)
qed simp

definition args_words :: "(nat \<times> nat) list \<times> (nat \<times> nat \<times> uint \<times> nat) list \<Rightarrow> (nat \<times> nat) set" where
  "args_words x = set (fst x) \<union> redir_words (snd x)"

lemma parseargs_parsed: "ends_at b es \<Longrightarrow> s \<le> es \<Longrightarrow> es - s < n \<Longrightarrow> parsed b es s args_words (parseargs n b es argc s)"
proof (induction n arbitrary: s argc)
  case (Suc n)
  note IH = Suc.IH [OF Suc.prems(1)]
  have more: "es - s' < n" if "s \<le> s1" "s1 < s2" "s2 \<le> s'" "s' \<le> es" for s1 s2 s' using that Suc.prems(2,3) by linarith
  show ?case unfolding parseargs.simps
  proof (rule parsed_peek [OF Suc.prems(1,2)])
    fix stop :: bool and s1
    assume s1: "s \<le> s1" "s1 \<le> es"
    have "parsed b es s1 args_words (case gettoken b es s1 of (tok, q, eq, s) \<Rightarrow>
        if tok = 0 then Inr (([], []), s) else if tok \<noteq> 97 then Inl (Panic ''syntax'')
        else if Suc argc \<ge> MAXARGS then Inl (Panic ''too many args'')
        else bindE (parseredirs n b es s) (\<lambda>(rs, s).
             bindE (parseargs n b es (Suc argc) s) (\<lambda>((as, rs'), s). Inr (((q, eq) # as, rs @ rs'), s))))"
      (is "parsed b es s1 args_words (case gettoken b es s1 of (tok, q, eq, s) \<Rightarrow> ?k tok q eq s)")
    proof (rule parsed_token [OF Suc.prems(1) s1(2)])
      fix tok :: uchar and q eq s2 :: nat
      assume s2: "s1 \<le> s2" "s2 \<le> es" "tok \<noteq> 0 \<Longrightarrow> s1 < s2" "tok = 97 \<Longrightarrow> word_ok b es (q, eq)"
      show "parsed b es s2 args_words (?k tok q eq s2)"
      proof (cases "tok = 97")
        case True
        then have lt: "s1 < s2" and w: "word_ok b es (q, eq)" using s2 by auto
        show ?thesis using True w s2(2)
          by (auto simp: args_words_def intro!: parsed_bind [OF parseredirs_parsed [OF Suc.prems(1)]] parsed_bind [OF IH] more [OF s1(1) lt])
      qed (use s2 in \<open>auto simp: args_words_def\<close>)
    qed
    then show "parsed b es s1 args_words (if stop then Inr (([], []), s1) else (case gettoken b es s1 of (tok, q, eq, s) \<Rightarrow> ?k tok q eq s))"
      using s1 by (simp add: args_words_def)
  qed
qed simp

lemma parsebacks_parsed:
  "ends_at b es \<Longrightarrow> s \<le> es \<Longrightarrow> es - s < n \<Longrightarrow> \<forall>w \<in> cmd_words cmd. word_ok b es w \<Longrightarrow>
    parsed b es s cmd_words (parsebacks n b es cmd s)"
proof (induction n arbitrary: s cmd)
  case (Suc n)
  note IH = Suc.IH [OF Suc.prems(1)]
  have more: "es - s' < n" if "s < s'" "s' \<le> es" for s' using that Suc.prems(2,3) by linarith
  show ?case unfolding parsebacks.simps
    by (rule parsed_peek_token [OF Suc.prems(1,2)]) (use Suc.prems(4) in \<open>auto intro!: IH more\<close>)
qed simp

text \<open>The fuel each function needs at a distance \<open>d\<close> from the end of the string.\<close>

fun parse_fuel :: "parser \<Rightarrow> nat \<Rightarrow> nat" where
  "parse_fuel Parseline d = 4 * d + 4"
| "parse_fuel Parsepipe d = 4 * d + 3"
| "parse_fuel Parseexec d = 4 * d + 2"
| "parse_fuel Parseblock d = 4 * d + 1"

text \<open>A token and the rest of the line after it, or nothing.\<close>

lemma parsed_tail:
  assumes "ends_at b es" and "s \<le> es" and "\<forall>w \<in> cmd_words cmd. word_ok b es w"
    and "\<And>s'. s < s' \<Longrightarrow> s' \<le> es \<Longrightarrow> parsed b es s' cmd_words (rest s')"
    and "\<And>right. cmd_words (K cmd right) = cmd_words cmd \<union> cmd_words right"
  shows "parsed b es s cmd_words (case peek b es toks s of (go, s) \<Rightarrow>
    if \<not> go then Inr (cmd, s) else case gettoken b es s of (_, _, _, s) \<Rightarrow> bindE (rest s) (\<lambda>(right, s). Inr (K cmd right, s)))"
  by (rule parsed_peek_token [OF assms(1,2)]) (use assms in \<open>auto intro!: parsed_bind [OF assms(4)]\<close>)

lemma parse_parsed: "ends_at b es \<Longrightarrow> s \<le> es \<Longrightarrow> parse_fuel f (es - s) \<le> n \<Longrightarrow> parsed b es s cmd_words (parse n b es f s)"
proof (induction n arbitrary: f s)
  case 0
  then show ?case by (cases f) auto
next
  case (Suc n)
  note b = Suc.prems(1) and s = Suc.prems(2)
  note IH = Suc.IH [OF b] and redirs = parsed_bind [OF parseredirs_parsed [OF b]]
  show ?case
  proof (cases f)
    case Parseline
    then have n: "4 * (es - s) + 3 \<le> n" using Suc.prems(3) by simp
    have "parsed b es s cmd_words (parseline (parse n b es) n b es s)" unfolding parseline_def
      using n by (auto intro!: parsed_bind [OF IH [OF s]] parsed_bind [OF parsebacks_parsed [OF b]] parsed_tail [OF b] IH)
    then show ?thesis using Parseline by simp
  next
    case Parsepipe
    then have n: "4 * (es - s) + 2 \<le> n" using Suc.prems(3) by simp
    have "parsed b es s cmd_words (parsepipe (parse n b es) b es s)" unfolding parsepipe_def
      using n by (auto intro!: parsed_bind [OF IH [OF s]] parsed_tail [OF b] IH)
    then show ?thesis using Parsepipe by simp
  next
    case Parseexec
    then have n: "4 * (es - s) + 1 \<le> n" using Suc.prems(3) by simp
    have "parsed b es s cmd_words (parseexec (parse n b es) n b es s)" unfolding parseexec_def
      by (rule parsed_peek [OF b s])
        (use n in \<open>auto simp: cmd_words_redirs args_words_def intro!: IH redirs parsed_bind [OF parseargs_parsed [OF b]]\<close>)
    then show ?thesis using Parseexec by simp
  next
    case Parseblock
    then have n: "4 * (es - s) \<le> n" using Suc.prems(3) by simp
    have "parsed b es s cmd_words (parseblock (parse n b es) n b es s)" unfolding parseblock_def
      by (rule parsed_peek_token [OF b s])
        (use n in \<open>auto simp: cmd_words_redirs intro!: parsed_bind [OF IH] parsed_peek_token [OF b] redirs\<close>)
    then show ?thesis using Parseblock by simp
  qed
qed

text \<open>
  C28. The recursive descent of the shell ends on every line: each round of its loops and each nested call takes a
  token, so the parser returns a command or one of its syntax errors and never runs on.
\<close>

theorem parsecmd_terminates: "parsecmd b \<noteq> Inl Hang"
proof -
  have "parsed b (strlen_u b) 0 cmd_words (parse (4 * strlen_u b + 4) b (strlen_u b) Parseline 0)"
    by (rule parse_parsed [OF ends_at_strlen]) auto
  then show ?thesis
    by (auto simp: parsecmd_def Let_def parsed_def split: sum.splits prod.splits if_splits)
qed

section \<open>The words of the command\<close>

lemma nulterminate_nth:
  "length (nulterminate c b) = length b \<and>
    (i < length b \<longrightarrow> nulterminate c b ! i = (if i \<in> snd ` cmd_words c then 0 else b ! i))"
proof (induction c arbitrary: b)
  case (EXEC argv)
  show ?case by (induction argv arbitrary: b) (auto simp: nth_list_update split: prod.splits)
next
  case (REDIR c f e mode fd)
  show ?case using REDIR [of b] by (cases "i = e") auto
next
  case (PIPE l r)
  show ?case using PIPE(1) [of b] PIPE(2) [of "nulterminate l b"] by auto
next
  case (LIST l r)
  show ?case using LIST(1) [of b] LIST(2) [of "nulterminate l b"] by auto
qed auto

lemma takeWhile_drop:
  assumes "q \<le> e" "e \<le> length b" "\<And>i. q \<le> i \<Longrightarrow> i < e \<Longrightarrow> P (b ! i)" "e < length b \<Longrightarrow> \<not> P (b ! e)"
  shows "takeWhile P (drop q b) = take (e - q) (drop q b)"
  by (rule takeWhile_eq_take_P_nth) (use assms in auto)

text \<open>
  C27. The words of a parsed command, arguments and file names alike, are non-empty stretches of the line, and after
  \<open>nulterminate\<close> the pointer of each word reads as exactly that stretch of the line: no terminator of one word cuts another.
\<close>

theorem parsecmd_words:
  assumes "parsecmd b = Inr (c, b')" and "(q, e) \<in> cmd_words c"
  shows "q < e \<and> e \<le> strlen_u b \<and> cstr (drop q b') = take (e - q) (drop q b)"
proof -
  define es where "es = strlen_u b"
  have b: "ends_at b es" unfolding es_def by (rule ends_at_strlen)
  have "parsed b es 0 cmd_words (parse (4 * es + 4) b es Parseline 0)"
    by (rule parse_parsed [OF b]) auto
  then have ok: "\<forall>w \<in> cmd_words c. word_ok b es w" and b': "b' = nulterminate c b"
    using assms(1) by (auto simp: parsecmd_def Let_def es_def parsed_def split: sum.splits prod.splits if_splits)
  have w: "q < e" "e \<le> es" "\<And>i. q \<le> i \<Longrightarrow> i < e \<Longrightarrow> is_word (buf_at b i)"
    using ok assms(2) by (auto simp: word_ok_def)
  have len: "es \<le> length b" "\<And>i. i < es \<Longrightarrow> b ! i \<noteq> 0" using b by (auto simp: ends_at_def)
  have inside: "b' ! i = b ! i" if i: "q \<le> i" "i < e" for i
  proof -
    have "i \<notin> snd ` cmd_words c" using ok w(3) [OF i] i w(2) by (force simp: word_ok_def)
    then show ?thesis using nulterminate_nth [of c b i] i w(2) len(1) by (simp add: b')
  qed
  have "cstr (drop q b') = take (e - q) (drop q b')" unfolding cstr_def
  proof (rule takeWhile_drop)
    show "e \<le> length b'" using nulterminate_nth [of c b 0] w(2) len(1) by (simp add: b')
    show "\<not> b' ! e \<noteq> 0" if "e < length b'"
      using nulterminate_nth [of c b e] that image_eqI [of e snd, OF _ assms(2)] by (simp add: b')
    show "b' ! i \<noteq> 0" if "q \<le> i" "i < e" for i using inside [OF that] len(2) [of i] that w(2) by simp
  qed (use w in simp)
  also have "\<dots> = take (e - q) (drop q b)"
    by (rule nth_equalityI) (use inside w len nulterminate_nth [of c b 0] in \<open>auto simp: b'\<close>)
  finally show ?thesis using w by (simp add: es_def)
qed

text \<open>The line \<open>ls|wc>o\<close>.\<close>

theorem parsecmd_words_witness:
  "parsecmd (bytes ''ls|wc>o'' @ [0]) = Inr (PIPE (EXEC [(0, 2)]) (REDIR (EXEC [(3, 5)]) 6 7 (O_WRONLY OR O_CREATE) 1), bytes ''ls'' @ [0] @ bytes ''wc'' @ [0] @ bytes ''o'' @ [0])
    \<and> cstr (drop 3 (bytes ''ls'' @ [0] @ bytes ''wc'' @ [0] @ bytes ''o'' @ [0])) = bytes ''wc''"
proof -
  have "parsecmd (bytes ''ls|wc>o'' @ [0]) = Inr (PIPE (EXEC [(0, 2)]) (REDIR (EXEC [(3, 5)]) 6 7 (O_WRONLY OR O_CREATE) 1), bytes ''ls'' @ [0] @ bytes ''wc'' @ [0] @ bytes ''o'' @ [0])"
    by code_simp
  from this parsecmd_words [OF this, of 3 5] show ?thesis by (simp add: bytes_def)
qed

end
