(* ===== verification/Wc.thy ===== *)
theory Wc
  imports Ulib
begin

text \<open>
  \<^verbatim>\<open>wc.c\<close>: counting lines, words and characters of what \<open>read\<close> returns piece by piece. The counts do not depend on how the input is
  cut into pieces, and the count of words is that of the places where a word starts.
\<close>

record counts =
  l_wc :: uint
  w_wc :: uint
  c_wc :: uint
  inword :: bool

definition is_space :: "uchar \<Rightarrow> bool" where
  "is_space b \<longleftrightarrow> strchr [32, 13, 9, 10, 11] b \<noteq> None"

definition wc_char :: "uchar \<Rightarrow> counts \<Rightarrow> counts" where
  "wc_char b s =
    (let s = s\<lparr>c_wc := c_wc s + 1\<rparr>;
         s = (if b = 10 then s\<lparr>l_wc := l_wc s + 1\<rparr> else s)
     in if is_space b then s\<lparr>inword := False\<rparr>
        else if \<not> inword s then s\<lparr>w_wc := w_wc s + 1, inword := True\<rparr>
        else s)"

text \<open>The pieces that \<open>read\<close> returns, up to the end of the file; the output of a file with the given name.\<close>

definition wc :: "uchar list list \<Rightarrow> uchar list \<Rightarrow> kerror + uchar list" where
  "wc chunks name =
    (let s = fold (\<lambda>buf. fold wc_char buf) chunks \<lparr>l_wc = 0, w_wc = 0, c_wc = 0, inword = False\<rparr>
     in printf (\<lambda>_. name) (bytes ''%d %d %d %s'' @ [10]) [l_wc s, w_wc s, c_wc s, 1])"

lemma is_space: "is_space b \<longleftrightarrow> b \<in> {32, 13, 9, 10, 11}"
  by (auto simp: is_space_def)

text \<open>The positions at which a word starts.\<close>

definition word_starts :: "uchar list \<Rightarrow> nat set" where
  "word_starts xs = {i. i < length xs \<and> \<not> is_space (xs ! i) \<and> (i = 0 \<or> is_space (xs ! (i - 1)))}"

lemma word_starts_snoc:
  "word_starts (xs @ [b]) = word_starts xs \<union> (if \<not> is_space b \<and> (xs = [] \<or> is_space (last xs)) then {length xs} else {})"
  by (cases xs rule: rev_cases) (auto simp: word_starts_def nth_append less_Suc_eq split: if_splits)

lemma finite_word_starts [simp]: "finite (word_starts xs)"
  by (rule finite_subset [of _ "{..<length xs}"]) (auto simp: word_starts_def)

lemma wc_counts:
  "fold wc_char xs \<lparr>l_wc = 0, w_wc = 0, c_wc = 0, inword = False\<rparr> =
    \<lparr>l_wc = of_nat (count_list xs 10), w_wc = of_nat (card (word_starts xs)), c_wc = of_nat (length xs),
     inword = (xs \<noteq> [] \<and> \<not> is_space (last xs))\<rparr>"
proof (induction xs rule: rev_induct)
  case Nil
  then show ?case by (simp add: word_starts_def)
next
  case (snoc b xs)
  have "length xs \<notin> word_starts xs" by (simp add: word_starts_def)
  moreover have "is_space 10" by (simp add: is_space)
  ultimately show ?case using snoc by (auto simp: wc_char_def Let_def word_starts_snoc)
qed

lemma fold_chunks: "fold (\<lambda>buf. fold f buf) chunks s = fold f (concat chunks) s"
  by (induction chunks arbitrary: s) simp_all

text \<open>What \<open>wc\<close> prints is determined by the whole input.\<close>

lemma wc_correct:
  "wc chunks name = printf (\<lambda>_. name) (bytes ''%d %d %d %s'' @ [10])
     [of_nat (count_list (concat chunks) 10), of_nat (card (word_starts (concat chunks))), of_nat (length (concat chunks)), 1]"
  by (simp add: wc_def fold_chunks wc_counts)

end
