(* ===== verification/Ide.thy ===== *)
theory Ide
  imports Bio
begin

text \<open>
  \<^verbatim>\<open>ide.c\<close>, the driver of the disk, which replaces the memory disk of \<^verbatim>\<open>memide.c\<close> in the normal build. The controller is
  seen through its ports: \<open>inbs\<close> and \<open>insls\<close> are the bytes that the status port and the blocks that the data port will return,
  and \<open>outs\<close> is everything the driver has written. \<open>ata\<close> reads the commands off that sequence as the registers of the
  controller define them, and the queue of the driver is shown to give the controller the requests one at a time and in order.
\<close>

unbundle bit_operations_syntax

datatype ideout = Outb nat uchar | Outsl "uchar list"

record ide =
  idepid :: int
  idebufs :: "nat \<Rightarrow> buf"
  qnext :: "nat \<Rightarrow> nat option"
  idequeue :: "nat option"
  havedisk1 :: bool
  inbs :: "uchar list"
  insls :: "uchar list list"
  outs :: "ideout list"
  idewakeups :: "wchan list"

definition upd_idebuf :: "nat \<Rightarrow> (buf \<Rightarrow> buf) \<Rightarrow> ide \<Rightarrow> ide" where
  "upd_idebuf b f s = s\<lparr>idebufs := (idebufs s)(b := f (idebufs s b))\<rparr>"


section \<open>The driver\<close>

text \<open>The loop on the status port, and whether the disk reports no error.\<close>

fun idewait_loop :: "bool \<Rightarrow> uchar list \<Rightarrow> kerror + bool \<times> uchar list" where
  "idewait_loop checkerr [] = Inl Hang"
| "idewait_loop checkerr (r # rs) =
    (if r AND 0xC0 \<noteq> 0x40 then idewait_loop checkerr rs
     else Inr (\<not> (checkerr \<and> r AND 0x21 \<noteq> 0), rs))"

definition idewait :: "bool \<Rightarrow> ide \<Rightarrow> kerror + bool \<times> ide" where
  "idewait checkerr s = bindE (idewait_loop checkerr (inbs s)) (\<lambda>(ok, rs). Inr (ok, s\<lparr>inbs := rs\<rparr>))"

definition outb :: "nat \<Rightarrow> uchar \<Rightarrow> ide \<Rightarrow> ide" where
  "outb port v s = s\<lparr>outs := outs s @ [Outb port v]\<rparr>"

definition outsl :: "uchar list \<Rightarrow> ide \<Rightarrow> ide" where
  "outsl d s = s\<lparr>outs := outs s @ [Outsl d]\<rparr>"

fun ideprobe :: "nat \<Rightarrow> uchar list \<Rightarrow> bool \<times> uchar list" where
  "ideprobe 0 rs = (False, rs)"
| "ideprobe (Suc n) [] = (False, [])"
| "ideprobe (Suc n) (r # rs) = (if r \<noteq> 0 then (True, rs) else ideprobe n rs)"

definition ideinit_ide :: "ide \<Rightarrow> kerror + ide" where
  "ideinit_ide s =
    bindE (idewait False s) (\<lambda>(_, s).
      let s = outb 0x1f6 (0xe0 OR push_bit 4 1) s;
          (found, rs) = ideprobe 1000 (inbs s);
          s = s\<lparr>inbs := rs, havedisk1 := (if found then True else havedisk1 s)\<rparr>
      in Inr (outb 0x1f6 (0xe0 OR push_bit 4 0) s))"

definition idestart :: "nat option \<Rightarrow> ide \<Rightarrow> kerror + ide" where
  "idestart bp s =
    (case bp of None \<Rightarrow> Inl (Panic ''idestart'')
     | Some b \<Rightarrow>
       if b_blockno (idebufs s b) \<ge> of_nat FSSIZE then Inl (Panic ''incorrect blockno'')
       else
         let sector_per_block = 512 div 512;
             sector = b_blockno (idebufs s b) * sector_per_block;
             read_cmd = if sector_per_block = 1 then 0x20 else 0xc4;
             write_cmd = if sector_per_block = 1 then 0x30 else 0xc5
         in
           if sector_per_block > 7 then Inl (Panic ''idestart'')
           else
             bindE (idewait False s) (\<lambda>(_, s).
               let s = outb 0x3f6 0 s;
                   s = outb 0x1f2 (ucast sector_per_block) s;
                   s = outb 0x1f3 (ucast (sector AND 0xff)) s;
                   s = outb 0x1f4 (ucast (drop_bit 8 sector AND 0xff)) s;
                   s = outb 0x1f5 (ucast (drop_bit 16 sector AND 0xff)) s;
                   s = outb 0x1f6 (ucast (0xe0 OR push_bit 4 (b_dev (idebufs s b) AND 1) OR (drop_bit 24 sector AND 0x0f))) s
               in Inr (if b_dirty (idebufs s b)
                  then outsl (b_data (idebufs s b)) (outb 0x1f7 write_cmd s)
                  else outb 0x1f7 read_cmd s)))"

text \<open>A block that the data port returns has the size of the buffer.\<close>

definition insl :: "nat \<Rightarrow> ide \<Rightarrow> kerror + ide" where
  "insl b s =
    (case insls s of [] \<Rightarrow> Inl Hang
     | d # ds \<Rightarrow> Inr (upd_idebuf b (b_data_update (\<lambda>_. d)) (s\<lparr>insls := ds\<rparr>)))"

definition ideread :: "nat \<Rightarrow> ide \<Rightarrow> kerror + ide" where
  "ideread b s =
    (if b_dirty (idebufs s b) then Inr s
     else bindE (idewait True s) (\<lambda>(ok, s). if ok then insl b s else Inr s))"

definition ideintr :: "ide \<Rightarrow> kerror + ide" where
  "ideintr s =
    (case idequeue s of None \<Rightarrow> Inr s
     | Some b \<Rightarrow>
       let s = s\<lparr>idequeue := qnext s b\<rparr> in
       bindE (ideread b s) (\<lambda>s.
         let s = upd_idebuf b (\<lambda>x. x\<lparr>b_valid := True\<rparr>) s;
             s = upd_idebuf b (\<lambda>x. x\<lparr>b_dirty := False\<rparr>) s;
             s = s\<lparr>idewakeups := idewakeups s @ [ChDisk b]\<rparr>
         in if idequeue s \<noteq> None then idestart (idequeue s) s else Inr s))"

text \<open>The end of the queue: the last buffer, or \<open>None\<close> for the pointer \<open>idequeue\<close> itself.\<close>

partial_function (option) idetail :: "(nat \<Rightarrow> nat option) \<Rightarrow> nat option \<Rightarrow> nat option \<Rightarrow> nat option option" where
  "idetail nxt pp q = (case q of None \<Rightarrow> Some pp | Some b \<Rightarrow> idetail nxt (Some b) (nxt b))"

definition set_link :: "nat option \<Rightarrow> nat \<Rightarrow> ide \<Rightarrow> ide" where
  "set_link pp b s =
    (case pp of None \<Rightarrow> s\<lparr>idequeue := Some b\<rparr> | Some x \<Rightarrow> s\<lparr>qnext := (qnext s)(x := Some b)\<rparr>)"

text \<open>\<open>iderw\<close> up to its waiting loop, and one test of that loop.\<close>

definition iderw_submit :: "nat \<Rightarrow> ide \<Rightarrow> kerror + ide" where
  "iderw_submit b s =
    (let x = idebufs s b in
     if \<not> holdingsleep (idepid s) (b_lock x) then Inl (Panic ''iderw: buf not locked'')
     else if b_valid x \<and> \<not> b_dirty x then Inl (Panic ''iderw: nothing to do'')
     else if b_dev x \<noteq> 0 \<and> \<not> havedisk1 s then Inl (Panic ''iderw: ide disk 1 not present'')
     else
       let s = s\<lparr>qnext := (qnext s)(b := None)\<rparr> in
       case idetail (qnext s) None (idequeue s) of None \<Rightarrow> Inl Hang
       | Some pp \<Rightarrow>
         let s = set_link pp b s in
         if idequeue s = Some b then idestart (Some b) s else Inr s)"

definition iderw_wait :: "nat \<Rightarrow> ide \<Rightarrow> kerror + unit" where
  "iderw_wait b s =
    (if b_valid (idebufs s b) \<and> \<not> b_dirty (idebufs s b) then Inr () else Inl (Sleep (ChDisk b)))"


section \<open>The commands the controller gets\<close>

text \<open>
  The task-file registers: the sector count, the four parts of the sector number (the last with the drive in bit 4), and a
  command when the command register is written; the data of a write follows its command.
\<close>

record request =
  r_drive :: bool
  r_sector :: uint
  r_count :: uchar
  r_cmd :: uchar
  r_data :: "uchar list"

definition lba :: "uchar \<Rightarrow> uchar \<Rightarrow> uchar \<Rightarrow> uchar \<Rightarrow> uint" where
  "lba a b c d = ucast a OR push_bit 8 (ucast b) OR push_bit 16 (ucast c) OR push_bit 24 (ucast d AND 0x0f)"

fun ata :: "(nat \<Rightarrow> uchar) \<Rightarrow> ideout list \<Rightarrow> request list" where
  "ata r [] = []"
| "ata r (Outb p v # os) =
    (let r' = r(p := v) in
     if p = 0x1f7
     then \<lparr>r_drive = bit (r 0x1f6) 4, r_sector = lba (r 0x1f3) (r 0x1f4) (r 0x1f5) (r 0x1f6), r_count = r 0x1f2, r_cmd = v,
       r_data = (case os of Outsl d # _ \<Rightarrow> d | _ \<Rightarrow> [])\<rparr> # ata r' os
     else ata r' os)"
| "ata r (Outsl d # os) = ata r os"

text \<open>The command a buffer asks for.\<close>

definition request_of :: "buf \<Rightarrow> request" where
  "request_of x = \<lparr>r_drive = bit (b_dev x) 0, r_sector = b_blockno x, r_count = 1,
     r_cmd = (if b_dirty x then 0x30 else 0x20), r_data = (if b_dirty x then b_data x else [])\<rparr>"

lemma and_masks: "x AND 0xff = take_bit 8 x" "x AND 0x0f = take_bit 4 x" for x :: uint
  by (simp_all add: take_bit_eq_mask mask_eq_exp_minus_1)

lemma lba_sector:
  assumes "x < of_nat FSSIZE"
  shows "lba (ucast (x AND 0xff)) (ucast (drop_bit 8 x AND 0xff)) (ucast (drop_bit 16 x AND 0xff))
    (ucast (0xe0 OR push_bit 4 (y AND 1) OR (drop_bit 24 x AND 0x0f))) = (x :: uint)"
proof (rule bit_word_eqI)
  fix n
  have "x = take_bit 13 x"
    using assms by (intro iffD2 [OF word_unat_eq_iff]) (simp add: unsigned_take_bit_eq take_bit_nat_eq_self word_less_nat_alt)
  then have high: "\<not> bit x m" if "13 \<le> m" for m using that by (metis bit_take_bit_iff not_le)
  have low: "\<not> bit (0xe0 :: uint) m" if "m < 4" for m
  proof -
    have "m = 0 \<or> m = 1 \<or> m = 2 \<or> m = 3" using that by linarith
    then show ?thesis by (elim disjE) simp_all
  qed
  assume n: "n < LENGTH(32)"
  consider "n < 8" | "8 \<le> n" "n < 16" | "16 \<le> n" by linarith
  then show "bit (lba (ucast (x AND 0xff)) (ucast (drop_bit 8 x AND 0xff)) (ucast (drop_bit 16 x AND 0xff))
      (ucast (0xe0 OR push_bit 4 (y AND 1) OR (drop_bit 24 x AND 0x0f)))) n = bit x n"
    unfolding lba_def and_masks
    by cases (use n high low in \<open>auto simp: bit_simps\<close>)
qed


text \<open>What starting the request of a buffer writes.\<close>

definition drive_reg :: "buf \<Rightarrow> uchar" where
  "drive_reg x = ucast (0xe0 OR push_bit 4 (b_dev x AND 1) OR (drop_bit 24 (b_blockno x) AND 0x0f))"

definition start_outs :: "buf \<Rightarrow> ideout list" where
  "start_outs x =
    [Outb 0x3f6 0, Outb 0x1f2 1, Outb 0x1f3 (ucast (b_blockno x AND 0xff)), Outb 0x1f4 (ucast (drop_bit 8 (b_blockno x) AND 0xff)),
     Outb 0x1f5 (ucast (drop_bit 16 (b_blockno x) AND 0xff)),
     Outb 0x1f6 (drive_reg x)] @
    (if b_dirty x then [Outb 0x1f7 0x30, Outsl (b_data x)] else [Outb 0x1f7 0x20])"

lemma idestart_Inr:
  "idestart (Some b) s = Inr s' \<longleftrightarrow> b_blockno (idebufs s b) < of_nat FSSIZE \<and>
    (\<exists>ok rs. idewait_loop False (inbs s) = Inr (ok, rs) \<and> s' = s\<lparr>inbs := rs, outs := outs s @ start_outs (idebufs s b)\<rparr>)"
proof (cases "idewait_loop False (inbs s)")
  case (Inr p)
  then show ?thesis
    by (cases p) (auto simp: idestart_def idewait_def outb_def outsl_def start_outs_def drive_reg_def Let_def not_le)
qed (simp add: idestart_def idewait_def not_le)

lemma drive_bit: "bit (drive_reg x) 4 = bit (b_dev x) 0"
  unfolding drive_reg_def and_masks by (simp add: bit_simps)

lemma ata_start: "b_blockno x < of_nat FSSIZE \<Longrightarrow> ata r (start_outs x) = [request_of x]"
  using lba_sector [of "b_blockno x" "b_dev x", folded drive_reg_def]
  by (simp add: start_outs_def request_of_def drive_bit Let_def)

lemma ata_append_start: "ata r (os @ start_outs x) = ata r os @ ata (fold (\<lambda>x r. case x of Outb p v \<Rightarrow> r(p := v) | _ \<Rightarrow> r) os r) (start_outs x)"
proof (induction r os rule: ata.induct)
  case (2 r p v os)
  have "(case os @ start_outs x of Outsl d # _ \<Rightarrow> d | _ \<Rightarrow> []) = (case os of Outsl d # _ \<Rightarrow> d | _ \<Rightarrow> [])"
    by (cases os) (simp_all add: start_outs_def)
  then show ?case using 2 by (simp add: Let_def fun_upd_def)
qed simp_all

lemma ata_snoc: "b_blockno x < of_nat FSSIZE \<Longrightarrow> ata r (os @ start_outs x) = ata r os @ [request_of x]"
  by (simp add: ata_append_start ata_start)


section \<open>The queue\<close>

primrec queued :: "(nat \<Rightarrow> nat option) \<Rightarrow> nat option \<Rightarrow> nat list \<Rightarrow> bool" where
  "queued nxt q [] \<longleftrightarrow> q = None"
| "queued nxt q (b # bs) \<longleftrightarrow> q = Some b \<and> queued nxt (nxt b) bs"

lemma queued_upd [simp]: "b \<notin> set bs \<Longrightarrow> queued (nxt(b := x)) q bs = queued nxt q bs"
  by (induction bs arbitrary: q) auto

lemma queued_None: "queued nxt None bs \<longleftrightarrow> bs = []"
  by (cases bs) auto

lemma idetail_simps [simp]: "idetail nxt pp None = Some pp" "idetail nxt pp (Some b) = idetail nxt (Some b) (nxt b)"
  by (simp_all add: idetail.simps)

lemma idetail_queued: "queued nxt q bs \<Longrightarrow> idetail nxt pp q = Some (if bs = [] then pp else Some (last bs))"
  by (induction bs arbitrary: q pp) auto

lemma queued_snoc:
  "queued nxt q bs \<Longrightarrow> distinct bs \<Longrightarrow> bs \<noteq> [] \<Longrightarrow> b \<notin> set bs \<Longrightarrow> nxt b = None \<Longrightarrow>
    queued (nxt(last bs := Some b)) q (bs @ [b])"
  by (induction bs arbitrary: q) auto

text \<open>
  The interleaving of the processes and the controller: \<open>W\<close> are the buffers whose process is in \<open>iderw\<close>, \<open>A\<close> those of them whose
  process is asleep, with the channel it sleeps on, and \<open>R\<close> the requests made so far with their buffers. The wakeups that an
  interrupt asks for end the sleep of the processes on these channels and of no others. The sleep lock of a buffer lets only one process
  use it, so a buffer in \<open>W\<close> is not submitted again and does not change.
\<close>

definition new_wakeups :: "ide \<Rightarrow> ide \<Rightarrow> wchan list" where
  "new_wakeups s s' = drop (length (idewakeups s)) (idewakeups s')"

inductive ide_reach :: "ide \<Rightarrow> ide \<Rightarrow> nat set \<Rightarrow> (nat \<times> wchan) set \<Rightarrow> (nat \<times> request) list \<Rightarrow> bool" for s0 where
  start: "ide_reach s0 s0 {} {} []"
| submit: "ide_reach s0 s W A R \<Longrightarrow> b \<notin> W \<Longrightarrow> iderw_submit b s = Inr s' \<Longrightarrow>
    ide_reach s0 s' (insert b W) A (R @ [(b, request_of (idebufs s b))])"
| wait: "ide_reach s0 s W A R \<Longrightarrow> b \<in> W \<Longrightarrow> b \<notin> fst ` A \<Longrightarrow> iderw_wait b s = Inl (Sleep ch) \<Longrightarrow>
    ide_reach s0 s W (insert (b, ch) A) R"
| interrupt: "ide_reach s0 s W A R \<Longrightarrow> ideintr s = Inr s' \<Longrightarrow>
    ide_reach s0 s' W {x \<in> A. snd x \<notin> set (new_wakeups s s')} R"
| finish: "ide_reach s0 s W A R \<Longrightarrow> b \<in> W \<Longrightarrow> b \<notin> fst ` A \<Longrightarrow> iderw_wait b s = Inr () \<Longrightarrow> ide_reach s0 s (W - {b}) A R"
| use: "ide_reach s0 s W A R \<Longrightarrow> b \<notin> W \<Longrightarrow> ide_reach s0 (upd_idebuf b f s) W A R"
| device: "ide_reach s0 s W A R \<Longrightarrow> ide_reach s0 (s\<lparr>inbs := rs, insls := ds\<rparr>) W A R"
| switch: "ide_reach s0 s W A R \<Longrightarrow> ide_reach s0 (s\<lparr>idepid := p\<rparr>) W A R"

definition ide_waits :: "ide \<Rightarrow> nat \<Rightarrow> bool" where
  "ide_waits s b \<longleftrightarrow> \<not> (b_valid (idebufs s b) \<and> \<not> b_dirty (idebufs s b))"

definition ide_inv :: "(nat \<Rightarrow> uchar) \<Rightarrow> ide \<Rightarrow> nat set \<Rightarrow> request list \<Rightarrow> nat list \<Rightarrow> bool" where
  "ide_inv r s W R q \<longleftrightarrow> queued (qnext s) (idequeue s) q \<and> distinct q \<and> set q \<subseteq> W \<and>
    (\<forall>b \<in> W. b \<in> set q \<longleftrightarrow> ide_waits s b) \<and>
    R = ata r (outs s) @ map (\<lambda>b. request_of (idebufs s b)) (tl q) \<and>
    (q \<noteq> [] \<longrightarrow> ata r (outs s) \<noteq> [] \<and> last (ata r (outs s)) = request_of (idebufs s (hd q)))"

lemma iderw_wait_waits: "iderw_wait b s = (if ide_waits s b then Inl (Sleep (ChDisk b)) else Inr ())"
  by (auto simp: iderw_wait_def ide_waits_def)

lemma submit_inv:
  assumes inv: "ide_inv r s W R q" and b: "b \<notin> W" and s': "iderw_submit b s = Inr s'"
  shows "ide_inv r s' (insert b W) (R @ [request_of (idebufs s b)]) (q @ [b])"
proof -
  have bq: "b \<notin> set q" using inv b by (auto simp: ide_inv_def)
  have q: "queued ((qnext s)(b := None)) (idequeue s) q" using inv bq by (simp add: ide_inv_def)
  have w: "ide_waits s b" using s' by (auto simp: iderw_submit_def ide_waits_def Let_def split: if_splits)
  show ?thesis
  proof (cases "q = []")
    case True
    then have "idestart (Some b) (s\<lparr>qnext := (qnext s)(b := None), idequeue := Some b\<rparr>) = Inr s'"
      using s' idetail_queued [OF q, of None] by (simp add: iderw_submit_def Let_def set_link_def split: if_splits)
    then show ?thesis using inv True w by (auto simp: ide_inv_def idestart_Inr ata_snoc ide_waits_def)
  next
    case False
    then have "hd q \<noteq> b" using bq hd_in_set by metis
    moreover have "idequeue s = Some (hd q)" using q False by (cases q) auto
    ultimately have "s' = s\<lparr>qnext := (qnext s)(b := None, last q := Some b)\<rparr>"
      using s' False idetail_queued [OF q, of None] by (simp add: iderw_submit_def Let_def set_link_def split: if_splits)
    moreover have "queued ((qnext s)(b := None, last q := Some b)) (idequeue s) (q @ [b])"
      by (rule queued_snoc [OF q]) (use inv False bq in \<open>auto simp: ide_inv_def\<close>)
    ultimately show ?thesis using inv False w b by (auto simp: ide_inv_def ide_waits_def)
  qed
qed

lemma ideread_frame:
  assumes "ideread b s = Inr s'"
  shows "\<exists>d rs ds. s' = upd_idebuf b (\<lambda>x. x\<lparr>b_data := d\<rparr>) (s\<lparr>inbs := rs, insls := ds\<rparr>)"
proof -
  have nop: "\<exists>d rs' ds. s\<lparr>inbs := rs\<rparr> = upd_idebuf b (\<lambda>x. x\<lparr>b_data := d\<rparr>) (s\<lparr>inbs := rs', insls := ds\<rparr>)" for rs
    by (rule exI [of _ "b_data (idebufs s b)"], rule exI [of _ rs], rule exI [of _ "insls s"]) (simp add: upd_idebuf_def)
  show ?thesis
    using assms nop [of "inbs s"] nop
    by (fastforce simp: ideread_def idewait_def insl_def bindE_eq_Inr upd_idebuf_def split: if_splits list.splits)
qed

lemma intr_inv:
  assumes inv: "ide_inv r s W R q" and s': "ideintr s = Inr s'"
  shows "ide_inv r s' W R (tl q)"
proof (cases q)
  case Nil
  then show ?thesis using inv s' by (auto simp: ide_inv_def ideintr_def)
next
  case (Cons b bs)
  have b: "idequeue s = Some b" "queued (qnext s) (qnext s b) bs" "b \<notin> set bs" using inv Cons by (auto simp: ide_inv_def)
  obtain s1 where s1: "ideread b (s\<lparr>idequeue := qnext s b\<rparr>) = Inr s1"
    and s'1: "(let s = upd_idebuf b (\<lambda>x. x\<lparr>b_dirty := False\<rparr>) (upd_idebuf b (\<lambda>x. x\<lparr>b_valid := True\<rparr>) s1);
         s = s\<lparr>idewakeups := idewakeups s @ [ChDisk b]\<rparr>
         in if idequeue s \<noteq> None then idestart (idequeue s) s else Inr s) = Inr s'"
    using s' b by (auto simp: ideintr_def bindE_eq_Inr Let_def)
  obtain d rs ds where e: "s1 = upd_idebuf b (\<lambda>x. x\<lparr>b_data := d\<rparr>) (s\<lparr>idequeue := qnext s b, inbs := rs, insls := ds\<rparr>)"
    using ideread_frame [OF s1] by auto
  show ?thesis
  proof (cases bs)
    case Nil
    then have "idequeue s1 = None" using b e by (simp add: upd_idebuf_def)
    then show ?thesis using inv Cons Nil s'1 e b by (auto simp: ide_inv_def ide_waits_def upd_idebuf_def Let_def)
  next
    case (Cons b' bs')
    then have q1: "idequeue s1 = Some b'" and ne: "b' \<noteq> b" using b e by (auto simp: upd_idebuf_def)
    define x where "x = (idebufs s b)\<lparr>b_data := d, b_valid := True, b_dirty := False\<rparr>"
    have s'2: "b_blockno (idebufs s b') < of_nat FSSIZE \<and> qnext s' = qnext s \<and> idequeue s' = qnext s b \<and>
        outs s' = outs s @ start_outs (idebufs s b') \<and> idebufs s' = (idebufs s)(b := x)"
      using s'1 q1 ne e by (auto simp: upd_idebuf_def Let_def idestart_Inr x_def)
    have "b_valid x" "\<not> b_dirty x" by (simp_all add: x_def)
    moreover have "b \<notin> set bs'" using b(3) Cons by simp
    ultimately show ?thesis using inv \<open>q = b # bs\<close> Cons s'2 ne b(2)
      by (simp add: ide_inv_def ide_waits_def ata_snoc) blast
  qed
qed

lemma use_inv:
  assumes q: "ide_inv r s W R q" and b: "b \<notin> W"
  shows "ide_inv r (upd_idebuf b f s) W R q"
proof -
  have "idebufs (upd_idebuf b f s) c = idebufs s c" if "c \<in> W" for c using that b by (auto simp: upd_idebuf_def)
  moreover have "set (tl q) \<subseteq> W" "q \<noteq> [] \<Longrightarrow> hd q \<in> W" using q by (cases q; auto simp: ide_inv_def)+
  ultimately have "map (\<lambda>b. request_of (idebufs s b)) (tl q) = map (\<lambda>c. request_of (idebufs (upd_idebuf b f s) c)) (tl q)"
    "q \<noteq> [] \<Longrightarrow> idebufs (upd_idebuf b f s) (hd q) = idebufs s (hd q)" "\<And>c. c \<in> W \<Longrightarrow> ide_waits (upd_idebuf b f s) c = ide_waits s c"
    by (auto simp: ide_waits_def)
  then show ?thesis using q unfolding ide_inv_def by (simp add: upd_idebuf_def)
qed

text \<open>
  The wakeups: those asked for are the ones of the requests that are no longer queued, in order, and a process that sleeps is waiting
  for one that is still queued.
\<close>

definition wake_inv :: "wchan list \<Rightarrow> ide \<Rightarrow> (nat \<times> wchan) set \<Rightarrow> (nat \<times> request) list \<Rightarrow> nat list \<Rightarrow> bool" where
  "wake_inv w0 s A R q \<longleftrightarrow> idewakeups s @ map ChDisk q = w0 @ map (\<lambda>x. ChDisk (fst x)) R \<and>
    (\<forall>x \<in> A. snd x = ChDisk (fst x) \<and> fst x \<in> set q)"

lemma submit_wake:
  assumes "wake_inv w0 s A R q" and "iderw_submit b s = Inr s'"
  shows "wake_inv w0 s' A (R @ [(b, x)]) (q @ [b])"
proof -
  have "idewakeups s' = idewakeups s"
    using assms(2) by (auto simp: iderw_submit_def Let_def set_link_def idestart_Inr split: if_splits option.splits)
  then show ?thesis using assms(1) by (auto simp: wake_inv_def)
qed

lemma ideintr_wakeups:
  assumes "ideintr s = Inr s'" and "queued (qnext s) (idequeue s) q"
  shows "idewakeups s' = idewakeups s @ map ChDisk (take 1 q)"
proof (cases q)
  case Nil
  then show ?thesis using assms by (simp add: ideintr_def)
next
  case (Cons b bs)
  then have b: "idequeue s = Some b" using assms(2) by simp
  obtain s1 where s1: "ideread b (s\<lparr>idequeue := qnext s b\<rparr>) = Inr s1"
    and s': "(let s = upd_idebuf b (\<lambda>x. x\<lparr>b_dirty := False\<rparr>) (upd_idebuf b (\<lambda>x. x\<lparr>b_valid := True\<rparr>) s1);
         s = s\<lparr>idewakeups := idewakeups s @ [ChDisk b]\<rparr>
         in if idequeue s \<noteq> None then idestart (idequeue s) s else Inr s) = Inr s'"
    using assms(1) b by (auto simp: ideintr_def bindE_eq_Inr Let_def)
  have "idewakeups s1 = idewakeups s" using ideread_frame [OF s1] by (auto simp: upd_idebuf_def)
  then show ?thesis using s' Cons by (auto simp: Let_def upd_idebuf_def idestart_Inr split: if_splits)
qed

lemma intr_wake:
  assumes "wake_inv w0 s A R q" and "ideintr s = Inr s'" and "queued (qnext s) (idequeue s) q"
  shows "wake_inv w0 s' {x \<in> A. snd x \<notin> set (new_wakeups s s')} R (tl q)"
  using assms(1) ideintr_wakeups [OF assms(2,3)] by (cases q) (auto simp: wake_inv_def new_wakeups_def)

lemma ide_reach_inv:
  "ide_reach s0 s W A R \<Longrightarrow> idequeue s0 = None \<Longrightarrow> ata r (outs s0) = [] \<Longrightarrow>
    \<exists>q. ide_inv r s W (map snd R) q \<and> wake_inv (idewakeups s0) s A R q"
proof (induction rule: ide_reach.induct)
  case start
  then show ?case by (intro exI [of _ "[]"]) (simp add: ide_inv_def wake_inv_def)
next
  case (submit s W A R b s')
  then obtain q where q: "ide_inv r s W (map snd R) q" "wake_inv (idewakeups s0) s A R q" by blast
  show ?case using submit_inv [OF q(1) submit(2,3)] submit_wake [OF q(2) submit(3)] by auto
next
  case (wait s W A R b ch)
  then obtain q where q: "ide_inv r s W (map snd R) q" "wake_inv (idewakeups s0) s A R q" by blast
  have "b \<in> set q" "ch = ChDisk b" using q(1) wait(2,4) by (auto simp: ide_inv_def iderw_wait_waits split: if_splits)
  then show ?case using q by (intro exI [of _ q]) (simp add: wake_inv_def)
next
  case (interrupt s W A R s')
  then obtain q where q: "ide_inv r s W (map snd R) q" "wake_inv (idewakeups s0) s A R q" by blast
  then show ?case using intr_inv [OF q(1) interrupt(2)] intr_wake [OF q(2) interrupt(2)] by (auto simp: ide_inv_def)
next
  case (finish s W A R b)
  then obtain q where q: "ide_inv r s W (map snd R) q" "wake_inv (idewakeups s0) s A R q" by blast
  then have "ide_inv r s (W - {b}) (map snd R) q" using finish(2,4) by (auto simp: ide_inv_def iderw_wait_waits split: if_splits)
  then show ?case using q(2) by blast
next
  case (use s W A R b f)
  then obtain q where q: "ide_inv r s W (map snd R) q" "wake_inv (idewakeups s0) s A R q" by blast
  have "ide_inv r (upd_idebuf b f s) W (map snd R) q" using q(1) use(2) by (rule use_inv)
  then show ?case using q(2) by (auto simp: wake_inv_def upd_idebuf_def)
qed (auto simp: ide_inv_def ide_waits_def wake_inv_def)

lemma ideinit_outs:
  assumes "ideinit_ide z = Inr s0"
  shows "\<exists>rs h. s0 = z\<lparr>inbs := rs, havedisk1 := h, outs := outs z @ [Outb 0x1f6 0xf0, Outb 0x1f6 0xe0]\<rparr>"
proof (cases "idewait_loop False (inbs z)")
  case (Inr p)
  obtain ok rs where p: "p = (ok, rs)" by (cases p)
  obtain f rs' where "ideprobe 1000 rs = (f, rs')" by (cases "ideprobe 1000 rs")
  then have "s0 = z\<lparr>inbs := rs', havedisk1 := (if f then True else havedisk1 z), outs := outs z @ [Outb 0x1f6 0xf0, Outb 0x1f6 0xe0]\<rparr>"
    using assms Inr p by (cases f) (auto simp: ideinit_ide_def idewait_def outb_def Let_def)
  then show ?thesis by blast
qed (use assms in \<open>simp add: ideinit_ide_def idewait_def\<close>)

text \<open>
  C8. However processes and interrupts interleave, the controller gets the requests one at a time, in the order in which
  they were made and each for the sector, direction and data of its buffer; the queue links the buffers still to be served, the
  first of which is the one under way, and exactly the processes whose buffer is queued still have to wait. The handler has woken the
  channel of every request that has been served, in order, and no other; and no wakeup is lost: a process that is asleep sleeps on
  the channel of its buffer, and that buffer is still queued.
\<close>

theorem ide_in_order:
  assumes "ideinit_ide z = Inr s0" and "idequeue z = None" and "outs z = []" and "ide_reach s0 s W A R"
  shows "\<exists>q. queued (qnext s) (idequeue s) q \<and> distinct q \<and> set q \<subseteq> W \<and>
    (\<forall>b \<in> W. b \<in> set q \<longleftrightarrow> iderw_wait b s = Inl (Sleep (ChDisk b))) \<and>
    map snd R = ata r (outs s) @ map (\<lambda>b. request_of (idebufs s b)) (tl q) \<and>
    (q \<noteq> [] \<longrightarrow> ata r (outs s) \<noteq> [] \<and> last (ata r (outs s)) = request_of (idebufs s (hd q))) \<and>
    idewakeups s @ map ChDisk q = idewakeups z @ map (\<lambda>x. ChDisk (fst x)) R \<and>
    (\<forall>x \<in> A. snd x = ChDisk (fst x) \<and> fst x \<in> set q)"
proof -
  have z: "idequeue s0 = None" "ata r (outs s0) = []" "idewakeups s0 = idewakeups z"
    using ideinit_outs [OF assms(1)] assms(2,3) by auto
  obtain q where "ide_inv r s W (map snd R) q" "wake_inv (idewakeups s0) s A R q"
    using ide_reach_inv [OF assms(4) z(1,2)] by blast
  then show ?thesis using z(3) by (intro exI [of _ q]) (auto simp: ide_inv_def wake_inv_def iderw_wait_waits)
qed

text \<open>Two processes: one reads block 7, the other writes block 8 behind it.\<close>

definition two_requests :: ide where
  "two_requests = \<lparr>idepid = 1, idebufs = (\<lambda>b. zero_buf\<lparr>b_dirty := (b = 1), b_blockno := of_nat (7 + b), b_lock := \<lparr>sl_locked = True, sl_pid = 1\<rparr>\<rparr>),
     qnext = (\<lambda>_. None), idequeue = None, havedisk1 = False, inbs = [0x80, 0x40, 0x50, 0x40, 0x40, 0x40], insls = [replicate 512 1], outs = [],
     idewakeups = []\<rparr>"

lemma ideprobe_first: "r \<noteq> 0 \<Longrightarrow> ideprobe 1000 (r # rs) = (True, rs)"
  using ideprobe.simps(3) [of 999 r rs] by simp

text \<open>Both processes have gone to sleep before the first interrupt, which wakes the first of them.\<close>

lemma two_requests_run:
  "\<exists>s0 s A. ideinit_ide two_requests = Inr s0 \<and>
    ide_reach s0 s {1, 0} A [(0, request_of (idebufs two_requests 0)), (1, request_of (idebufs two_requests 1))] \<and>
    idequeue s = Some 1 \<and> qnext s 1 = None"
proof -
  let ?s = "\<lambda>q rs os. two_requests\<lparr>idequeue := q, inbs := rs, havedisk1 := True, outs := [Outb 0x1f6 0xf0, Outb 0x1f6 0xe0] @ os\<rparr>"
  let ?o = "start_outs (idebufs two_requests 0)"
  let ?t = "(?s (Some 0) [0x40, 0x40] ?o)\<lparr>qnext := (\<lambda>_. None)(0 := Some 1)\<rparr>"
  have 0: "ideinit_ide two_requests = Inr (?s None [0x40, 0x40, 0x40] [])"
    by (simp add: two_requests_def ideinit_ide_def idewait_def outb_def Let_def ideprobe_first)
  have 1: "iderw_submit 0 (?s None [0x40, 0x40, 0x40] []) = Inr (?s (Some 0) [0x40, 0x40] ?o)"
    by (simp add: two_requests_def iderw_submit_def zero_buf_def Let_def holdingsleep_def set_link_def idestart_Inr fun_upd_def ex_bool_eq)
  have 2: "iderw_submit 1 (?s (Some 0) [0x40, 0x40] ?o) = Inr ?t"
    by (simp add: two_requests_def iderw_submit_def zero_buf_def Let_def holdingsleep_def set_link_def fun_upd_def)
  have w: "iderw_wait 0 ?t = Inl (Sleep (ChDisk 0))" "iderw_wait 1 ?t = Inl (Sleep (ChDisk 1))"
    by (simp_all add: iderw_wait_def two_requests_def zero_buf_def)
  have "\<exists>s. ideintr ?t = Inr s \<and> idequeue s = Some 1 \<and> qnext s 1 = None"
    by (simp add: two_requests_def ideintr_def ideread_def idewait_def insl_def zero_buf_def upd_idebuf_def Let_def idestart_Inr ex_bool_eq)
  then obtain s where 3: "ideintr ?t = Inr s" "idequeue s = Some 1" "qnext s 1 = None" by blast
  note r = ide_reach.submit [OF ide_reach.submit [OF ide_reach.start _ 1] _ 2]
  note ide_reach.interrupt [OF ide_reach.wait [OF ide_reach.wait [OF r _ _ w(1)] _ _ w(2)] 3(1)]
  then show ?thesis using 0 3 by (fastforce simp: two_requests_def)
qed

theorem ide_in_order_witness:
  "\<exists>s0 s A. ideinit_ide two_requests = Inr s0 \<and>
    ide_reach s0 s {1, 0} A [(0, request_of (idebufs two_requests 0)), (1, request_of (idebufs two_requests 1))] \<and>
    ata (\<lambda>_. 0) (outs s) = [request_of (idebufs two_requests 0), request_of (idebufs two_requests 1)] \<and>
    idewakeups s = [ChDisk 0] \<and> 0 \<notin> fst ` A"
proof -
  let ?R = "[(0, request_of (idebufs two_requests 0)), (1, request_of (idebufs two_requests 1))]"
  obtain s0 s A where s: "ideinit_ide two_requests = Inr s0" "idequeue s = Some 1" "qnext s 1 = None" "ide_reach s0 s {1, 0} A ?R"
    using two_requests_run by blast
  have z: "idequeue two_requests = None" "outs two_requests = []" "idewakeups two_requests = []" by (simp_all add: two_requests_def)
  obtain q where q: "queued (qnext s) (idequeue s) q"
    "map snd ?R = ata (\<lambda>_. 0) (outs s) @ map (\<lambda>b. request_of (idebufs s b)) (tl q)"
    "idewakeups s @ map ChDisk q = map (\<lambda>x. ChDisk (fst x)) ?R" "\<forall>x \<in> A. fst x \<in> set q"
    using ide_in_order [OF s(1) z(1,2) s(4), of "\<lambda>_. 0"] z(3) by auto
  have "q = [1]" using q(1) s(2,3) by (cases q) (auto simp: queued_None)
  then show ?thesis using s(1,4) q(2,3,4) by (intro exI [of _ s0] exI [of _ s] exI [of _ A]) auto
qed

end
