(* ===== verification/Kbd.thy ===== *)
theory Kbd
  imports Trap
begin

text \<open>
  The keyboard driver of \<^verbatim>\<open>kbd.c\<close> with the tables of \<^verbatim>\<open>kbd.h\<close>, and the input side of \<^verbatim>\<open>uart.c\<close>. The bytes that
  the two controllers will deliver are a list; an interrupt hands the characters they give to \<open>consoleintr\<close>.
\<close>

unbundle bit_operations_syntax

section \<open>Tables\<close>

abbreviation (input) SHIFT :: uint where "SHIFT \<equiv> 1"
abbreviation (input) CTL :: uint where "CTL \<equiv> 2"
abbreviation (input) ALT :: uint where "ALT \<equiv> 4"
abbreviation (input) CAPSLOCK :: uint where "CAPSLOCK \<equiv> 8"
abbreviation (input) NUMLOCK :: uint where "NUMLOCK \<equiv> 16"
abbreviation (input) SCROLLLOCK :: uint where "SCROLLLOCK \<equiv> 32"
abbreviation (input) E0ESC :: uint where "E0ESC \<equiv> 64"

text \<open>An array of 256 bytes from the initialisers at its start and the designated ones.\<close>

definition table :: "uchar list \<Rightarrow> (nat \<times> uchar) list \<Rightarrow> uchar list" where
  "table xs ds = fold (\<lambda>(i, v) xs. xs[i := v]) ds (xs @ replicate (256 - length xs) 0)"

lemma length_table: "length xs \<le> 256 \<Longrightarrow> length (table xs ds) = 256"
proof -
  have "length (fold (\<lambda>(i, v) xs. xs[i := v]) ds ys) = length ys" for ys :: "uchar list"
    by (induction ds arbitrary: ys) auto
  then show "length xs \<le> 256 \<Longrightarrow> length (table xs ds) = 256" by (simp add: table_def)
qed

definition shiftcode :: "uchar list" where
  "shiftcode = table [] [(0x1D, 2), (0x2A, 1), (0x36, 1), (0x38, 4), (0x9D, 2), (0xB8, 4)]"

definition togglecode :: "uchar list" where
  "togglecode = table [] [(0x3A, 8), (0x45, 16), (0x46, 32)]"

definition keypad :: "uchar list" where
  "keypad = replicate 13 0 @ bytes ''789-456+1230.''"

definition special_keys :: "(nat \<times> uchar) list" where
  "special_keys = [(0xC8, 0xE2), (0xD0, 0xE3), (0xC9, 0xE6), (0xD1, 0xE7), (0xCB, 0xE4), (0xCD, 0xE5),
     (0x97, 0xE0), (0xCF, 0xE1), (0xD2, 0xE8), (0xD3, 0xE9)]"

definition normalmap :: "uchar list" where
  "normalmap = table
     ([0, 0x1B] @ bytes ''1234567890-='' @ [8, 9] @ bytes ''qwertyuiop[]'' @ [10, 0] @ bytes ''asdfghjkl;'' @ [39, 96, 0, 92] @
      bytes ''zxcvbnm,./'' @ [0, 42, 0, 32] @ keypad)
     ([(0x9C, 10), (0xB5, 47)] @ special_keys)"

definition shiftmap :: "uchar list" where
  "shiftmap = table
     ([0, 0x1B] @ bytes ''!@#$%^&*()_+'' @ [8, 9] @ bytes ''QWERTYUIOP{}'' @ [10, 0] @ bytes ''ASDFGHJKL:'' @ [34, 126, 0, 124] @
      bytes ''ZXCVBNM<>?'' @ [0, 42, 0, 32] @ keypad)
     ([(0x9C, 10), (0xB5, 47)] @ special_keys)"

definition C_key :: "uchar \<Rightarrow> uchar" where
  "C_key x = x - 64"

definition ctlmap :: "uchar list" where
  "ctlmap = table
     (replicate 16 0 @ map C_key (bytes ''QWERTYUIOP'') @ [0, 0, 13, 0] @ map C_key (bytes ''ASDFGHJKL'') @ [0, 0, 0, 0, C_key 92] @
      map C_key (bytes ''ZXCVBNM'') @ [0, 0, C_key 47, 0, 0])
     ([(0x9C, 13), (0xB5, C_key 47)] @ special_keys)"


section \<open>The driver\<close>

definition charcode :: "uint \<Rightarrow> uchar list" where
  "charcode i = [normalmap, shiftmap, ctlmap, ctlmap] ! unat i"

text \<open>From the bytes of the status and the data port: the result, negative when there is no character, and the new \<open>shift\<close>.\<close>

definition kbd_key :: "uchar \<Rightarrow> uint \<Rightarrow> uint \<times> uint" where
  "kbd_key d shift =
    (let shift = shift OR ucast (shiftcode ! unat d);
         shift = shift XOR ucast (togglecode ! unat d);
         c = ucast (charcode (shift AND (CTL OR SHIFT)) ! unat d) :: uint;
         c = (if shift AND CAPSLOCK \<noteq> 0
              then (if 97 \<le> c \<and> c \<le> 122 then c + (65 - 97) else if 65 \<le> c \<and> c \<le> 90 then c + (97 - 65) else c)
              else c)
     in (c, shift))"

definition kbdgetc :: "uchar \<Rightarrow> uchar \<Rightarrow> uint \<Rightarrow> uint option \<times> uint" where
  "kbdgetc st d shift =
    (if st AND 1 = 0 then (None, shift)
     else if d = 0xE0 then (Some 0, shift OR E0ESC)
     else if d AND 0x80 \<noteq> 0 then
       let d = (if shift AND E0ESC \<noteq> 0 then d else d AND 0x7F)
       in (Some 0, shift AND NOT (ucast (shiftcode ! unat d) OR E0ESC))
     else if shift AND E0ESC \<noteq> 0 then
       (case kbd_key (d OR 0x80) (shift AND NOT E0ESC) of (c, shift) \<Rightarrow> (Some c, shift))
     else (case kbd_key d shift of (c, shift) \<Rightarrow> (Some c, shift)))"

text \<open>The calls of \<open>consoleintr\<close> until the controller has no more data.\<close>

fun kbd_chars :: "uchar list \<Rightarrow> uint \<Rightarrow> uint list \<times> uint" where
  "kbd_chars [] shift = ([], shift)"
| "kbd_chars (d # ds) shift =
    (case kbdgetc 1 d shift of
       (None, shift) \<Rightarrow> ([], shift)
     | (Some c, shift) \<Rightarrow> (case kbd_chars ds shift of (cs, shift) \<Rightarrow> (c # cs, shift)))"

definition kbdintr :: "(nat \<Rightarrow> uint) \<Rightarrow> uchar list \<Rightarrow> uint \<times> kst \<Rightarrow> kerror + uint \<times> kst" where
  "kbdintr ebp ds = (\<lambda>(shift, s).
    case kbd_chars ds shift of (cs, shift) \<Rightarrow> bindE (kconsoleintr ebp cs s) (\<lambda>s. Inr (shift, s)))"

definition uartgetc :: "bool \<Rightarrow> uchar \<Rightarrow> uchar \<Rightarrow> uint option" where
  "uartgetc uart_on st d = (if \<not> uart_on then None else if st AND 1 = 0 then None else Some (ucast d))"

fun uart_chars :: "bool \<Rightarrow> uchar list \<Rightarrow> uint list" where
  "uart_chars u [] = []"
| "uart_chars u (d # ds) = (case uartgetc u 1 d of None \<Rightarrow> [] | Some c \<Rightarrow> c # uart_chars u ds)"

definition uartintr :: "(nat \<Rightarrow> uint) \<Rightarrow> uchar list \<Rightarrow> kst \<Rightarrow> kerror + kst" where
  "uartintr ebp ds s = kconsoleintr ebp (uart_chars (uart (cons (fsys (fil s)))) ds) s"

text \<open>The output of \<open>uartinit\<close> on the ports is not modelled; \<open>st\<close> is the status it reads.\<close>

definition uartinit :: "uchar \<Rightarrow> console \<Rightarrow> console" where
  "uartinit st s =
    (if st = 0xFF then s
     else fold (\<lambda>c. uartputc (ucast c)) (bytes ''xv6...'' @ [10]) (s\<lparr>uart := True\<rparr>))"


section \<open>What the keys give\<close>

lemma table_lengths [simp]:
  "length shiftcode = 256" "length togglecode = 256" "length normalmap = 256" "length shiftmap = 256" "length ctlmap = 256"
  by (simp_all add: shiftcode_def togglecode_def normalmap_def shiftmap_def ctlmap_def length_table keypad_def bytes_def)

definition is_letter :: "nat \<Rightarrow> bool" where
  "is_letter d \<longleftrightarrow> 97 \<le> normalmap ! d \<and> normalmap ! d \<le> 122"

lemma letters_tables:
  "list_all (\<lambda>(n, sh, ct, sc, tg). (97 \<le> n \<and> n \<le> 122) \<longrightarrow> sh = n - 32 \<and> ct = n - 96 \<and> sc = 0 \<and> tg = 0)
     (zip normalmap (zip shiftmap (zip ctlmap (zip shiftcode togglecode))))"
  by code_simp


lemma letters_plain: "list_all (\<lambda>n. \<not> (97 \<le> n \<and> n \<le> 122)) (drop 128 normalmap)"
  by code_simp

lemma letter_tables:
  assumes "is_letter d" and "d < 256"
  shows "shiftmap ! d = normalmap ! d - 32" "ctlmap ! d = normalmap ! d - 96" "shiftcode ! d = 0" "togglecode ! d = 0" "d < 128"
proof -
  show "shiftmap ! d = normalmap ! d - 32" "ctlmap ! d = normalmap ! d - 96" "shiftcode ! d = 0" "togglecode ! d = 0"
    using letters_tables [unfolded list_all_length, rule_format, of d] assms by (simp_all add: is_letter_def)
  show "d < 128"
  proof (rule ccontr)
    assume "\<not> d < 128"
    then have "128 \<le> d" "d - 128 < length (drop 128 normalmap)" using assms(2) by auto
    then show False using letters_plain [unfolded list_all_length, rule_format, of "d - 128"] assms(1) by (simp add: is_letter_def)
  qed
qed

lemma unat_uchar: "unat (n :: uchar) < 256"
  using unsigned_less [of n, where ?'a = nat] by simp

lemma unat_ucast_uint: "unat (ucast n :: uint) = unat (n :: uchar)"
  using unat_uchar [of n] by (simp add: unsigned_ucast_eq take_bit_nat_eq_self)

lemma letter_case:
  fixes n :: uchar
  assumes "97 \<le> n" and "n \<le> 122"
  shows "(97 :: uint) \<le> ucast n" "ucast n \<le> (122 :: uint)" "ucast (n - 32) = (ucast n - 32 :: uint)" "ucast (n - 96) = (ucast n - 96 :: uint)"
    "(65 :: uint) \<le> ucast n - 32" "ucast n - 32 \<le> (90 :: uint)" "\<not> 97 \<le> (ucast n - 32 :: uint)"
    "\<not> 97 \<le> (ucast n - 96 :: uint)" "\<not> 65 \<le> (ucast n - 96 :: uint)"
proof -
  have n: "97 \<le> unat n" "unat n \<le> 122" using assms by (simp_all add: word_le_nat_alt)
  have "unat (n - 32) = unat n - 32" "unat (n - 96) = unat n - 96"
    using n unat_sub [of 32 n] unat_sub [of 96 n] by (simp_all add: word_le_nat_alt)
  moreover have "unat (ucast n - 32 :: uint) = unat n - 32" "unat (ucast n - 96 :: uint) = unat n - 96"
    using n unat_sub [of 32 "ucast n :: uint"] unat_sub [of 96 "ucast n :: uint"] by (simp_all add: word_le_nat_alt unat_ucast_uint)
  ultimately show "(97 :: uint) \<le> ucast n" "ucast n \<le> (122 :: uint)" "ucast (n - 32) = (ucast n - 32 :: uint)" "ucast (n - 96) = (ucast n - 96 :: uint)"
    "(65 :: uint) \<le> ucast n - 32" "ucast n - 32 \<le> (90 :: uint)" "\<not> 97 \<le> (ucast n - 32 :: uint)"
    "\<not> 97 \<le> (ucast n - 96 :: uint)" "\<not> 65 \<le> (ucast n - 96 :: uint)"
    using n by (simp_all add: word_le_nat_alt word_less_nat_alt word_unat_eq_iff unat_ucast_uint)
qed

lemma and_3_cases:
  fixes x :: uint
  obtains "x AND 3 = 0" "x AND 1 = 0" "x AND 2 = 0" | "x AND 3 = 1" "x AND 1 = 1" "x AND 2 = 0"
    | "x AND 3 = 2" "x AND 1 = 0" "x AND 2 = 2" | "x AND 3 = 3" "x AND 1 = 1" "x AND 2 = 2"
proof -
  have "x AND 3 \<le> 3" by (rule word_and_le1)
  then have "unat (x AND 3) = 0 \<or> unat (x AND 3) = 1 \<or> unat (x AND 3) = 2 \<or> unat (x AND 3) = 3" by (auto simp: word_le_nat_alt)
  then have y: "x AND 3 = 0 \<or> x AND 3 = 1 \<or> x AND 3 = 2 \<or> x AND 3 = 3" by (auto simp: word_unat_eq_iff)
  have "x AND 1 = (x AND 3) AND 1" "x AND 2 = (x AND 3) AND 2" by (simp_all add: and.assoc)
  with y show ?thesis using that by (elim disjE) simp_all
qed

text \<open>
  C37. A letter key gives the control character while control is held, otherwise the capital letter when exactly one of
  shift and caps lock is on, and the small letter when none or both are; the modifiers do not change.
\<close>

theorem kbd_letter:
  assumes "is_letter (unat d)" and "shift AND E0ESC = 0"
  shows "kbdgetc 1 d shift =
    (Some (if shift AND CTL \<noteq> 0 then ucast (normalmap ! unat d) - 96
       else if (shift AND SHIFT \<noteq> 0) \<noteq> (shift AND CAPSLOCK \<noteq> 0) then ucast (normalmap ! unat d) - 32
       else ucast (normalmap ! unat d)), shift)"
proof -
  have lt: "unat d < 256" by (rule unat_uchar)
  note T = letter_tables [OF assms(1) lt]
  note L = letter_case [OF assms(1) [unfolded is_letter_def, THEN conjunct1] assms(1) [unfolded is_letter_def, THEN conjunct2]]
  have d: "d < 128" using T(5) by (simp add: word_less_nat_alt)
  have "bit (unat d) 7 = bit d 7" by (simp add: bit_simps)
  then have "\<not> bit d 7" using T(5) by (simp add: bit_iff_odd)
  then have "d AND 0x80 = 0" using and_exp_eq_0_iff_not_bit [of d 7] by simp
  moreover have "d \<noteq> 0xE0" using d by auto
  ultimately have k: "kbdgetc 1 d shift = (case kbd_key d shift of (c, shift) \<Rightarrow> (Some c, shift))"
    using assms(2) by (simp add: kbdgetc_def)
  show ?thesis unfolding k
    by (rule and_3_cases [of shift]) (use L T in \<open>auto simp: kbd_key_def charcode_def Let_def not_le\<close>)
qed


text \<open>Shift is held while the key \<open>q\<close> is pressed.\<close>

theorem kbd_letter_witness: "is_letter (unat (0x10 :: uchar)) \<and> kbdgetc 1 0x10 SHIFT = (Some 81, SHIFT)"
proof -
  have q: "normalmap ! 0x10 = 113" by code_simp
  have l: "is_letter (unat (0x10 :: uchar))" by (simp add: is_letter_def q)
  show ?thesis using kbd_letter [OF l, of SHIFT] l by (simp add: q)
qed

text \<open>After the release of a modifier its bit is off, whatever the state of the other keys, and an escape does not outlast its key.\<close>

lemma kbd_release:
  assumes "d AND 0x80 \<noteq> 0" and "d \<noteq> 0xE0" and "kbdgetc 1 d shift = (r, shift')"
  shows "r = Some 0" "shift' AND E0ESC = 0"
    "shift AND E0ESC = 0 \<Longrightarrow> shift' AND ucast (shiftcode ! unat (d AND 0x7F)) = 0"
proof -
  have clear: "(a AND NOT (b OR c)) AND c = 0" "(a AND NOT (b OR c)) AND b = 0" for a b c :: uint
    by (rule bit_word_eqI; auto simp: bit_simps)+
  have e: "shift' = shift AND NOT (ucast (shiftcode ! unat (if shift AND E0ESC \<noteq> 0 then d else d AND 0x7F)) OR E0ESC)" and "r = Some 0"
    using assms by (auto simp: kbdgetc_def Let_def split: if_splits)
  then show "r = Some 0" by simp
  show "shift' AND E0ESC = 0" unfolding e by (rule clear)
  show "shift' AND ucast (shiftcode ! unat (d AND 0x7F)) = 0" if "shift AND E0ESC = 0"
    unfolding e using that by (simp only: if_False simp_thms clear)
qed

end
