(* ===== verification/Mp.thy ===== *)
theory Mp
  imports Strings
begin

text \<open>
  \<^verbatim>\<open>mp.c\<close>: the search for the multiprocessor tables that the firmware leaves in memory, and \<open>mpinit\<close>, which reads the processors
  and the I/O interrupt controller from them. The tables are bytes of memory at the offsets that \<^verbatim>\<open>mp.h\<close> gives; the loop over
  the entries is a partial function, which is \<open>None\<close> when the loop does not end.
\<close>

record machine =
  apicids :: "uchar list"
  ioapicid :: uchar
  lapic :: uint

section \<open>Finding the tables\<close>

definition ld16 :: "memory \<Rightarrow> uint \<Rightarrow> ushort" where
  "ld16 m a = ucast (m a) OR push_bit 8 (ucast (m (a + 1)))"

fun sum_loop :: "memory \<Rightarrow> uint \<Rightarrow> nat \<Rightarrow> uint \<Rightarrow> uint" where
  "sum_loop m addr 0 acc = acc"
| "sum_loop m addr (Suc n) acc = sum_loop m (addr + 1) n (acc + ucast (m addr))"

definition sum_mp :: "memory \<Rightarrow> uint \<Rightarrow> nat \<Rightarrow> uchar" where
  "sum_mp m addr len = ucast (sum_loop m addr len 0)"

text \<open>The pieces of \<open>sizeof(struct mp)\<close> bytes from \<open>p\<close> on, \<open>n\<close> of them.\<close>

fun mpsearch_loop :: "memory \<Rightarrow> uint \<Rightarrow> nat \<Rightarrow> uint" where
  "mpsearch_loop m p 0 = 0"
| "mpsearch_loop m p (Suc n) =
    (if mread m p 4 = [95, 77, 80, 95] \<and> sum_mp m p 16 = 0 then p else mpsearch_loop m (p + 16) n)"

definition mpsearch1 :: "memory \<Rightarrow> uint \<Rightarrow> nat \<Rightarrow> uint" where
  "mpsearch1 m a len = mpsearch_loop m (P2V a) (len div 16)"

definition mpsearch :: "memory \<Rightarrow> uint" where
  "mpsearch m =
    (let bda = P2V 0x400;
         p = push_bit 4 (push_bit 8 (ucast (m (bda + 0x0F))) OR ucast (m (bda + 0x0E))) :: uint;
         mp = (if p \<noteq> 0 then mpsearch1 m p 1024
               else mpsearch1 m ((push_bit 8 (ucast (m (bda + 0x14))) OR ucast (m (bda + 0x13))) * 1024 - 1024) 1024)
     in if mp \<noteq> 0 then mp else mpsearch1 m 0xF0000 0x10000)"

text \<open>The configuration table and the floating pointer structure that names it.\<close>

definition mpconfig :: "memory \<Rightarrow> (uint \<times> uint) option" where
  "mpconfig m =
    (let mp = mpsearch m in
     if mp = 0 \<or> ld32 m (mp + 4) = 0 then None
     else
       let conf = P2V (ld32 m (mp + 4)) in
       if mread m conf 4 \<noteq> [80, 67, 77, 80] then None
       else if m (conf + 6) \<noteq> 1 \<and> m (conf + 6) \<noteq> 4 then None
       else if sum_mp m conf (unat (ld16 m (conf + 4))) \<noteq> 0 then None
       else Some (conf, mp))"


section \<open>Reading the entries\<close>

text \<open>The \<open>break\<close> of the default case only leaves the \<open>switch\<close>.\<close>

definition mpproc :: "uchar \<Rightarrow> machine \<Rightarrow> machine" where
  "mpproc apicid s = (if length (apicids s) < NCPU then s\<lparr>apicids := apicids s @ [apicid]\<rparr> else s)"

partial_function (option) mp_entries :: "memory \<Rightarrow> uint \<Rightarrow> uint \<Rightarrow> bool \<Rightarrow> machine \<Rightarrow> (bool \<times> machine) option" where
  "mp_entries m p e ismp s =
    (if \<not> p < e then Some (ismp, s)
     else if m p = 0 then mp_entries m (p + 20) e ismp (mpproc (m (p + 1)) s)
     else if m p = 2 then mp_entries m (p + 8) e ismp (s\<lparr>ioapicid := m (p + 1)\<rparr>)
     else if m p = 1 \<or> m p = 3 \<or> m p = 4 then mp_entries m (p + 8) e ismp s
     else mp_entries m p e False s)"

text \<open>\<open>mpinit\<close> up to the interrupt mode configuration register, which it programs when \<open>imcrp\<close> is set: the second result.\<close>

definition mpinit :: "memory \<Rightarrow> machine \<Rightarrow> kerror + bool \<times> machine" where
  "mpinit m s =
    (case mpconfig m of None \<Rightarrow> Inl (Panic ''Expect to run on an SMP'')
     | Some (conf, mp) \<Rightarrow>
       let s = s\<lparr>lapic := ld32 m (conf + 36)\<rparr> in
       case mp_entries m (conf + 44) (conf + ucast (ld16 m (conf + 4))) True s of
         None \<Rightarrow> Inl Hang
       | Some (ismp, s) \<Rightarrow>
           if \<not> ismp then Inl (Panic ''Didn't find a suitable machine'') else Inr (m (mp + 12) \<noteq> 0, s))"


section \<open>The entries of a table\<close>

text \<open>An entry: a processor, an I/O interrupt controller, or one of the kinds that are skipped.\<close>

datatype entry = Processor uchar "uchar list" | Ioapic uchar "uchar list" | Other uchar "uchar list"

fun entry_ok :: "entry \<Rightarrow> bool" where
  "entry_ok (Processor a rest) \<longleftrightarrow> length rest = 18"
| "entry_ok (Ioapic a rest) \<longleftrightarrow> length rest = 6"
| "entry_ok (Other k rest) \<longleftrightarrow> k \<in> {1, 3, 4} \<and> length rest = 7"

fun entry_bytes :: "entry \<Rightarrow> uchar list" where
  "entry_bytes (Processor a rest) = 0 # a # rest"
| "entry_bytes (Ioapic a rest) = 2 # a # rest"
| "entry_bytes (Other k rest) = k # rest"

definition processors :: "entry list \<Rightarrow> uchar list" where
  "processors es = concat (map (\<lambda>e. case e of Processor a _ \<Rightarrow> [a] | _ \<Rightarrow> []) es)"

text \<open>The unknown entry is seen again and again: the loop does not end, so the panic below it is never reached.\<close>

lemma mp_entries_unknown:
  assumes "p < e" and "m p \<notin> {0, 1, 2, 3, 4}"
  shows "mp_entries m p e ismp s = None"
proof -
  have "p < e \<longrightarrow> m p \<in> {0, 1, 2, 3, 4}" if "mp_entries m p e ismp s = Some r" for r
    by (rule mp_entries.raw_induct [where P = "\<lambda>m p e _ _ _. p < e \<longrightarrow> m p \<in> {0, 1, 2, 3, 4}", OF _ that]) (auto split: if_splits, blast)
  then show ?thesis using assms by (cases "mp_entries m p e ismp s") auto
qed

text \<open>A table whose entries are all of the known kinds is read in one pass.\<close>

definition next_entry :: "entry \<Rightarrow> machine \<Rightarrow> machine" where
  "next_entry x s = (case x of Processor a _ \<Rightarrow> mpproc a s | Ioapic a _ \<Rightarrow> s\<lparr>ioapicid := a\<rparr> | Other _ _ \<Rightarrow> s)"

lemma mread_append: "mread m a (i + j) = mread m a i @ mread m (a + of_nat i) j"
  by (induction i arbitrary: a) (simp_all add: add.assoc)

lemma mp_entries_known:
  "mread m p (length (concat (map entry_bytes xs))) = concat (map entry_bytes xs) \<Longrightarrow> \<forall>x \<in> set xs. entry_ok x \<Longrightarrow>
    unat p + length (concat (map entry_bytes xs)) < 2 ^ 32 \<Longrightarrow> e = p + of_nat (length (concat (map entry_bytes xs))) \<Longrightarrow>
    mp_entries m p e ismp s = Some (ismp, fold next_entry xs s)"
proof (induction xs arbitrary: p s)
  case Nil
  then show ?case by (subst mp_entries.simps) simp
next
  case (Cons x xs)
  let ?n = "length (entry_bytes x)" and ?r = "concat (map entry_bytes xs)"
  have split: "mread m p ?n @ mread m (p + of_nat ?n) (length ?r) = entry_bytes x @ ?r"
    using Cons.prems(1) by (simp add: mread_append)
  moreover have "length (mread m p k) = k" for k by (induction k arbitrary: p) simp_all
  ultimately have x: "mread m p ?n = entry_bytes x" and r: "mread m (p + of_nat ?n) (length ?r) = ?r" by simp_all
  have n: "0 < ?n" "?n < 32" using Cons.prems(2) by (cases x; auto)+
  have u: "unat (p + of_nat ?n) = unat p + ?n" using Cons.prems(3) n by (simp add: unat_word_ariths unat_of_nat)
  have lt: "p < e"
  proof -
    have "unat e = unat p + (?n + length ?r)" using Cons.prems(3) unfolding Cons.prems(4) by (simp add: unat_word_ariths unat_of_nat)
    then show ?thesis using n by (simp add: word_less_nat_alt)
  qed
  have IH: "mp_entries m (p + of_nat ?n) e ismp s' = Some (ismp, fold next_entry xs s')" for s'
    by (rule Cons.IH [OF r]) (use Cons.prems u in \<open>simp_all add: add.assoc\<close>)
  show ?case
  proof (cases x)
    case (Processor a rest)
    then show ?thesis using x Cons.prems(2) lt IH by (subst mp_entries.simps) (auto simp: next_entry_def numeral_eq_Suc)
  next
    case (Ioapic a rest)
    then show ?thesis using x Cons.prems(2) lt IH by (subst mp_entries.simps) (auto simp: next_entry_def)
  next
    case (Other k rest)
    then show ?thesis using x Cons.prems(2) lt IH by (subst mp_entries.simps) (auto simp: next_entry_def)
  qed
qed


text \<open>
  What \<open>mpinit\<close> makes of a table: with the known entries \<open>xs\<close> it records the processors, up to \<open>NCPU\<close>, in the order of the table; a
  table with another kind of entry is not refused but stops the boot in the loop.
\<close>

lemma fold_processors:
  "apicids (fold next_entry xs s) = apicids s @ take (NCPU - length (apicids s)) (processors xs)"
proof (induction xs arbitrary: s)
  case (Cons x xs)
  have "processors (x # xs) = (case x of Processor a _ \<Rightarrow> [a] | _ \<Rightarrow> []) @ processors xs" by (simp add: processors_def)
  then show ?case using Cons by (cases x) (auto simp: next_entry_def mpproc_def take_Cons' split: nat.splits)
qed (simp add: processors_def)

lemma mpinit_reads:
  assumes "mpconfig m = Some (conf, mp)" and "mread m (conf + 44) n = concat (map entry_bytes xs)" and "\<forall>x \<in> set xs. entry_ok x"
    and "n = length (concat (map entry_bytes xs))" and "ucast (ld16 m (conf + 4)) = (44 + of_nat n :: uint)" and "unat (conf + 44) + n < 2 ^ 32"
  shows "\<exists>t. mpinit m s = Inr (m (mp + 12) \<noteq> 0, t) \<and> apicids t = apicids s @ take (NCPU - length (apicids s)) (processors xs)"
proof -
  have "mp_entries m (conf + 44) (conf + ucast (ld16 m (conf + 4))) True (s\<lparr>lapic := ld32 m (conf + 36)\<rparr>) =
      Some (True, fold next_entry xs (s\<lparr>lapic := ld32 m (conf + 36)\<rparr>))"
    by (rule mp_entries_known) (use assms in \<open>simp_all add: add.assoc\<close>)
  then show ?thesis using assms(1) by (simp add: mpinit_def Let_def fold_processors)
qed

lemma mpinit_hangs:
  assumes "mpconfig m = Some (conf, mp)" and "conf + 44 < conf + ucast (ld16 m (conf + 4))" and "m (conf + 44) \<notin> {0, 1, 2, 3, 4}"
  shows "mpinit m s = Inl Hang"
  using assms mp_entries_unknown [of "conf + 44" "conf + ucast (ld16 m (conf + 4))" m] by (simp add: mpinit_def Let_def)

end
