(* ===== verification/Mkfs.thy ===== *)
theory Mkfs
  imports Fsfile
begin

text \<open>
  \<^verbatim>\<open>mkfs.c\<close>, which makes the file system image on the host. The image is a file of blocks, \<open>imgsize\<close> of them written so far;
  structures are the bytes they have in memory. The command line and the host's files are arguments: a name and the pieces in
  which \<open>read\<close> returns the contents. This theory has the program and what \<open>iappend\<close> does to the blocks of one file; \<^verbatim>\<open>Mkfsimg\<close> has the
  whole image.
\<close>

unbundle bit_operations_syntax

record mkfs =
  img :: "uint \<Rightarrow> uchar list"
  imgsize :: nat
  freeinode :: uint
  freeblock :: uint

section \<open>Words and blocks\<close>

text \<open>The bytes are stored in increasing order and read as a word of the host, which is little-endian.\<close>

definition xshort :: "ushort \<Rightarrow> ushort" where
  "xshort x = get16 [ucast x, ucast (drop_bit 8 x)] 0"

definition xint :: "uint \<Rightarrow> uint" where
  "xint x = get32 [ucast x, ucast (drop_bit 8 x), ucast (drop_bit 16 x), ucast (drop_bit 24 x)] 0"

abbreviation (input) MAXFILE :: nat where "MAXFILE \<equiv> NDIRECT + NINDIRECT"
abbreviation (input) NINODES :: nat where "NINODES \<equiv> 200"

definition nbitmap :: nat where "nbitmap = FSSIZE div (512 * 8) + 1"
definition ninodeblocks :: nat where "ninodeblocks = NINODES div 8 + 1"
definition nmeta :: nat where "nmeta = 2 + LOGSIZE + ninodeblocks + nbitmap"

definition sb_mk :: superblock where
  "sb_mk = \<lparr>sb_size = xint (of_nat FSSIZE), sb_nblocks = xint (of_nat (FSSIZE - nmeta)), sb_ninodes = xint (of_nat NINODES),
     sb_nlog = xint (of_nat LOGSIZE), sb_logstart = xint 2, sb_inodestart = xint (of_nat (2 + LOGSIZE)),
     sb_bmapstart = xint (of_nat (2 + LOGSIZE + ninodeblocks))\<rparr>"

definition wsect :: "uint \<Rightarrow> uchar list \<Rightarrow> mkfs \<Rightarrow> mkfs" where
  "wsect sec buf s = s\<lparr>img := (img s)(sec := buf), imgsize := max (imgsize s) (Suc (unat sec))\<rparr>"

text \<open>A read past the end of the file does not return \<open>BSIZE\<close> bytes.\<close>

definition rsect :: "uint \<Rightarrow> mkfs \<Rightarrow> kerror + uchar list" where
  "rsect sec s = (if unat sec < imgsize s then Inr (img s sec) else Inl (Panic ''read''))"

definition winode :: "uint \<Rightarrow> uchar list \<Rightarrow> mkfs \<Rightarrow> kerror + mkfs" where
  "winode inum ip s =
    (let bn = IBLOCK inum sb_mk in
     bindE (rsect bn s) (\<lambda>buf. Inr (wsect bn (splice buf (dip inum) ip) s)))"

definition rinode :: "uint \<Rightarrow> mkfs \<Rightarrow> kerror + uchar list" where
  "rinode inum s =
    (let bn = IBLOCK inum sb_mk in
     bindE (rsect bn s) (\<lambda>buf. Inr (slice buf (dip inum) 64)))"


section \<open>Inodes and files\<close>

definition ialloc_mk :: "ushort \<Rightarrow> mkfs \<Rightarrow> kerror + uint \<times> mkfs" where
  "ialloc_mk type s =
    (let inum = freeinode s;
         s = s\<lparr>freeinode := freeinode s + 1\<rparr>;
         din = replicate 64 0;
         din = put16 din 0 (xshort type);
         din = put16 din 6 (xshort 1);
         din = put32 din 8 (xint 0)
     in bindE (winode inum din s) (\<lambda>s. Inr (inum, s)))"

text \<open>\<open>addr din i\<close> is \<open>din.addrs[i]\<close>.\<close>

definition addr :: "uchar list \<Rightarrow> nat \<Rightarrow> uint" where
  "addr din i = get32 din (12 + 4 * i)"

definition set_addr :: "uchar list \<Rightarrow> nat \<Rightarrow> uint \<Rightarrow> uchar list" where
  "set_addr din i x = put32 din (12 + 4 * i) x"

text \<open>The block of \<open>iappend\<close>'s loop that finds or allocates block \<open>fbn\<close> of the file.\<close>

definition iappend_addr :: "nat \<Rightarrow> uchar list \<Rightarrow> mkfs \<Rightarrow> uchar list \<times> mkfs" where
  "iappend_addr i din s =
    (if xint (addr din i) = 0
     then (set_addr din i (xint (freeblock s)), s\<lparr>freeblock := freeblock s + 1\<rparr>)
     else (din, s))"

definition iappend_block :: "uchar list \<Rightarrow> nat \<Rightarrow> mkfs \<Rightarrow> kerror + uint \<times> uchar list \<times> mkfs" where
  "iappend_block din fbn s =
    (if fbn < NDIRECT then
       case iappend_addr fbn din s of (din, s) \<Rightarrow> Inr (xint (addr din fbn), din, s)
     else
       case iappend_addr NDIRECT din s of (din, s) \<Rightarrow>
       bindE (rsect (xint (addr din NDIRECT)) s) (\<lambda>indirect.
         let (indirect, s) =
           (if get32 indirect (4 * (fbn - NDIRECT)) = 0
            then let indirect = put32 indirect (4 * (fbn - NDIRECT)) (xint (freeblock s));
                     s = s\<lparr>freeblock := freeblock s + 1\<rparr>
                 in (indirect, wsect (xint (addr din NDIRECT)) indirect s)
            else (indirect, s))
         in Inr (xint (get32 indirect (4 * (fbn - NDIRECT))), din, s)))"

text \<open>The assertion keeps the offset below \<open>MAXFILE * BSIZE\<close>, far from the end of the type.\<close>

lemma block_end: "off < (off div 512 + 1) * (512 :: nat)"
  using dividend_less_div_times [of 512 off] by simp

function iappend_loop :: "uchar list \<Rightarrow> nat \<Rightarrow> uchar list \<Rightarrow> mkfs \<Rightarrow> kerror + uchar list \<times> nat \<times> mkfs" where
  "iappend_loop din off p s =
    (if p = [] then Inr (din, off, s)
     else
       let fbn = off div 512 in
       if fbn \<ge> MAXFILE then Inl (Panic ''fbn < MAXFILE'')
       else
         bindE (iappend_block din fbn s) (\<lambda>(x, din, s).
           let n1 = min (length p) ((fbn + 1) * 512 - off) in
           bindE (rsect x s) (\<lambda>buf.
             iappend_loop din (off + n1) (drop n1 p) (wsect x (splice buf (off - fbn * 512) (take n1 p)) s))))"
  by pat_completeness auto

termination
proof (relation "measure (\<lambda>(din, off, p, s). length p)", simp, goal_cases)
  case (1 din off p s)
  then show ?case using block_end [of off] by auto
qed

declare iappend_loop.simps [simp del]

definition iappend :: "uint \<Rightarrow> uchar list \<Rightarrow> mkfs \<Rightarrow> kerror + mkfs" where
  "iappend inum p s =
    bindE (rinode inum s) (\<lambda>din.
    bindE (iappend_loop din (unat (xint (get32 din 8))) p s) (\<lambda>(din, off, s).
      winode inum (put32 din 8 (xint (of_nat off))) s))"

definition balloc_mk :: "nat \<Rightarrow> mkfs \<Rightarrow> kerror + mkfs" where
  "balloc_mk n s =
    (if n < 512 * 8
     then Inr (wsect (sb_bmapstart sb_mk) (fold (\<lambda>i buf. set_bit_used buf i) [0..<n] (replicate 512 0)) s)
     else Inl (Panic ''used < BSIZE*8''))"


section \<open>The program\<close>

definition sb_bytes :: "superblock \<Rightarrow> uchar list" where
  "sb_bytes b = concat (map le32 [sb_size b, sb_nblocks b, sb_ninodes b, sb_nlog b, sb_logstart b, sb_inodestart b, sb_bmapstart b])"

definition dirent :: "uint \<Rightarrow> uchar list \<Rightarrow> uchar list" where
  "dirent inum name = le16 (xshort (ucast inum)) @ take 14 (name @ replicate 14 0)"

definition mkfs_blank :: mkfs where
  "mkfs_blank = \<lparr>img = (\<lambda>_. replicate 512 0), imgsize = 0, freeinode = 1, freeblock = of_nat nmeta\<rparr>"

definition mkfs_root :: "kerror + uint \<times> mkfs" where
  "mkfs_root =
    (let s = fold (\<lambda>i. wsect (of_nat i) (replicate 512 0)) [0..<FSSIZE] mkfs_blank;
         s = wsect 1 (splice (replicate 512 0) 0 (sb_bytes sb_mk)) s
     in bindE (ialloc_mk T_DIR s) (\<lambda>(rootino, s).
        if rootino \<noteq> 1 then Inl (Panic ''rootino == ROOTINO'')
        else
          bindE (iappend rootino (dirent rootino (bytes ''.'')) s) (\<lambda>s.
          bindE (iappend rootino (dirent rootino (bytes ''..'')) s) (\<lambda>s. Inr (rootino, s)))))"

definition mkfs_file :: "uint \<Rightarrow> uchar list \<times> uchar list list \<Rightarrow> mkfs \<Rightarrow> kerror + mkfs" where
  "mkfs_file rootino = (\<lambda>(name, chunks) s.
    if 47 \<in> set name then Inl (Panic ''index(argv[i], /) == 0'')
    else
      let name = (if hd0 name = 95 then tl name else name) in
      bindE (ialloc_mk T_FILE s) (\<lambda>(inum, s).
      bindE (iappend rootino (dirent inum name) s)
        (foldE (iappend inum) chunks)))"

definition mkfs_main :: "(uchar list \<times> uchar list list) list \<Rightarrow> kerror + mkfs" where
  "mkfs_main files =
    bindE mkfs_root (\<lambda>(rootino, s).
    bindE (foldE (mkfs_file rootino) files s) (\<lambda>s.
    bindE (rinode rootino s) (\<lambda>din.
      let off = xint (get32 din 8);
          off = (off div 512 + 1) * 512
      in bindE (winode rootino (put32 din 8 (xint off)) s) (\<lambda>s.
         balloc_mk (unat (freeblock s)) s))))"

lemma xint [simp]: "xint x = x"
  by (simp add: xint_def get32_def w32_of_bytes)

lemma xshort [simp]: "xshort x = x"
  by (simp add: xshort_def get16_def w16_of_bytes)

lemma sb_mk: "sb_mk = mkfs_sb"
  by (simp add: sb_mk_def mkfs_sb_def nmeta_def ninodeblocks_def nbitmap_def)



section \<open>The blocks of a file\<close>

lemma addr_set_addr: "length din = 64 \<Longrightarrow> i \<le> 12 \<Longrightarrow> j \<le> 12 \<Longrightarrow> addr (set_addr din i x) j = (if i = j then x else addr din j)"
  by (cases i j rule: linorder_cases) (auto simp: addr_def set_addr_def field_laws)

lemma set_addr_fields [simp]:
  "length din = 64 \<Longrightarrow> i \<le> 12 \<Longrightarrow> length (set_addr din i x) = 64"
  "length din = 64 \<Longrightarrow> i \<le> 12 \<Longrightarrow> get32 (set_addr din i x) 8 = get32 din 8"
  "length din = 64 \<Longrightarrow> i \<le> 12 \<Longrightarrow> get16 (set_addr din i x) 0 = get16 din 0"
  by (simp_all add: set_addr_def field_laws)

text \<open>Block \<open>b\<close> of the file with the inode \<open>din\<close>, and all blocks of a file with \<open>nb\<close> blocks.\<close>

definition blk :: "(uint \<Rightarrow> uchar list) \<Rightarrow> uchar list \<Rightarrow> nat \<Rightarrow> uint" where
  "blk v din b = (if b < NDIRECT then addr din b else get32 (v (addr din NDIRECT)) (4 * (b - NDIRECT)))"

definition owned :: "(uint \<Rightarrow> uchar list) \<Rightarrow> uchar list \<Rightarrow> nat \<Rightarrow> uint set" where
  "owned v din nb = blk v din ` {..<nb} \<union> (if NDIRECT < nb then {addr din NDIRECT} else {})"

definition cost :: "nat \<Rightarrow> nat" where
  "cost nb = nb + (if NDIRECT < nb then 1 else 0)"

definition blocks_ok :: "(uint \<Rightarrow> uchar list) \<Rightarrow> nat \<Rightarrow> uchar list \<Rightarrow> nat \<Rightarrow> bool" where
  "blocks_ok v fb din nb \<longleftrightarrow> length din = 64 \<and> nb \<le> MAXFILE \<and> inj_on (blk v din) {..<nb} \<and>
    (NDIRECT < nb \<longrightarrow> addr din NDIRECT \<notin> blk v din ` {..<nb}) \<and>
    (\<forall>k \<in> owned v din nb. nmeta \<le> unat k \<and> unat k < fb) \<and>
    (\<forall>b. nb \<le> b \<longrightarrow> b < NDIRECT \<longrightarrow> addr din b = 0) \<and> (nb \<le> NDIRECT \<longrightarrow> addr din NDIRECT = 0) \<and>
    (NDIRECT < nb \<longrightarrow> (\<forall>b. nb \<le> b \<longrightarrow> b < MAXFILE \<longrightarrow> blk v din b = 0))"

text \<open>The image has all its blocks, and those not yet allocated are zero.\<close>

definition img_ok :: "mkfs \<Rightarrow> bool" where
  "img_ok s \<longleftrightarrow> imgsize s = FSSIZE \<and> (\<forall>k. length (img s k) = 512) \<and> (\<forall>k. freeblock s \<le> k \<longrightarrow> img s k = replicate 512 0) \<and>
    nmeta \<le> unat (freeblock s) \<and> unat (freeblock s) \<le> FSSIZE"

lemma nmeta [simp]: "nmeta = 60"
  by (simp add: nmeta_def ninodeblocks_def nbitmap_def)


lemma unat_Suc: "unat k < FSSIZE \<Longrightarrow> unat (k + 1) = Suc (unat k)" for k :: uint
  by (simp add: unat_word_ariths)

text \<open>What finding or allocating block \<open>fbn\<close> of a file with \<open>nb\<close> blocks does.\<close>

definition grown :: "mkfs \<Rightarrow> uchar list \<Rightarrow> nat \<Rightarrow> mkfs \<Rightarrow> uchar list \<Rightarrow> nat \<Rightarrow> bool" where
  "grown s din nb s' din' nb' \<longleftrightarrow> img_ok s' \<and> blocks_ok (img s') (unat (freeblock s')) din' nb' \<and>
    unat (freeblock s') + cost nb = unat (freeblock s) + cost nb' \<and>
    (\<forall>b < nb. blk (img s') din' b = blk (img s) din b) \<and>
    (\<forall>k. k \<notin> owned (img s') din' nb' \<longrightarrow> img s' k = img s k) \<and>
    owned (img s) din nb \<subseteq> owned (img s') din' nb' \<and> owned (img s') din' nb' \<subseteq> owned (img s) din nb \<union> {k. freeblock s \<le> k} \<and>
    get32 din' 8 = get32 din 8 \<and> get16 din' 0 = get16 din 0 \<and> freeinode s' = freeinode s"

lemma grow_none:
  assumes "img_ok s" and "blocks_ok (img s) (unat (freeblock s)) din nb" and "fbn < nb"
  shows "iappend_block din fbn s = Inr (blk (img s) din fbn, din, s)"
proof -
  have b: "blk (img s) din fbn \<in> owned (img s) din nb" using assms(3) by (auto simp: owned_def)
  then have n0: "blk (img s) din fbn \<noteq> 0" using assms(2) by (auto simp: blocks_ok_def)
  have i: "addr din 12 \<noteq> 0 \<and> unat (addr din 12) < FSSIZE" if "\<not> fbn < 12"
  proof -
    have "addr din 12 \<in> owned (img s) din nb" using that assms(3) by (auto simp: owned_def)
    then show ?thesis using assms by (force simp: blocks_ok_def img_ok_def)
  qed
  show ?thesis
    using n0 i assms(1) by (auto simp: iappend_block_def iappend_addr_def blk_def rsect_def img_ok_def Let_def)
qed

lemma grow_direct:
  assumes s: "img_ok s" and din: "blocks_ok (img s) (unat (freeblock s)) din nb" and nb: "nb < 12" and room: "unat (freeblock s) < FSSIZE"
  shows "\<exists>din' s'. iappend_block din nb s = Inr (blk (img s') din' nb, din', s') \<and> grown s din nb s' din' (Suc nb) \<and> img s' = img s"
proof -
  let ?din = "set_addr din nb (freeblock s)" and ?s = "s\<lparr>freeblock := freeblock s + 1\<rparr>"
  have l: "length din = 64" and z: "addr din nb = 0" and z12: "addr din 12 = 0" using din nb by (auto simp: blocks_ok_def)
  have fb: "unat (freeblock ?s) = Suc (unat (freeblock s))" using room by (simp add: unat_Suc)
  have le: "freeblock s \<le> k" if "freeblock s + 1 \<le> k" for k using that fb by (simp add: word_le_nat_alt)
  have a: "addr ?din j = (if j = nb then freeblock s else addr din j)" if "j \<le> 12" for j
    using addr_set_addr [OF l, of nb j] nb that by auto
  have b: "blk (img ?s) ?din b = (if b = nb then freeblock s else blk (img s) din b)" if "b \<le> nb" for b
    using that nb a [of b] by (auto simp: blk_def)
  have o: "owned (img ?s) ?din (Suc nb) = insert (freeblock s) (owned (img s) din nb)"
    using nb b by (auto simp: owned_def lessThan_Suc)
  have in_: "blk (img s) din b \<noteq> freeblock s" if "b < nb" for b
    using din that by (force simp: blocks_ok_def owned_def)
  have inj: "inj_on (blk (img ?s) ?din) {..<Suc nb}"
  proof (rule inj_onI)
    fix x y
    assume "x \<in> {..<Suc nb}" "y \<in> {..<Suc nb}" "blk (img ?s) ?din x = blk (img ?s) ?din y"
    then show "x = y" using b [of x] b [of y] in_ [of x] in_ [of y] din by (auto simp: blocks_ok_def inj_on_def less_Suc_eq split: if_splits)
  qed
  have "blocks_ok (img ?s) (unat (freeblock ?s)) ?din (Suc nb)"
    unfolding blocks_ok_def o fb using din nb inj a l s by (auto simp: blocks_ok_def img_ok_def less_Suc_eq)
  moreover have "img_ok ?s" unfolding img_ok_def fb using s room le by (auto simp: img_ok_def)
  ultimately have "grown s din nb ?s ?din (Suc nb)"
    using l nb fb b o by (auto simp: grown_def cost_def)
  moreover have "iappend_block din nb s = Inr (blk (img ?s) ?din nb, ?din, ?s)"
    using nb z a [of nb] by (simp add: iappend_block_def iappend_addr_def blk_def)
  ultimately show ?thesis by (intro exI [of _ ?din] exI [of _ ?s]) simp
qed


text \<open>A new entry of the indirect block \<open>ib\<close>.\<close>

definition entry_added :: "uint \<Rightarrow> nat \<Rightarrow> mkfs \<Rightarrow> mkfs" where
  "entry_added ib nb s = wsect ib (put32 (img s ib) (4 * (nb - 12)) (freeblock s)) (s\<lparr>freeblock := freeblock s + 1\<rparr>)"

lemma entry_put: "length d = 512 \<Longrightarrow> i < 128 \<Longrightarrow> j < 128 \<Longrightarrow> get32 (put32 d (4 * i) x) (4 * j) = (if i = j then x else get32 d (4 * j))"
  by (cases i j rule: linorder_cases) (auto simp: field_laws)

lemma grow_entry:
  assumes s: "img_ok s" and l: "length din = 64" and nb: "12 \<le> nb" "nb < 140" and room: "unat (freeblock s) < FSSIZE"
    and ib: "60 \<le> unat (addr din 12)" "unat (addr din 12) < unat (freeblock s)" and inj: "inj_on (blk (img s) din) {..<nb}"
    and rng: "\<And>b. b < nb \<Longrightarrow> 60 \<le> unat (blk (img s) din b) \<and> unat (blk (img s) din b) < unat (freeblock s) \<and> blk (img s) din b \<noteq> addr din 12"
    and dir: "\<And>b. nb \<le> b \<Longrightarrow> b < 140 \<Longrightarrow> blk (img s) din b = 0"
  defines "t \<equiv> entry_added (addr din 12) nb s"
  shows "iappend_block din nb s = Inr (blk (img t) din nb, din, t)" and "img_ok t" and "blocks_ok (img t) (unat (freeblock t)) din (Suc nb)"
    and "\<And>b. b < nb \<Longrightarrow> blk (img t) din b = blk (img s) din b"
    and "owned (img t) din (Suc nb) = insert (freeblock s) (insert (addr din 12) (blk (img s) din ` {..<nb}))"
    and "\<And>k. k \<noteq> addr din 12 \<Longrightarrow> img t k = img s k" and "unat (freeblock t) = Suc (unat (freeblock s))" and "freeinode t = freeinode s"
proof -
  have len: "length (img s k) = 512" for k using s by (simp add: img_ok_def)
  have a0: "addr din 12 \<noteq> 0" using ib by auto
  have n0: "get32 (img s (addr din 12)) (4 * (nb - 12)) = 0" using dir [of nb] nb by (simp add: blk_def)
  show fb: "unat (freeblock t) = Suc (unat (freeblock s))" using room by (simp add: t_def entry_added_def wsect_def unat_Suc)
  show fi: "freeinode t = freeinode s" by (simp add: t_def entry_added_def wsect_def)
  have sz: "imgsize t = FSSIZE" using s ib by (auto simp: t_def entry_added_def wsect_def img_ok_def max_def)
  have it: "img t = (img s)(addr din 12 := put32 (img s (addr din 12)) (4 * (nb - 12)) (freeblock s))"
    by (simp add: t_def entry_added_def wsect_def)
  show "img t k = img s k" if "k \<noteq> addr din 12" for k using that by (simp add: it)
  have bt: "blk (img t) din b = (if b = nb then freeblock s else blk (img s) din b)" if "b < 140" for b
  proof -
    have "(nb - 12 = b - 12) = (b = nb)" if "12 \<le> b" using that nb by linarith
    then show ?thesis
      using that nb entry_put [OF len, of "nb - 12" "b - 12"] by (auto simp: blk_def it)
  qed
  then show "blk (img t) din b = blk (img s) din b" if "b < nb" for b using that nb by simp
  show "iappend_block din nb s = Inr (blk (img t) din nb, din, t)"
    using a0 n0 nb ib s len bt [of nb]
    by (simp add: iappend_block_def iappend_addr_def rsect_def img_ok_def Let_def field_laws t_def entry_added_def)
  have lt: "freeblock s \<noteq> addr din 12" "freeblock s \<noteq> 0" "\<And>b. b < nb \<Longrightarrow> blk (img s) din b \<noteq> freeblock s" using ib rng by force+
  have im: "blk (img t) din ` {..<Suc nb} = insert (freeblock s) (blk (img s) din ` {..<nb})"
    using bt nb by (auto simp: lessThan_Suc image_iff)
  then show o: "owned (img t) din (Suc nb) = insert (freeblock s) (insert (addr din 12) (blk (img s) din ` {..<nb}))"
    using nb by (auto simp: owned_def)
  have "inj_on (blk (img t) din) {..<Suc nb}"
  proof (rule inj_onI)
    fix x y
    assume "x \<in> {..<Suc nb}" "y \<in> {..<Suc nb}" "blk (img t) din x = blk (img t) din y"
    then show "x = y" using bt [of x] bt [of y] lt(3) [of x] lt(3) [of y] inj nb by (auto simp: inj_on_def less_Suc_eq split: if_splits)
  qed
  moreover have "addr din 12 \<notin> blk (img s) din ` {..<nb}" using rng by force
  ultimately show "blocks_ok (img t) (unat (freeblock t)) din (Suc nb)"
    unfolding blocks_ok_def o fb im using l nb ib rng lt bt dir s by (auto simp: img_ok_def less_Suc_eq dest: less_imp_le_nat)
  have "img t k = replicate 512 0" if "freeblock t \<le> k" for k
  proof -
    have "freeblock s \<le> k" "k \<noteq> addr din 12" using that fb ib by (auto simp: word_le_nat_alt)
    then show ?thesis using s by (simp add: it img_ok_def)
  qed
  then show "img_ok t" unfolding img_ok_def fb sz using s room len nb by (auto simp: img_ok_def it)
qed


lemma grow_indirect:
  assumes s: "img_ok s" and din: "blocks_ok (img s) (unat (freeblock s)) din nb" and nb: "12 < nb" "nb < 140" and room: "unat (freeblock s) < FSSIZE"
  shows "\<exists>din' s'. iappend_block din nb s = Inr (blk (img s') din' nb, din', s') \<and> grown s din nb s' din' (Suc nb)
    \<and> (\<forall>k. k \<noteq> addr din' 12 \<longrightarrow> img s' k = img s k)"
proof -
  have o: "addr din 12 \<in> owned (img s) din nb" "\<And>b. b < nb \<Longrightarrow> blk (img s) din b \<in> owned (img s) din nb"
    using nb by (auto simp: owned_def)
  have own: "owned (img s) din nb = insert (addr din 12) (blk (img s) din ` {..<nb})" using nb by (auto simp: owned_def)
  note D = din [unfolded blocks_ok_def]
  have rng: "60 \<le> unat (blk (img s) din b) \<and> unat (blk (img s) din b) < unat (freeblock s) \<and> blk (img s) din b \<noteq> addr din 12" if "b < nb" for b
    using D o(2) [OF that] that nb by force
  have ib: "60 \<le> unat (addr din 12)" "unat (addr din 12) < unat (freeblock s)" using D o(1) by force+
  have z: "blk (img s) din b = 0" if "nb \<le> b" "b < 140" for b using D nb that by simp
  have l: "length din = 64" and inj: "inj_on (blk (img s) din) {..<nb}" using D by simp_all
  note G = grow_entry [OF s l less_imp_le [OF nb(1)] nb(2) room ib inj rng z]
  let ?t = "entry_added (addr din 12) nb s"
  have c: "cost (Suc nb) = Suc (cost nb)" using nb by (simp add: cost_def)
  have "grown s din nb ?t din (Suc nb)"
    unfolding grown_def G(7) c G(5) own using G by (simp; blast)
  then show ?thesis using G(1,6) by blast
qed

lemma grow_first_indirect:
  assumes s: "img_ok s" and din: "blocks_ok (img s) (unat (freeblock s)) din 12" and room: "Suc (unat (freeblock s)) < FSSIZE"
  shows "\<exists>din' s'. iappend_block din 12 s = Inr (blk (img s') din' 12, din', s') \<and> grown s din 12 s' din' 13
    \<and> (\<forall>k. k \<noteq> addr din' 12 \<longrightarrow> img s' k = img s k)"
proof -
  let ?din = "set_addr din 12 (freeblock s)" and ?s = "s\<lparr>freeblock := freeblock s + 1\<rparr>"
  note D = din [unfolded blocks_ok_def]
  have l: "length din = 64" and z12: "addr din 12 = 0" using D by simp_all
  have fb: "unat (freeblock ?s) = Suc (unat (freeblock s))" using room by (simp add: unat_Suc)
  have n0: "freeblock s \<noteq> 0" using s by (auto simp: img_ok_def)
  have a: "addr ?din j = (if j = 12 then freeblock s else addr din j)" if "j \<le> 12" for j
    using addr_set_addr [OF l, of 12 j] that by auto
  have b: "blk (img ?s) ?din b = blk (img s) din b" if "b < 12" for b using that a [of b] by (simp add: blk_def)
  have le: "freeblock s \<le> k" if "freeblock s + 1 \<le> k" for k using that fb by (simp add: word_le_nat_alt)
  have s1: "img_ok ?s" unfolding img_ok_def fb using s room le by (auto simp: img_ok_def)
  have rng: "60 \<le> unat (blk (img ?s) ?din b) \<and> unat (blk (img ?s) ?din b) < unat (freeblock ?s) \<and> blk (img ?s) ?din b \<noteq> addr ?din 12" if "b < 12" for b
  proof -
    have "blk (img s) din b \<in> owned (img s) din 12" using that by (simp add: owned_def)
    then have "60 \<le> unat (blk (img s) din b) \<and> unat (blk (img s) din b) < unat (freeblock s)" using D by force
    then show ?thesis using b [OF that] a [of 12] fb by auto
  qed
  have inj: "inj_on (blk (img ?s) ?din) {..<12}" using D b by (simp add: inj_on_def)
  have z: "blk (img ?s) ?din b = 0" if "12 \<le> b" "b < 140" for b
    using that a [of 12] s by (simp add: blk_def img_ok_def get32_def)
  have ib: "60 \<le> unat (addr ?din 12)" "unat (addr ?din 12) < unat (freeblock ?s)" using a [of 12] s fb by (auto simp: img_ok_def)
  have l1: "length ?din = 64" using l by simp
  have room1: "unat (freeblock ?s) < FSSIZE" using fb room by simp
  note G = grow_entry [OF s1 l1 order_refl _ room1 ib inj rng z]
  let ?t = "entry_added (addr ?din 12) 12 ?s"
  have "iappend_block din 12 s = iappend_block ?din 12 ?s"
    using z12 a [of 12] n0 by (simp add: iappend_block_def iappend_addr_def)
  then have e: "iappend_block din 12 s = Inr (blk (img ?t) ?din 12, ?din, ?t)" using G(1) by simp
  have o: "owned (img ?t) ?din 13 \<subseteq> owned (img s) din 12 \<union> {k. freeblock s \<le> k}"
    using G(5) le [of "freeblock s + 1"] a [of 12] b by (auto simp: owned_def image_iff)
  have own: "addr ?din 12 \<in> owned (img ?t) ?din 13" by (simp add: owned_def)
  have "blk (img s) din ` {..<12} = blk (img ?t) ?din ` {..<12}" by (rule image_cong [OF refl]) (use G(4) b in simp)
  then have o': "owned (img s) din 12 \<subseteq> owned (img ?t) ?din 13"
    using image_mono [of "{..<12}" "{..<13}" "blk (img ?t) ?din"] by (simp add: owned_def subset_insertI2)
  have fr: "img ?t k = img s k" if "k \<notin> owned (img ?t) ?din 13" for k
  proof -
    have "k \<noteq> addr ?din 12" using own that by blast
    then show ?thesis using G(6) by simp
  qed
  have "grown s din 12 ?t ?din 13"
    unfolding grown_def using G(2-4,7,8) o o' fr fb b l by (simp add: cost_def)
  then show ?thesis using e G(6) by auto
qed

lemma iappend_block_ok:
  assumes s: "img_ok s" and din: "blocks_ok (img s) (unat (freeblock s)) din nb" and fbn: "fbn \<le> nb" "nb \<le> Suc fbn" "fbn < 140"
    and room: "unat (freeblock s) + cost (Suc fbn) \<le> FSSIZE + cost nb"
  shows "\<exists>din' s'. iappend_block din fbn s = Inr (blk (img s') din' fbn, din', s') \<and> grown s din nb s' din' (Suc fbn)
    \<and> (\<forall>k. k \<noteq> addr din' 12 \<longrightarrow> img s' k = img s k)"
proof -
  consider "nb = Suc fbn" | "nb = fbn" "nb < 12" | "nb = fbn" "nb = 12" | "nb = fbn" "12 < nb" using fbn by linarith
  then show ?thesis
  proof cases
    case 1
    have "grown s din nb s din (Suc fbn)" using s din 1 by (auto simp: grown_def)
    moreover have "iappend_block din fbn s = Inr (blk (img s) din fbn, din, s)" by (rule grow_none [OF s din]) (use 1 in simp)
    ultimately show ?thesis by auto
  next
    case 2
    then show ?thesis using grow_direct [OF s din 2(2)] room by (fastforce simp: cost_def)
  next
    case 3
    then show ?thesis using grow_first_indirect [OF s] din room by (simp add: cost_def)
  next
    case 4
    then show ?thesis using grow_indirect [OF s din 4(2)] fbn room by (simp add: cost_def)
  qed
qed



section \<open>Appending to a file\<close>

definition nblk :: "nat \<Rightarrow> nat" where
  "nblk n = (n + 511) div 512"

definition content_ok :: "(uint \<Rightarrow> uchar list) \<Rightarrow> uchar list \<Rightarrow> uchar list \<Rightarrow> bool" where
  "content_ok v din c \<longleftrightarrow> (\<forall>j < length c. v (blk v din (j div 512)) ! (j mod 512) = c ! j)"

lemma nblk_le: "j < n \<Longrightarrow> j div 512 < nblk n"
  unfolding nblk_def by (simp add: less_eq_div_iff_mult_less_eq flip: Suc_le_eq)

lemma nblk_mono: "m \<le> n \<Longrightarrow> nblk m \<le> nblk n"
  unfolding nblk_def by (rule div_le_mono) simp

lemma cost_mono: "m \<le> n \<Longrightarrow> cost m \<le> cost n"
  by (simp add: cost_def)

lemma blk_not_ind: "blocks_ok v fb din nb \<Longrightarrow> b < nb \<Longrightarrow> blk v din b \<noteq> addr din 12"
proof -
  assume ok: "blocks_ok v fb din nb" and b: "b < nb"
  then have "blk v din b \<in> owned v din nb" by (simp add: owned_def)
  then have "60 \<le> unat (blk v din b)" using ok by (force simp: blocks_ok_def)
  moreover have "blk v din b \<in> blk v din ` {..<nb}" using b by simp
  ultimately show ?thesis using ok by (cases "12 < nb") (auto simp: blocks_ok_def)
qed

lemma grownD:
  assumes "grown s din nb s' din' nb'"
  shows "img_ok s'" "blocks_ok (img s') (unat (freeblock s')) din' nb'" "unat (freeblock s') + cost nb = unat (freeblock s) + cost nb'"
  using assms by (simp_all add: grown_def)

lemma grown_refl: "img_ok s \<Longrightarrow> blocks_ok (img s) (unat (freeblock s)) din nb \<Longrightarrow> grown s din nb s din nb"
  by (simp add: grown_def)

lemma grown_trans:
  assumes a: "grown s din nb s1 din1 nb1" and b: "grown s1 din1 nb1 s2 din2 nb2" and le: "nb \<le> nb1"
  shows "grown s din nb s2 din2 nb2"
proof -
  have "cost nb \<le> cost nb1" by (rule cost_mono [OF le])
  then have "freeblock s \<le> freeblock s1" using a by (simp add: grown_def word_le_nat_alt)
  then have "{k. freeblock s1 \<le> k} \<subseteq> {k. freeblock s \<le> k}" using order_trans by blast
  then show ?thesis using a b le unfolding grown_def by (auto 0 3)
qed

text \<open>Writing into a block of the file.\<close>

lemma data_write:
  assumes s: "img_ok s" and din: "blocks_ok (img s) (unat (freeblock s)) din nb" and b: "b < nb" and d: "length d = 512"
  defines "t \<equiv> wsect (blk (img s) din b) d s"
  shows "grown s din nb t din nb" and "blk (img t) din = blk (img s) din" and "img t = (img s)(blk (img s) din b := d)"
proof -
  show it: "img t = (img s)(blk (img s) din b := d)" by (simp add: t_def wsect_def)
  have x: "blk (img s) din b \<in> owned (img s) din nb" using b by (simp add: owned_def)
  then have lt: "unat (blk (img s) din b) < unat (freeblock s)" using din by (simp add: blocks_ok_def)
  show bt: "blk (img t) din = blk (img s) din"
    using blk_not_ind [OF din b] by (auto simp: blk_def it)
  have o: "owned (img t) din nb = owned (img s) din nb" by (simp add: owned_def bt)
  have "imgsize t = FSSIZE" using s lt by (auto simp: t_def wsect_def img_ok_def max_def)
  then have "img_ok t" using s d lt by (auto simp: img_ok_def it word_le_nat_alt) (simp_all add: t_def wsect_def)
  moreover have "freeblock t = freeblock s" "freeinode t = freeinode s" by (simp_all add: t_def wsect_def)
  moreover have "blocks_ok (img t) (unat (freeblock s)) din nb" using din by (simp add: blocks_ok_def bt o)
  moreover have "img t k = img s k" if "k \<notin> owned (img s) din nb" for k using that x by (auto simp: it)
  ultimately show "grown s din nb t din nb" unfolding grown_def o bt by auto
qed


lemma content_grown:
  assumes "grown s din nb s' din' nb'" and "nb \<le> nb'" and "\<And>k. k \<noteq> addr din' 12 \<Longrightarrow> img s' k = img s k" and "content_ok (img s) din c" and "nblk (length c) \<le> nb"
  shows "content_ok (img s') din' c"
proof -
  have "img s' (blk (img s') din' (j div 512)) = img s (blk (img s) din (j div 512))" if "j < length c" for j
  proof -
    have b: "j div 512 < nb" using nblk_le [OF that] assms(5) by simp
    then have e: "blk (img s') din' (j div 512) = blk (img s) din (j div 512)" using assms(1) by (simp add: grown_def)
    have "blk (img s') din' (j div 512) \<noteq> addr din' 12" by (rule blk_not_ind [where nb = nb']) (use assms(1,2) b in \<open>auto simp: grown_def\<close>)
    then show ?thesis using assms(3) e by simp
  qed
  then show ?thesis using assms(4) by (simp add: content_ok_def)
qed

lemma content_write:
  assumes ok: "content_ok (img s) din c" and din: "blocks_ok (img s) (unat (freeblock s)) din nb" and s: "img_ok s"
    and b: "b = length c div 512" "b < nb" and p: "length p \<le> (b + 1) * 512 - length c" and nb: "nblk (length c) \<le> nb"
  shows "content_ok (img (wsect (blk (img s) din b) (splice (img s (blk (img s) din b)) (length c - b * 512) p) s)) din (c @ p)"
proof -
  let ?x = "blk (img s) din b" and ?d = "splice (img s (blk (img s) din b)) (length c - b * 512) p"
  have cb: "b * 512 \<le> length c" "length c < (b + 1) * 512" using b(1) block_end [of "length c"] by auto
  have len: "length (img s k) = 512" for k using s by (simp add: img_ok_def)
  have fit: "length c - b * 512 + length p \<le> 512" using p cb by simp
  then have d: "length ?d = 512" using len by simp
  note W = data_write [OF s din b(2) d]
  have "img (wsect ?x ?d s) (blk (img s) din (j div 512)) ! (j mod 512) = (c @ p) ! j" if j: "j < length (c @ p)" for j
  proof (cases "j div 512 = b")
    case True
    then have jm: "j mod 512 = j - b * 512" "b * 512 \<le> j" by (auto simp: minus_div_mult_eq_mod)
    have "?d ! (j mod 512) = (if length c \<le> j then p ! (j - length c) else img s ?x ! (j mod 512))"
      using j jm cb fit len by (subst splice_nth) auto
    also have "\<dots> = (c @ p) ! j" using j ok True by (auto simp: nth_append content_ok_def)
    finally show ?thesis using True by (simp add: W(3))
  next
    case False
    have jc: "j < length c"
    proof (rule ccontr)
      assume "\<not> j < length c"
      then have "b * 512 \<le> j" "j < (b + 1) * 512" using cb j p by auto
      then have "j div 512 = b" by (intro div_nat_eqI) auto
      then show False using False by simp
    qed
    have "j div 512 < nb" using nblk_le [OF jc] nb by simp
    then have "blk (img s) din (j div 512) \<noteq> ?x" using din b(2) False by (auto simp: blocks_ok_def inj_on_def)
    then show ?thesis using ok jc by (simp add: W(3) content_ok_def nth_append)
  qed
  then show ?thesis unfolding content_ok_def W(2) by simp
qed


lemma nblk_bounds: "off div 512 \<le> nblk off" "nblk off \<le> Suc (off div 512)" "0 < n \<Longrightarrow> Suc (off div 512) \<le> nblk (off + n)"
  "0 < n \<Longrightarrow> off + n \<le> (off div 512 + 1) * 512 \<Longrightarrow> nblk (off + n) = Suc (off div 512)"
proof -
  show le: "off div 512 \<le> nblk off" unfolding nblk_def by (rule div_le_mono) simp
  have "off + 511 < (off div 512 + 2) * 512" using block_end [of off] by simp
  then show "nblk off \<le> Suc (off div 512)" unfolding nblk_def using less_mult_imp_div_less by fastforce
  show g: "Suc (off div 512) \<le> nblk (off + n)" if "0 < n" using nblk_le [of off "off + n"] that by simp
  show "nblk (off + n) = Suc (off div 512)" if n: "0 < n" "off + n \<le> (off div 512 + 1) * 512"
  proof -
    have "off + n + 511 < (off div 512 + 2) * 512" using n(2) by simp
    then have "nblk (off + n) < off div 512 + 2" unfolding nblk_def by (rule less_mult_imp_div_less)
    then show ?thesis using g [OF n(1)] by simp
  qed
qed

lemma iappend_loop_ok:
  "img_ok s \<Longrightarrow> blocks_ok (img s) (unat (freeblock s)) din (nblk (length c)) \<Longrightarrow> content_ok (img s) din c \<Longrightarrow>
    length c + length p \<le> MAXFILE * 512 \<Longrightarrow> unat (freeblock s) + cost (nblk (length c + length p)) \<le> FSSIZE + cost (nblk (length c)) \<Longrightarrow>
    \<exists>din' s'. iappend_loop din (length c) p s = Inr (din', length c + length p, s') \<and>
      grown s din (nblk (length c)) s' din' (nblk (length c + length p)) \<and> content_ok (img s') din' (c @ p)"
proof (induction "length p" arbitrary: c din p s rule: less_induct)
  case less
  let ?off = "length c"
  let ?fbn = "?off div 512"
  show ?case
  proof (cases "p = []")
    case True
    then show ?thesis using less.prems grown_refl by (subst iappend_loop.simps) auto
  next
    case False
    then have p0: "0 < length p" by simp
    have f: "?fbn < 140" by (rule less_mult_imp_div_less) (use less.prems(4) p0 in \<open>simp del: length_greater_0_conv\<close>)
    define n1 where "n1 = min (length p) ((?fbn + 1) * 512 - ?off)"
    have n1: "0 < n1" "n1 \<le> length p" "?off + n1 \<le> (?fbn + 1) * 512" using p0 block_end [of ?off] by (auto simp: n1_def)
    note N = nblk_bounds [where off = ?off] and N1 = nblk_bounds(4) [OF n1(1,3)]
    have room1: "cost (Suc ?fbn) \<le> cost (nblk (?off + length p))" by (rule cost_mono [OF N(3) [OF p0]])
    obtain din1 s1 where b: "iappend_block din ?fbn s = Inr (blk (img s1) din1 ?fbn, din1, s1)"
      and g: "grown s din (nblk ?off) s1 din1 (Suc ?fbn)" "\<forall>k. k \<noteq> addr din1 12 \<longrightarrow> img s1 k = img s k"
      using iappend_block_ok [OF less.prems(1,2) N(1,2) f] less.prems(5) room1 by auto
    have s1: "img_ok s1" "blocks_ok (img s1) (unat (freeblock s1)) din1 (Suc ?fbn)" using g(1) by (simp_all add: grown_def)
    have c1: "content_ok (img s1) din1 c" by (rule content_grown [OF g(1) N(2) _ less.prems(3)]) (use g(2) in auto)
    let ?x = "blk (img s1) din1 ?fbn" and ?c = "c @ take n1 p"
    let ?d = "splice (img s1 ?x) (?off - ?fbn * 512) (take n1 p)"
    let ?s = "wsect ?x ?d s1"
    have tl: "length (take n1 p) \<le> (?fbn + 1) * 512 - ?off" using n1 by simp
    have d: "length ?d = 512" using s1(1) n1(3) by (simp add: img_ok_def)
    note W = data_write [OF s1 lessI d]
    have c2: "content_ok (img ?s) din1 ?c" by (rule content_write [OF c1 s1(2,1) refl lessI tl N(2)])
    have len: "length ?c = ?off + n1" "length ?c + length (drop n1 p) = ?off + length p" using n1 by simp_all
    have nb: "nblk (length ?c) = Suc ?fbn" using N1 len by simp
    have s2: "img_ok ?s" "blocks_ok (img ?s) (unat (freeblock ?s)) din1 (nblk (length ?c))" unfolding nb by (rule grownD [OF W(1)])+
    have room2: "unat (freeblock ?s) + cost (nblk (length ?c + length (drop n1 p))) \<le> FSSIZE + cost (nblk (length ?c))"
      using less.prems(5) g(1) unfolding nb len(2) by (simp add: grown_def wsect_def)
    have "length (drop n1 p) < length p" using n1 by simp
    from less.hyps [OF this s2 c2 _ room2] obtain din2 s3 where
      l: "iappend_loop din1 (length ?c) (drop n1 p) ?s = Inr (din2, ?off + length p, s3)"
      and g3: "grown ?s din1 (Suc ?fbn) s3 din2 (nblk (?off + length p))" "content_ok (img s3) din2 (?c @ drop n1 p)"
      using less.prems(4) unfolding len(2) nb by auto
    have "rsect ?x s1 = Inr (img s1 ?x)"
    proof -
      have "?x \<in> owned (img s1) din1 (Suc ?fbn)" by (simp add: owned_def)
      then have "unat ?x < unat (freeblock s1)" using s1(2) by (simp add: blocks_ok_def)
      then show ?thesis using s1(1) by (simp add: rsect_def img_ok_def)
    qed
    then have "iappend_loop din ?off p s = iappend_loop din1 (length ?c) (drop n1 p) ?s"
      using False f b len(1) by (subst iappend_loop.simps) (simp add: Let_def n1_def)
    moreover have "grown s din (nblk ?off) s3 din2 (nblk (?off + length p))"
      by (rule grown_trans [OF grown_trans [OF g(1) W(1) N(2)] g3(1) N(2)])
    ultimately show ?thesis using l g3(2) by auto
  qed
qed

end
