(* ===== verification/Mkfsimg.thy ===== *)
theory Mkfsimg
  imports Mkfs
begin

text \<open>
  The image that \<^verbatim>\<open>mkfs.c\<close> makes: the inodes it has written, each with its type and contents, stay intact while others are
  appended to, and the finished image has the super block, the bitmap and the files that the kernel of \<^verbatim>\<open>Fs\<close> expects.
\<close>

section \<open>The files of the image\<close>

definition dinode :: "(uint \<Rightarrow> uchar list) \<Rightarrow> nat \<Rightarrow> uchar list" where
  "dinode v i = slice (v (of_nat (32 + i div 8))) (64 * (i mod 8)) 64"

definition file_at :: "(uint \<Rightarrow> uchar list) \<Rightarrow> nat \<Rightarrow> nat \<Rightarrow> ushort \<times> uchar list \<Rightarrow> bool" where
  "file_at v fb i = (\<lambda>(ty, c). blocks_ok v fb (dinode v i) (nblk (length c)) \<and> content_ok v (dinode v i) c \<and>
    get32 (dinode v i) 8 = of_nat (length c) \<and> length c \<le> MAXFILE * 512 \<and> get16 (dinode v i) 0 = ty)"

text \<open>\<open>F\<close> gives the type and the contents of the inodes in use.\<close>

definition files_ok :: "mkfs \<Rightarrow> (nat \<rightharpoonup> ushort \<times> uchar list) \<Rightarrow> bool" where
  "files_ok s F \<longleftrightarrow> img_ok s \<and> img s 1 = splice (replicate 512 0) 0 (sb_bytes sb_mk) \<and> unat (freeinode s) \<le> 208 \<and>
    (\<forall>i f. F i = Some f \<longrightarrow> i < unat (freeinode s) \<and> file_at (img s) (unat (freeblock s)) i f) \<and>
    (\<forall>i j f g. F i = Some f \<longrightarrow> F j = Some g \<longrightarrow> i \<noteq> j \<longrightarrow>
       owned (img s) (dinode (img s) i) (nblk (length (snd f))) \<inter> owned (img s) (dinode (img s) j) (nblk (length (snd g))) = {})"

lemma unat_of_nat_small: "n < FSSIZE \<Longrightarrow> unat (of_nat n :: uint) = n"
  by (simp add: unat_of_nat)

lemma inode_place:
  assumes "i < 208"
  shows "IBLOCK (of_nat i) sb_mk = of_nat (32 + i div 8)" "dip (of_nat i) = 64 * (i mod 8)" "unat (of_nat (32 + i div 8) :: uint) = 32 + i div 8"
    "32 + i div 8 < 58"
proof -
  have u: "unat (of_nat i :: uint) = i" using assms by (simp add: unat_of_nat_small)
  show "32 + i div 8 < 58" using assms by simp
  then show w: "unat (of_nat (32 + i div 8) :: uint) = 32 + i div 8" by (rule unat_of_nat_small [OF less_trans]) simp
  have "unat (of_nat i div 8 :: uint) = i div 8" using u by (simp add: unat_div)
  then have "of_nat i div 8 = (of_nat (i div 8) :: uint)" 
    using assms unat_of_nat_small [of "i div 8"] by (intro iffD2 [OF word_unat_eq_iff]) simp
  then show "IBLOCK (of_nat i) sb_mk = of_nat (32 + i div 8)" by (simp add: IBLOCK_def sb_mk mkfs_sb_def add.commute)
  show "dip (of_nat i) = 64 * (i mod 8)" using u by (simp add: dip_def unat_mod)
qed

lemma transport:
  assumes "blocks_ok v fb din nb" and "fb \<le> fb'" and "\<And>k. k \<in> owned v din nb \<Longrightarrow> v' k = v k" and "content_ok v din c" and "nblk (length c) \<le> nb"
  shows "blocks_ok v' fb' din nb" "content_ok v' din c" "owned v' din nb = owned v din nb"
proof -
  have ind: "v' (addr din 12) = v (addr din 12)" if "12 < nb" using assms(3) [of "addr din 12"] that by (simp add: owned_def)
  then have b: "blk v' din b = blk v din b" if "b < nb \<or> 12 < nb" for b using that by (cases "12 < nb") (auto simp: blk_def)
  have im: "blk v' din ` {..<nb} = blk v din ` {..<nb}" by (rule image_cong) (simp_all add: b)
  then show o: "owned v' din nb = owned v din nb" by (simp add: owned_def)
  have "inj_on (blk v' din) {..<nb}" using assms(1) b by (simp add: blocks_ok_def inj_on_def)
  then show "blocks_ok v' fb' din nb" using assms(1,2) b by (auto simp: blocks_ok_def o im)
  show "content_ok v' din c" unfolding content_ok_def
  proof (intro allI impI)
    fix j
    assume j: "j < length c"
    have "j div 512 < nb" using nblk_le [OF j] assms(5) by simp
    then have "v' (blk v' din (j div 512)) = v (blk v din (j div 512))" using b assms(3) by (simp add: owned_def)
    then show "v' (blk v' din (j div 512)) ! (j mod 512) = c ! j" using assms(4) j by (simp add: content_ok_def)
  qed
qed


lemma rinode_ok: "img_ok s \<Longrightarrow> i < 208 \<Longrightarrow> rinode (of_nat i) s = Inr (dinode (img s) i)"
  using inode_place [of i] by (simp add: rinode_def rsect_def img_ok_def dinode_def)

lemma length_dinode [simp]: "img_ok s \<Longrightarrow> length (dinode (img s) i) = 64"
  by (simp add: dinode_def img_ok_def slice_def)

lemma winode_ok:
  assumes s: "img_ok s" and i: "i < 208" and l: "length din = 64"
  shows "\<exists>t. winode (of_nat i) din s = Inr t \<and> img_ok t \<and> dinode (img t) i = din \<and> (\<forall>j < 208. j \<noteq> i \<longrightarrow> dinode (img t) j = dinode (img s) j) \<and>
    (\<forall>k. unat k < 32 \<or> 58 \<le> unat k \<longrightarrow> img t k = img s k) \<and> freeblock t = freeblock s \<and> freeinode t = freeinode s"
proof -
  define bn :: uint where "bn = of_nat (32 + i div 8)"
  let ?t = "wsect bn (splice (img s bn) (64 * (i mod 8)) din) s"
  note P = inode_place [OF i, folded bn_def]
  have di: "dinode v i = slice (v bn) (64 * (i mod 8)) 64" for v unfolding dinode_def bn_def ..
  have len: "length (img s k) = 512" for k using s by (simp add: img_ok_def)
  have fit: "64 * (i mod 8) + 64 \<le> 512" for i :: nat using mod_less_divisor [of 8 i] by simp
  have it: "img ?t = (img s)(bn := splice (img s bn) (64 * (i mod 8)) din)" by (simp add: wsect_def)
  have w: "winode (of_nat i) din s = Inr ?t" using P s by (simp add: winode_def rsect_def img_ok_def Let_def)
  have far: "img ?t k = img s k" if "unat k < 32 \<or> 58 \<le> unat k" for k using that P(3,4) by (auto simp: it)
  have "imgsize ?t = FSSIZE" using s P(3,4) by (simp add: wsect_def img_ok_def max_def)
  moreover have "img ?t k = replicate 512 0" if "freeblock s \<le> k" for k
    using that s far [of k] by (simp add: img_ok_def word_le_nat_alt)
  moreover have "length (img ?t k) = 512" for k using l fit len by (simp add: it)
  moreover have "freeblock ?t = freeblock s" by (simp add: wsect_def)
  ultimately have "img_ok ?t" using s unfolding img_ok_def by metis
  moreover have "dinode (img ?t) i = din"
    using l fit len slice_splice_same [of "64 * (i mod 8)" din "img s bn"] unfolding di by (simp add: it)
  moreover have "dinode (img ?t) j = dinode (img s) j" if j: "j < 208" "j \<noteq> i" for j
  proof (cases "j div 8 = i div 8")
    case True
    then have "j mod 8 \<noteq> i mod 8" using j(2) by (metis div_mult_mod_eq)
    then have "64 * (i mod 8) + length din \<le> 64 * (j mod 8) \<or> 64 * (j mod 8) + 64 \<le> 64 * (i mod 8)" using l by auto
    moreover have "dinode v j = slice (v bn) (64 * (j mod 8)) 64" for v unfolding dinode_def bn_def True ..
    ultimately show ?thesis using slice_splice_other [of "64 * (i mod 8)" din "img s bn" "64 * (j mod 8)" 64] l fit len
      by (simp add: it)
  next
    case False
    then have "(of_nat (32 + j div 8) :: uint) \<noteq> bn" using inode_place(3) [OF j(1)] P(3) by (metis add_left_cancel)
    then show ?thesis unfolding dinode_def it by simp
  qed
  ultimately show ?thesis using w far by (intro exI [of _ ?t]) (simp add: wsect_def)
qed

lemma set_size: "length din = 64 \<Longrightarrow> i \<le> 12 \<Longrightarrow> addr (put32 din 8 x) i = addr din i"
  "length din = 64 \<Longrightarrow> get32 (put32 din 8 x) 8 = x" "length din = 64 \<Longrightarrow> get16 (put32 din 8 x) 0 = get16 din 0"
  by (simp_all add: addr_def field_laws)

lemma same_addrs:
  assumes "\<forall>i \<le> 12. addr d i = addr din i" and "length d = 64"
  shows "blk v d = blk v din" "owned v d = owned v din" "blocks_ok v fb din nb \<Longrightarrow> blocks_ok v fb d nb" "content_ok v d c = content_ok v din c"
proof -
  show b: "blk v d = blk v din" using assms(1) by (auto simp: blk_def)
  then show o: "owned v d = owned v din" using assms(1) by (auto simp: owned_def fun_eq_iff)
  show "blocks_ok v fb din nb \<Longrightarrow> blocks_ok v fb d nb" using assms by (auto simp: blocks_ok_def b o)
  show "content_ok v d c = content_ok v din c" by (simp add: content_ok_def b)
qed


lemma files_okD:
  assumes "files_ok s F"
  shows "img_ok s" "img s 1 = splice (replicate 512 0) 0 (sb_bytes sb_mk)" "unat (freeinode s) \<le> 208"
    "F i = Some f \<Longrightarrow> i < unat (freeinode s)" "F i = Some (ty, c) \<Longrightarrow> blocks_ok (img s) (unat (freeblock s)) (dinode (img s) i) (nblk (length c))"
    "F i = Some (ty, c) \<Longrightarrow> content_ok (img s) (dinode (img s) i) c" "F i = Some (ty, c) \<Longrightarrow> get32 (dinode (img s) i) 8 = of_nat (length c)"
    "F i = Some (ty, c) \<Longrightarrow> length c \<le> MAXFILE * 512" "F i = Some (ty, c) \<Longrightarrow> get16 (dinode (img s) i) 0 = ty"
    "F i = Some f \<Longrightarrow> F j = Some g \<Longrightarrow> i \<noteq> j \<Longrightarrow>
       owned (img s) (dinode (img s) i) (nblk (length (snd f))) \<inter> owned (img s) (dinode (img s) j) (nblk (length (snd g))) = {}"
proof -
  note A = assms [unfolded files_ok_def]
  show "img_ok s" "img s 1 = splice (replicate 512 0) 0 (sb_bytes sb_mk)" "unat (freeinode s) \<le> 208" using A by blast+
  show "F i = Some f \<Longrightarrow> i < unat (freeinode s)" using A by blast
  have at: "F i = Some (ty, c) \<Longrightarrow> file_at (img s) (unat (freeblock s)) i (ty, c)" using A by blast
  then show "F i = Some (ty, c) \<Longrightarrow> blocks_ok (img s) (unat (freeblock s)) (dinode (img s) i) (nblk (length c))"
    "F i = Some (ty, c) \<Longrightarrow> content_ok (img s) (dinode (img s) i) c" "F i = Some (ty, c) \<Longrightarrow> get32 (dinode (img s) i) 8 = of_nat (length c)"
    "F i = Some (ty, c) \<Longrightarrow> length c \<le> MAXFILE * 512" "F i = Some (ty, c) \<Longrightarrow> get16 (dinode (img s) i) 0 = ty"
    by (simp_all add: file_at_def)
  show "F i = Some f \<Longrightarrow> F j = Some g \<Longrightarrow> i \<noteq> j \<Longrightarrow>
       owned (img s) (dinode (img s) i) (nblk (length (snd f))) \<inter> owned (img s) (dinode (img s) j) (nblk (length (snd g))) = {}"
    using A by blast
qed

text \<open>A file that does not change while another one grows.\<close>

lemma file_kept:
  assumes F: "files_ok s F" and j: "F j = Some (ty, c)" and dj: "dinode (img t) j = dinode (img s) j"
    and fb: "unat (freeblock s) \<le> unat (freeblock t)" and k: "\<And>k. k \<in> owned (img s) (dinode (img s) j) (nblk (length c)) \<Longrightarrow> img t k = img s k"
  shows "file_at (img t) (unat (freeblock t)) j (ty, c)" "owned (img t) (dinode (img t) j) (nblk (length c)) = owned (img s) (dinode (img s) j) (nblk (length c))"
proof -
  note T = transport [OF files_okD(5) [OF F j] fb k files_okD(6) [OF F j] order_refl]
  show "file_at (img t) (unat (freeblock t)) j (ty, c)" using T(1,2) files_okD(7-9) [OF F j] by (simp add: file_at_def dj)
  show "owned (img t) (dinode (img t) j) (nblk (length c)) = owned (img s) (dinode (img s) j) (nblk (length c))" using T(3) by (simp add: dj)
qed

lemma files_ok_update:
  assumes F: "files_ok s F" and t: "img_ok t" "img t 1 = img s 1" "unat (freeinode t) \<le> 208" "unat (freeinode s) \<le> unat (freeinode t)"
    and fb: "unat (freeblock s) \<le> unat (freeblock t)" and i: "i < unat (freeinode t)" "file_at (img t) (unat (freeblock t)) i f"
    and j: "\<And>j g. F j = Some g \<Longrightarrow> j \<noteq> i \<Longrightarrow> dinode (img t) j = dinode (img s) j"
    and k: "\<And>j g k. F j = Some g \<Longrightarrow> j \<noteq> i \<Longrightarrow> k \<in> owned (img s) (dinode (img s) j) (nblk (length (snd g))) \<Longrightarrow>
      img t k = img s k \<and> k \<notin> owned (img t) (dinode (img t) i) (nblk (length (snd f)))"
  shows "files_ok t (F(i \<mapsto> f))"
proof -
  let ?F = "F(i \<mapsto> f)" and ?o = "\<lambda>s j g. owned (img s) (dinode (img s) j) (nblk (length (snd g)))"
  note D = files_okD [OF F]
  have keep: "file_at (img t) (unat (freeblock t)) j g" "?o t j g = ?o s j g" "?o s j g \<inter> ?o t i f = {}" if "F j = Some g" "j \<noteq> i" for j g
  proof -
    have g: "F j = Some (fst g, snd g)" using that by simp
    show "file_at (img t) (unat (freeblock t)) j g" "?o t j g = ?o s j g"
      using file_kept [OF F g j [OF that] fb] k [OF that] by simp_all
    show "?o s j g \<inter> ?o t i f = {}" using k [OF that] by blast
  qed
  have "?o t j g \<inter> ?o t l h = {}" if jl: "?F j = Some g" "?F l = Some h" "j \<noteq> l" for j l g h
  proof -
    consider "j = i" "g = f" "F l = Some h" "l \<noteq> i" | "l = i" "h = f" "F j = Some g" "j \<noteq> i" | "F j = Some g" "F l = Some h" "j \<noteq> i" "l \<noteq> i"
      using jl by (cases "j = i"; cases "l = i") simp_all
    then show ?thesis
    proof cases
      case 1
      then show ?thesis using keep(2,3) [OF 1(3,4)] by (simp add: Int_commute)
    next
      case 2
      then show ?thesis using keep(2,3) [OF 2(3,4)] by simp
    next
      case 3
      then show ?thesis using keep(2) [OF 3(1,3)] keep(2) [OF 3(2,4)] D(10) [OF 3(1,2) jl(3)] by simp
    qed
  qed
  moreover have "j < unat (freeinode t) \<and> file_at (img t) (unat (freeblock t)) j g" if "?F j = Some g" for j g
    using that i keep(1) [of j g] D(4) [of j g] t(4) by (cases "j = i") auto
  ultimately show ?thesis unfolding files_ok_def using t D(2) by auto
qed

lemma iappend_ok:
  assumes F: "files_ok s F" and f: "F i = Some (ty, c)" and sz: "length c + length p \<le> MAXFILE * 512"
    and room: "unat (freeblock s) + cost (nblk (length c + length p)) \<le> FSSIZE + cost (nblk (length c))"
  shows "\<exists>t. iappend (of_nat i) p s = Inr t \<and> files_ok t (F(i \<mapsto> (ty, c @ p))) \<and>
    unat (freeblock t) + cost (nblk (length c)) = unat (freeblock s) + cost (nblk (length c + length p)) \<and> freeinode t = freeinode s"
proof -
  define n where "n = nblk (length c)"
  define m where "m = nblk (length c + length p)"
  note D = files_okD [OF F] and Di = files_okD(5-9) [OF F f, folded n_def]
  let ?din = "dinode (img s) i"
  have nm: "n \<le> m" unfolding n_def m_def by (rule nblk_mono) simp
  have i: "i < 208" using D(3) D(4) [OF f] by linarith
  obtain din1 s1 where l: "iappend_loop ?din (length c) p s = Inr (din1, length c + length p, s1)"
    and g: "grown s ?din n s1 din1 m" and c1: "content_ok (img s1) din1 (c @ p)"
    using iappend_loop_ok [OF D(1) Di(1) [unfolded n_def] Di(2) sz room] unfolding n_def m_def by blast
  note G = grownD [OF g]
  have l1: "length din1 = 64" using G(2) by (simp add: blocks_ok_def)
  define din2 where "din2 = put32 din1 8 (of_nat (length c + length p))"
  have l2: "length din2 = 64" using l1 by (simp add: din2_def)
  obtain t where t: "winode (of_nat i) din2 s1 = Inr t" "img_ok t" "dinode (img t) i = din2" "\<And>j. j < 208 \<Longrightarrow> j \<noteq> i \<Longrightarrow> dinode (img t) j = dinode (img s1) j"
    "\<And>k. unat k < 32 \<or> 58 \<le> unat k \<Longrightarrow> img t k = img s1 k" "freeblock t = freeblock s1" "freeinode t = freeinode s1"
    using winode_ok [OF G(1) i l2] by blast
  have "unat (of_nat (length c) :: uint) = length c" using sz by (simp add: unat_of_nat)
  then have run: "iappend (of_nat i) p s = Inr t"
    using t(1) l Di(3) by (simp add: iappend_def rinode_ok [OF D(1) i] din2_def)
  have o1: "k \<in> owned (img s1) din1 m \<Longrightarrow> 60 \<le> unat k" for k using G(2) by (simp add: blocks_ok_def)
  have same: "k \<notin> owned (img s1) din1 m \<Longrightarrow> img s1 k = img s k" for k using g by (simp add: grown_def)
  have sub: "owned (img s1) din1 m \<subseteq> owned (img s) ?din n \<union> {k. freeblock s \<le> k}" using g by (simp add: grown_def)
  have fi: "freeinode t = freeinode s" using g t(7) by (simp add: grown_def)
  have a: "\<forall>j \<le> 12. addr din2 j = addr din1 j" using set_size(1) [OF l1] by (simp add: din2_def)
  note S = same_addrs [OF a l2]
  have "img t k = img s1 k" if "k \<in> owned (img s1) din2 m" for k using that o1 t(5) [of k] S(2) by force
  note T = transport [OF S(3) [OF G(2)] order_refl this, of "c @ p", unfolded S(4), OF _ c1]
  have m: "nblk (length (c @ p)) = m" by (simp add: m_def)
  have oi: "owned (img t) (dinode (img t) i) m = owned (img s1) din1 m" using T(3) m by (simp add: t(3) S(2))
  have "files_ok t (F(i \<mapsto> (ty, c @ p)))"
  proof (rule files_ok_update [OF F t(2)])
    have "(1 :: uint) \<notin> owned (img s1) din1 m" using o1 [of 1] by auto
    then show "img t 1 = img s 1" using t(5) [of 1] same by simp
    show "unat (freeblock s) \<le> unat (freeblock t)" using G(3) cost_mono [OF nm] t(6) by simp
    have "get16 din2 0 = ty" "get32 din2 8 = of_nat (length (c @ p))"
      using g Di(5) set_size(2,3) [OF l1] by (simp_all add: grown_def din2_def)
    then show "file_at (img t) (unat (freeblock t)) i (ty, c @ p)" using T c1 sz m by (simp add: file_at_def t(3,6) S(4))
  next
    fix j h
    assume j: "F j = Some h" "j \<noteq> i"
    have j208: "j < 208" using D(3) D(4) [OF j(1)] by linarith
    have "of_nat (32 + j div 8) \<notin> owned (img s1) din1 m" using o1 inode_place(3,4) [OF j208] by force
    then show "dinode (img t) j = dinode (img s) j" using t(4) [OF j208 j(2)] same by (simp add: dinode_def)
    fix k
    assume k: "k \<in> owned (img s) (dinode (img s) j) (nblk (length (snd h)))"
    have "blocks_ok (img s) (unat (freeblock s)) (dinode (img s) j) (nblk (length (snd h)))" using D(5) [of j "fst h" "snd h"] j by simp
    then have lt: "60 \<le> unat k" "unat k < unat (freeblock s)" using k by (simp_all add: blocks_ok_def)
    moreover have "k \<notin> owned (img s) ?din n" using D(10) [OF j(1) f j(2)] k by (auto simp: n_def)
    ultimately have no: "k \<notin> owned (img s1) din1 m" using sub by (auto simp: word_le_nat_alt)
    then show "img t k = img s k \<and> k \<notin> owned (img t) (dinode (img t) i) (nblk (length (snd (ty, c @ p))))"
      using same [OF no] t(5) [of k] lt oi m by simp
  qed (use D(3) D(4) [OF f] fi in simp_all)
  then show ?thesis using run G(3) t(6) fi unfolding n_def m_def by auto
qed


definition fresh_dinode :: "ushort \<Rightarrow> uchar list" where
  "fresh_dinode ty = put32 (put16 (put16 (replicate 64 0) 0 ty) 6 1) 8 0"

lemma fresh_dinode:
  "length (fresh_dinode ty) = 64" "get16 (fresh_dinode ty) 0 = ty" "get32 (fresh_dinode ty) 8 = 0" "i \<le> 12 \<Longrightarrow> addr (fresh_dinode ty) i = 0"
  by (simp_all add: fresh_dinode_def field_laws addr_def) (simp add: get32_def)

lemma ialloc_ok:
  assumes F: "files_ok s F" and i: "unat (freeinode s) < 208"
  shows "\<exists>t. ialloc_mk ty s = Inr (freeinode s, t) \<and> files_ok t (F(unat (freeinode s) \<mapsto> (ty, []))) \<and>
    freeblock t = freeblock s \<and> unat (freeinode t) = Suc (unat (freeinode s))"
proof -
  note D = files_okD [OF F]
  let ?i = "unat (freeinode s)" and ?s = "s\<lparr>freeinode := freeinode s + 1\<rparr>"
  have fi: "unat (freeinode ?s) = Suc ?i" using i by (simp add: unat_Suc)
  have s: "img_ok ?s" using D(1) by (simp add: img_ok_def)
  obtain t where t: "winode (of_nat ?i) (fresh_dinode ty) ?s = Inr t" "img_ok t" "dinode (img t) ?i = fresh_dinode ty"
    "\<And>j. j < 208 \<Longrightarrow> j \<noteq> ?i \<Longrightarrow> dinode (img t) j = dinode (img ?s) j"
    "\<And>k. unat k < 32 \<or> 58 \<le> unat k \<Longrightarrow> img t k = img ?s k" "freeblock t = freeblock ?s" "freeinode t = freeinode ?s"
    using winode_ok [OF s i fresh_dinode(1)] by blast
  have run: "ialloc_mk ty s = Inr (freeinode s, t)" using t(1) by (simp add: ialloc_mk_def fresh_dinode_def Let_def)
  have n0: "nblk 0 = 0" by (simp add: nblk_def)
  have "files_ok t (F(?i \<mapsto> (ty, [])))"
  proof (rule files_ok_update [OF F t(2)])
    show "file_at (img t) (unat (freeblock t)) ?i (ty, [])"
      using fresh_dinode [where ty = ty] by (simp add: file_at_def t(3) n0 blocks_ok_def owned_def content_ok_def)
  next
    fix j h
    assume j: "F j = Some h" "j \<noteq> ?i"
    have "j < 208" using D(3) D(4) [OF j(1)] by linarith
    then show "dinode (img t) j = dinode (img s) j" using t(4) j(2) by simp
    fix k
    assume k: "k \<in> owned (img s) (dinode (img s) j) (nblk (length (snd h)))"
    have "blocks_ok (img s) (unat (freeblock s)) (dinode (img s) j) (nblk (length (snd h)))" using D(5) [of j "fst h" "snd h"] j by simp
    then have "60 \<le> unat k" using k by (simp add: blocks_ok_def)
    then show "img t k = img s k \<and> k \<notin> owned (img t) (dinode (img t) ?i) (nblk (length (snd (ty, []))))"
      using t(5) [of k] by (simp add: n0 owned_def)
  qed (use t(5) [of 1] t(6,7) fi i in simp_all)
  then show ?thesis using run t(6,7) fi by auto
qed

lemma iappend_chunks:
  "files_ok s F \<Longrightarrow> F i = Some (ty, c) \<Longrightarrow> length c + length (concat ps) \<le> MAXFILE * 512 \<Longrightarrow>
    unat (freeblock s) + cost (nblk (length c + length (concat ps))) \<le> FSSIZE + cost (nblk (length c)) \<Longrightarrow>
    \<exists>t. foldE (iappend (of_nat i)) ps s = Inr t \<and> files_ok t (F(i \<mapsto> (ty, c @ concat ps))) \<and>
      unat (freeblock t) + cost (nblk (length c)) = unat (freeblock s) + cost (nblk (length c + length (concat ps))) \<and> freeinode t = freeinode s"
proof (induction ps arbitrary: s F c)
  case Nil
  have "F(i \<mapsto> (ty, c)) = F" using Nil(2) by auto
  then show ?case using Nil by simp
next
  case (Cons p ps)
  have "cost (nblk (length c + length p)) \<le> cost (nblk (length c + length (concat (p # ps))))" by (intro cost_mono nblk_mono) simp
  then obtain s1 where s1: "iappend (of_nat i) p s = Inr s1" "files_ok s1 (F(i \<mapsto> (ty, c @ p)))" "freeinode s1 = freeinode s"
    "unat (freeblock s1) + cost (nblk (length c)) = unat (freeblock s) + cost (nblk (length c + length p))"
    using iappend_ok [OF Cons.prems(1,2), of p] Cons.prems(3,4) by auto
  have "unat (freeblock s1) + cost (nblk (length (c @ p) + length (concat ps))) \<le> FSSIZE + cost (nblk (length (c @ p)))"
    using s1(4) Cons.prems(4) by (simp add: add.assoc)
  moreover have "length (c @ p) + length (concat ps) \<le> MAXFILE * 512" using Cons.prems(3) by simp
  ultimately obtain t where t: "foldE (iappend (of_nat i)) ps s1 = Inr t" "files_ok t (F(i \<mapsto> (ty, c @ p), i \<mapsto> (ty, (c @ p) @ concat ps)))"
    "unat (freeblock t) + cost (nblk (length (c @ p))) = unat (freeblock s1) + cost (nblk (length (c @ p) + length (concat ps)))" "freeinode t = freeinode s1"
    using Cons.IH [OF s1(2)] by fastforce
  from t(2) have "files_ok t (F(i \<mapsto> (ty, c @ concat (p # ps))))" by simp
  then show ?case using s1(1,3,4) t(1,3,4) by (intro exI [of _ t]) (simp add: add.assoc fun_upd_def)
qed



section \<open>The finished image\<close>

lemma fold_zero_blocks: "fold (\<lambda>i. wsect (of_nat i) (replicate 512 0)) [0..<n] mkfs_blank = mkfs_blank\<lparr>imgsize := n\<rparr>" if "n \<le> FSSIZE"
  using that
proof (induction n)
  case 0
  then show ?case by (simp add: mkfs_blank_def)
next
  case (Suc n)
  have "wsect (of_nat n) (replicate 512 0) (mkfs_blank\<lparr>imgsize := n\<rparr>) = mkfs_blank\<lparr>imgsize := Suc n\<rparr>"
    using Suc.prems unat_of_nat_small [of n] by (simp add: wsect_def mkfs_blank_def fun_upd_idem)
  then show ?case using Suc by simp
qed

lemma length_dirent [simp]: "length (dirent i name) = 16"
  by (simp add: dirent_def)

lemma length_sb_bytes: "length (sb_bytes b) = 28"
  by (simp add: sb_bytes_def)

lemma mkfs_root_ok:
  "\<exists>s. mkfs_root = Inr (1, s) \<and> files_ok s [1 \<mapsto> (T_DIR, dirent 1 (bytes ''.'') @ dirent 1 (bytes ''..''))] \<and>
    unat (freeblock s) = 61 \<and> freeinode s = 2"
proof -
  let ?s0 = "wsect 1 (splice (replicate 512 0) 0 (sb_bytes sb_mk)) (mkfs_blank\<lparr>imgsize := FSSIZE\<rparr>)"
  have "files_ok ?s0 Map.empty"
    by (auto simp: files_ok_def img_ok_def wsect_def mkfs_blank_def length_sb_bytes word_le_nat_alt)
  moreover have fi: "freeinode ?s0 = 1" "unat (freeblock ?s0) = 60" by (simp_all add: wsect_def mkfs_blank_def)
  ultimately obtain s1 where s1: "ialloc_mk T_DIR ?s0 = Inr (1, s1)" "files_ok s1 [1 \<mapsto> (T_DIR, [])]" "unat (freeblock s1) = 60" "unat (freeinode s1) = 2"
    using ialloc_ok [of ?s0 Map.empty T_DIR] by (auto simp: numeral_2_eq_2)
  obtain s2 where s2: "iappend (of_nat 1) (dirent 1 (bytes ''.'')) s1 = Inr s2" "files_ok s2 [1 \<mapsto> (T_DIR, dirent 1 (bytes ''.''))]"
    "unat (freeblock s2) = 61" "freeinode s2 = freeinode s1"
    using iappend_ok [OF s1(2), of 1 T_DIR "[]" "dirent 1 (bytes ''.'')"] s1(3) by (auto simp: nblk_def cost_def)
  obtain s3 where s3: "iappend (of_nat 1) (dirent 1 (bytes ''..'')) s2 = Inr s3"
    "files_ok s3 [1 \<mapsto> (T_DIR, dirent 1 (bytes ''.'') @ dirent 1 (bytes ''..''))]" "unat (freeblock s3) = 61" "freeinode s3 = freeinode s2"
    using iappend_ok [OF s2(2), of 1 T_DIR "dirent 1 (bytes ''.'')" "dirent 1 (bytes ''..'')"] s2(3) by (auto simp: nblk_def cost_def)
  have "freeinode s3 = 2" using s1(4) s2(4) s3(4) by (simp add: word_unat_eq_iff)
  moreover have "mkfs_root = Inr (1, s3)"
    using s1(1) s2(1) s3(1) fold_zero_blocks [of FSSIZE] by (simp add: mkfs_root_def Let_def)
  ultimately show ?thesis using s3 by blast
qed


text \<open>The contents of a file of the command line, and its name in the image.\<close>

definition file_bytes :: "uchar list \<times> uchar list list \<Rightarrow> uchar list" where
  "file_bytes f = concat (snd f)"

definition file_name :: "uchar list \<times> uchar list list \<Rightarrow> uchar list" where
  "file_name f = (if hd0 (fst f) = 95 then tl (fst f) else fst f)"

definition file_cost :: "uchar list \<times> uchar list list \<Rightarrow> nat" where
  "file_cost f = cost (nblk (length (file_bytes f)))"

lemma mkfs_file_ok:
  assumes F: "files_ok s F" and r: "F 1 = Some (T_DIR, r)" and i: "1 < unat (freeinode s)" "unat (freeinode s) < 208"
    and f: "47 \<notin> set (fst f)" "length (file_bytes f) \<le> MAXFILE * 512" and sz: "length r + 16 \<le> MAXFILE * 512"
    and room: "unat (freeblock s) + cost (nblk (length r + 16)) + file_cost f \<le> FSSIZE + cost (nblk (length r))"
  shows "\<exists>t. mkfs_file 1 f s = Inr t \<and>
    files_ok t (F(1 \<mapsto> (T_DIR, r @ dirent (freeinode s) (file_name f)), unat (freeinode s) \<mapsto> (T_FILE, file_bytes f))) \<and>
    unat (freeblock t) + cost (nblk (length r)) = unat (freeblock s) + cost (nblk (length r + 16)) + file_cost f \<and>
    unat (freeinode t) = Suc (unat (freeinode s))"
proof -
  let ?i = "unat (freeinode s)"
  obtain s1 where s1: "ialloc_mk T_FILE s = Inr (freeinode s, s1)" "files_ok s1 (F(?i \<mapsto> (T_FILE, [])))"
    "freeblock s1 = freeblock s" "unat (freeinode s1) = Suc ?i"
    using ialloc_ok [OF F i(2)] by blast
  define d where "d = dirent (freeinode s) (file_name f)"
  define F1 where "F1 = F(?i \<mapsto> (T_FILE, []))"
  have d: "length d = 16" by (simp add: d_def)
  have r1: "F1 1 = Some (T_DIR, r)" using r i by (simp add: F1_def)
  obtain s2 where s2: "iappend (of_nat 1) d s1 = Inr s2" "files_ok s2 (F1(1 \<mapsto> (T_DIR, r @ d)))"
    "unat (freeblock s2) + cost (nblk (length r)) = unat (freeblock s) + cost (nblk (length r + 16))" "freeinode s2 = freeinode s1"
  proof -
    have "unat (freeblock s1) + cost (nblk (length r + length d)) \<le> FSSIZE + cost (nblk (length r))" using room s1(3) d by simp
    from iappend_ok [OF s1(2) [folded F1_def] r1 _ this] show ?thesis using that sz d s1(3) by auto
  qed
  define F2 where "F2 = F1(1 \<mapsto> (T_DIR, r @ d))"
  have f2: "F2 ?i = Some (T_FILE, [])" using i by (simp add: F1_def F2_def)
  obtain t where t: "foldE (iappend (of_nat ?i)) (snd f) s2 = Inr t" "files_ok t (F2(?i \<mapsto> (T_FILE, [] @ concat (snd f))))"
    "unat (freeblock t) = unat (freeblock s2) + file_cost f" "freeinode t = freeinode s2"
  proof -
    have z: "cost (nblk 0) = 0" by (simp add: nblk_def cost_def)
    have "unat (freeblock s2) + cost (nblk (length ([] :: uchar list) + length (concat (snd f)))) \<le> FSSIZE + cost (nblk (length ([] :: uchar list)))"
      using s2(3) room by (simp add: file_cost_def file_bytes_def z)
    from iappend_chunks [OF s2(2) [folded F2_def] f2 _ this] show ?thesis
      using that f(2) by (auto simp: file_cost_def file_bytes_def z)
  qed
  have "mkfs_file 1 f s = Inr t"
    using s1(1) s2(1) t(1) f(1) by (cases f) (auto simp: mkfs_file_def file_name_def d_def)
  moreover have "F2(?i \<mapsto> (T_FILE, [] @ concat (snd f))) = F(1 \<mapsto> (T_DIR, r @ d), ?i \<mapsto> (T_FILE, file_bytes f))"
    by (auto simp: fun_eq_iff F1_def F2_def file_bytes_def)
  ultimately show ?thesis using t(2-4) s1(4) s2(3,4) unfolding d_def by auto
qed

text \<open>The directory entries that the files of the command line get, from inode \<open>n\<close> on.\<close>

primrec dirents :: "nat \<Rightarrow> (uchar list \<times> uchar list list) list \<Rightarrow> uchar list" where
  "dirents n [] = []"
| "dirents n (f # fs) = dirent (of_nat n) (file_name f) @ dirents (Suc n) fs"

lemma length_dirents [simp]: "length (dirents n fs) = 16 * length fs"
  by (induction fs arbitrary: n) simp_all

lemma mkfs_files_ok:
  "files_ok s F \<Longrightarrow> F 1 = Some (T_DIR, r) \<Longrightarrow> 1 < unat (freeinode s) \<Longrightarrow> unat (freeinode s) + length fs \<le> 208 \<Longrightarrow>
    \<forall>f \<in> set fs. 47 \<notin> set (fst f) \<and> length (file_bytes f) \<le> MAXFILE * 512 \<Longrightarrow> length r + 16 * length fs \<le> MAXFILE * 512 \<Longrightarrow>
    unat (freeblock s) + cost (nblk (length r + 16 * length fs)) + sum_list (map file_cost fs) \<le> FSSIZE + cost (nblk (length r)) \<Longrightarrow>
    \<exists>t G. foldE (mkfs_file 1) fs s = Inr t \<and> files_ok t G \<and> G 1 = Some (T_DIR, r @ dirents (unat (freeinode s)) fs) \<and>
      (\<forall>k < length fs. G (unat (freeinode s) + k) = Some (T_FILE, file_bytes (fs ! k))) \<and>
      (\<forall>i < unat (freeinode s). i \<noteq> 1 \<longrightarrow> G i = F i) \<and>
      unat (freeblock t) + cost (nblk (length r)) = unat (freeblock s) + cost (nblk (length r + 16 * length fs)) + sum_list (map file_cost fs)"
proof (induction fs arbitrary: s F r)
  case Nil
  then show ?case by (intro exI [of _ s] exI [of _ F]) simp
next
  case (Cons f fs)
  let ?i = "unat (freeinode s)" and ?r = "r @ dirent (freeinode s) (file_name f)"
  let ?F = "F(1 \<mapsto> (T_DIR, ?r), ?i \<mapsto> (T_FILE, file_bytes f))"
  have "cost (nblk (length r + 16)) \<le> cost (nblk (length r + 16 * length (f # fs)))" by (intro cost_mono nblk_mono) simp
  then have "unat (freeblock s) + cost (nblk (length r + 16)) + file_cost f \<le> FSSIZE + cost (nblk (length r))"
    using Cons.prems(7) by simp
  then obtain s1 where s1: "mkfs_file 1 f s = Inr s1" "files_ok s1 ?F" "unat (freeinode s1) = Suc ?i"
    "unat (freeblock s1) + cost (nblk (length r)) = unat (freeblock s) + cost (nblk (length r + 16)) + file_cost f"
    using mkfs_file_ok [OF Cons.prems(1-3), of f] Cons.prems(4-6) by auto
  have p: "?F 1 = Some (T_DIR, ?r)" "1 < unat (freeinode s1)" "unat (freeinode s1) + length fs \<le> 208"
    "length ?r + 16 * length fs \<le> MAXFILE * 512"
    "unat (freeblock s1) + cost (nblk (length ?r + 16 * length fs)) + sum_list (map file_cost fs) \<le> FSSIZE + cost (nblk (length ?r))"
    using Cons.prems(3,4,6,7) s1(3,4) by (simp_all add: add.assoc)
  obtain t G where t: "foldE (mkfs_file 1) fs s1 = Inr t" "files_ok t G" "G 1 = Some (T_DIR, ?r @ dirents (Suc ?i) fs)"
    "\<forall>k < length fs. G (Suc ?i + k) = Some (T_FILE, file_bytes (fs ! k))" "\<forall>i < Suc ?i. i \<noteq> 1 \<longrightarrow> G i = ?F i"
    "unat (freeblock t) + cost (nblk (length ?r)) = unat (freeblock s1) + cost (nblk (length ?r + 16 * length fs)) + sum_list (map file_cost fs)"
    using Cons.IH [OF s1(2) p(1-3) _ p(4,5)] Cons.prems(5) s1(3) by auto
  have "G (?i + k) = Some (T_FILE, file_bytes ((f # fs) ! k))" if "k < length (f # fs)" for k
    using that t(4,5) Cons.prems(3) by (cases k) auto
  moreover have "G i = F i" if "i < ?i" "i \<noteq> 1" for i using that t(5) by simp
  ultimately show ?case using s1(1,4) t(1-3,6)
    by (intro exI [of _ t] exI [of _ G]) (simp add: add.assoc)
qed


text \<open>What \<open>ilock\<close> loads for inode \<open>i\<close> into the cache entry \<open>y\<close>.\<close>

definition loaded :: "(uint \<Rightarrow> uchar list) \<Rightarrow> nat \<Rightarrow> inode \<Rightarrow> inode" where
  "loaded v i y = get_dinode (v (IBLOCK (of_nat i) mkfs_sb)) (dip (of_nat i)) y"

lemma get_slice:
  "off + n \<le> length d \<Longrightarrow> k + 4 \<le> n \<Longrightarrow> get32 (slice d off n) k = get32 d (off + k)"
  "off + n \<le> length d \<Longrightarrow> k + 2 \<le> n \<Longrightarrow> get16 (slice d off n) k = get16 d (off + k)"
  by (simp_all add: get32_def get16_def slice_nth add.assoc)

lemma loaded_fields:
  assumes "i < 208" and "\<And>k. length (v k) = 512"
  shows "i_type (loaded v i y) = get16 (dinode v i) 0" "i_size (loaded v i y) = get32 (dinode v i) 8"
    "b \<le> 12 \<Longrightarrow> i_addrs (loaded v i y) b = addr (dinode v i) b" "i_dev (loaded v i y) = i_dev y"
proof -
  note P = inode_place [OF assms(1), unfolded sb_mk]
  have fit: "64 * (i mod 8) + 64 \<le> length (v k)" for k using assms(2) mod_less_divisor [of 8 i] by simp
  show "i_type (loaded v i y) = get16 (dinode v i) 0" "i_size (loaded v i y) = get32 (dinode v i) 8" "i_dev (loaded v i y) = i_dev y"
    unfolding loaded_def P dinode_def by (simp_all add: get_dinode_def get_slice [OF fit])
  show "b \<le> 12 \<Longrightarrow> i_addrs (loaded v i y) b = addr (dinode v i) b"
    unfolding loaded_def P dinode_def by (simp add: get_dinode_def addr_def get_slice [OF fit] add.assoc)
qed

lemma loaded_block: "i < 208 \<Longrightarrow> (\<And>k. length (v k) = 512) \<Longrightarrow> file_block v (loaded v i y) b = blk v (dinode v i) b"
  using loaded_fields(3) [of i v _ y] by (simp add: file_block_def blk_def)

lemma loaded_file:
  assumes f: "file_at v fb i (ty, c)" and fb: "fb \<le> FSSIZE" and i: "i < 208" and v: "\<And>k. length (v k) = 512" and y: "i_dev y = 1"
  shows "i_type (loaded v i y) = ty" "unat (i_size (loaded v i y)) = length c" "file_ok 5000 v (loaded v i y)"
    "j < length c \<Longrightarrow> fbyte v (loaded v i y) j = c ! j"
proof -
  note L = loaded_fields [OF i v] and B = loaded_block [OF i v]
  have at: "blocks_ok v fb (dinode v i) (nblk (length c))" "content_ok v (dinode v i) c" "get32 (dinode v i) 8 = of_nat (length c)"
    "length c \<le> 71680" "get16 (dinode v i) 0 = ty" using f by (simp_all add: file_at_def)
  show "i_type (loaded v i y) = ty" using at(5) L(1) by simp
  show sz: "unat (i_size (loaded v i y)) = length c" using at(3,4) L(2) by (simp add: unat_of_nat)
  have nb: "nblocks (loaded v i y) = nblk (length c)" by (simp add: nblocks_def nblk_def sz)
  have o: "k \<noteq> 0 \<and> k < 5000" if "k \<in> owned v (dinode v i) (nblk (length c))" for k
  proof -
    have "60 \<le> unat k" "unat k < 5000" using at(1) that fb by (auto simp: blocks_ok_def)
    then show ?thesis by (auto simp: word_less_nat_alt)
  qed
  have "file_block v (loaded v i y) = blk v (dinode v i)" using B by auto
  then show "file_ok 5000 v (loaded v i y)"
    using at(1,4) o L(3) L(4) y by (auto simp: file_ok_def nb sz blocks_ok_def owned_def)
  show "j < length c \<Longrightarrow> fbyte v (loaded v i y) j = c ! j" using at(2) B by (simp add: fbyte_def content_ok_def)
qed

lemma bitmap_bits: "n \<le> 4096 \<Longrightarrow> r < 4096 \<Longrightarrow> bit_used (fold (\<lambda>i buf. set_bit_used buf i) [0..<n] (replicate 512 0)) r \<longleftrightarrow> r < n"
proof (induction n)
  case 0
  then show ?case by (simp add: bit_used_def)
next
  case (Suc n)
  have "length (fold (\<lambda>i buf. set_bit_used buf i) [0..<n] (replicate 512 0)) = 512"
    by (induction n) simp_all
  then show ?case using Suc bit_used_set [of n _ r] by (auto simp: less_Suc_eq)
qed

lemma sb_image: "decode_sb (splice (replicate 512 0) 0 (sb_bytes sb_mk)) = mkfs_sb"
  unfolding sb_mk by code_simp


text \<open>The last two steps of the program: the size of the root directory, and the bitmap.\<close>

lemma mkfs_finish:
  assumes F: "files_ok s F" and r: "F 1 = Some (T_DIR, r)" and n: "unat (freeblock s) < 4096"
  shows "\<exists>t u. winode 1 (put32 (dinode (img s) 1) 8 (of_nat ((length r div 512 + 1) * 512))) s = Inr t \<and> balloc_mk (unat (freeblock t)) t = Inr u \<and>
    img u 1 = img s 1 \<and> (\<forall>k. length (img u k) = 512) \<and> (\<forall>r < 4096. used mkfs_sb (img u) r \<longleftrightarrow> r < unat (freeblock s)) \<and>
    (\<forall>i f. F i = Some f \<longrightarrow> i \<noteq> 1 \<longrightarrow> file_at (img u) (unat (freeblock s)) i f) \<and>
    content_ok (img u) (dinode (img u) 1) r \<and> get16 (dinode (img u) 1) 0 = T_DIR \<and>
    get32 (dinode (img u) 1) 8 = of_nat ((length r div 512 + 1) * 512)"
proof -
  note D = files_okD [OF F] and D1 = files_okD(5-9) [OF F r]
  let ?d1 = "dinode (img s) 1" and ?sz = "of_nat ((length r div 512 + 1) * 512) :: uint"
  have l1: "length ?d1 = 64" using D(1) by simp
  then have l2: "length (put32 ?d1 8 ?sz) = 64" by simp
  obtain t where t: "winode (of_nat 1) (put32 ?d1 8 ?sz) s = Inr t" "img_ok t" "dinode (img t) 1 = put32 ?d1 8 ?sz"
    "\<And>j. j < 208 \<Longrightarrow> j \<noteq> 1 \<Longrightarrow> dinode (img t) j = dinode (img s) j" "\<And>k. unat k < 32 \<or> 58 \<le> unat k \<Longrightarrow> img t k = img s k"
    "freeblock t = freeblock s"
    using winode_ok [OF D(1) _ l2, of 1] by auto
  define u where "u = wsect 58 (fold (\<lambda>i buf. set_bit_used buf i) [0..<unat (freeblock s)] (replicate 512 0)) t"
  have len: "length (fold (\<lambda>i buf. set_bit_used buf i) [0..<n] (replicate 512 0)) = 512" for n by (induction n) simp_all
  have u: "img u k = img t k" if "k \<noteq> 58" for k using that by (simp add: u_def wsect_def)
  have b: "balloc_mk (unat (freeblock t)) t = Inr u" using n t(6) by (simp add: balloc_mk_def u_def sb_mk mkfs_sb_def)
  have lu: "length (img u k) = 512" for k using t(2) len by (simp add: u_def wsect_def img_ok_def)
  have bits: "used mkfs_sb (img u) r \<longleftrightarrow> r < unat (freeblock s)" if "r < 4096" for r
    using that n bitmap_bits [of "unat (freeblock s)" r] by (simp add: used_def mkfs_BBLOCK u_def wsect_def)
  have dn: "dinode (img u) i = dinode (img t) i" if "i < 208" for i
  proof -
    have "(of_nat (32 + i div 8) :: uint) \<noteq> 58" using inode_place(3,4) [OF that] by (auto simp: word_unat_eq_iff)
    then show ?thesis using u by (simp add: dinode_def)
  qed
  have k: "img u k = img s k" if "60 \<le> unat k" for k
  proof -
    have "k \<noteq> 58" using that by auto
    then show ?thesis using u t(5) [of k] that by simp
  qed
  have own: "60 \<le> unat k" if "F i = Some f" "k \<in> owned (img s) (dinode (img s) i) (nblk (length (snd f)))" for i f k
    using D(5) [of i "fst f" "snd f"] that by (simp add: blocks_ok_def)
  have files: "file_at (img u) (unat (freeblock s)) i f" if "F i = Some f" "i \<noteq> 1" for i f
  proof -
    have i: "i < 208" using D(3) D(4) [OF that(1)] by linarith
    have di: "dinode (img u) i = dinode (img s) i" using dn [OF i] t(4) [OF i that(2)] by simp
    have g: "F i = Some (fst f, snd f)" using that by simp
    have "blocks_ok (img u) (unat (freeblock s)) (dinode (img s) i) (nblk (length (snd f)))" "content_ok (img u) (dinode (img s) i) (snd f)"
      using transport [OF D(5) [OF g] order_refl _ D(6) [OF g] order_refl, of "img u"] k own [OF that(1)] by auto
    then show ?thesis using D(7-9) [OF g] by (simp add: file_at_def di split_beta)
  qed
  have d1: "dinode (img u) 1 = put32 ?d1 8 ?sz" using dn [of 1] t(3) by simp
  have ad: "\<forall>i \<le> 12. addr (put32 ?d1 8 ?sz) i = addr ?d1 i" using set_size(1) [OF l1] by simp
  have "content_ok (img u) ?d1 r" using transport(2) [OF D1(1) order_refl _ D1(2) order_refl, of "img u"] k own [OF r] by simp
  then have "content_ok (img u) (dinode (img u) 1) r" unfolding d1 same_addrs(4) [OF ad l2] .
  moreover have "get16 (dinode (img u) 1) 0 = T_DIR" "get32 (dinode (img u) 1) 8 = ?sz"
    unfolding d1 using set_size(2,3) [OF l1] D1(5) by simp_all
  moreover have "img u 1 = img s 1" using u [of 1] t(5) [of 1] by simp
  ultimately show ?thesis using t(1) [unfolded of_nat_1] b lu bits files by blast
qed

lemma round_up: "n < FSSIZE \<Longrightarrow> (of_nat n div 512 + 1) * 512 = (of_nat ((n div 512 + 1) * 512) :: uint)"
proof -
  assume n: "n < FSSIZE"
  have "unat (of_nat n div 512 :: uint) = n div 512" using unat_of_nat_small [OF n] by (simp add: unat_div)
  moreover have "unat (of_nat (n div 512) :: uint) = n div 512" by (rule unat_of_nat_small) (use n in simp)
  ultimately have "of_nat n div 512 = (of_nat (n div 512) :: uint)" by (intro iffD2 [OF word_unat_eq_iff]) simp
  then show ?thesis by simp
qed

text \<open>The number of blocks that the program has handed out at its end.\<close>

definition image_blocks :: "(uchar list \<times> uchar list list) list \<Rightarrow> nat" where
  "image_blocks files = nmeta + cost (nblk (32 + 16 * length files)) + sum_list (map file_cost files)"

definition root_dir :: "(uchar list \<times> uchar list list) list \<Rightarrow> uchar list" where
  "root_dir files = dirent 1 (bytes ''.'') @ dirent 1 (bytes ''..'') @ dirents 2 files"

text \<open>A file of the image is read back in every state of the kernel whose view of the disk is the image.\<close>

lemma file_read_back:
  assumes f: "file_at m b i (ty, c)" "b \<le> FSSIZE" "i < 208" and l: "\<And>k. length (m k) = 512" and ty: "ty \<noteq> T_DEV"
    and q: "fs_rel q m n {}" "n < NBUF" "disksize (fs_bio q) = 5000" and x: "i_dev y = 1" "inodes q ip = loaded m i y"
  shows "i_type (inodes q ip) = ty \<and> (\<exists>v. readi ip 0 (i_size (inodes q ip)) q = Inr ((int (length c), c), v))"
proof -
  note L = loaded_file [OF f _ x(1), folded x(2)]
  have "of_nat (length c) = i_size (inodes q ip)" using L(2) [OF l] by (metis of_nat_unat ucast_id)
  moreover have "map (fbyte m (inodes q ip)) [0..<length c] = c"
    by (rule nth_equalityI) (use L(4) [OF l] in auto)
  ultimately show ?thesis
    using readi_ok [OF q(1), of ip 0 "length c"] L(1-3) [OF l] q(2,3) ty by fastforce
qed

text \<open>
  C7. \<open>mkfs\<close> succeeds when the files fit, and the kernel finds in the image what it expects: the super block, a bitmap with
  exactly the blocks in use, a root directory with the entries of the files, and under inode \<open>2 + k\<close> the \<open>k\<close>th file, which \<open>readi\<close>
  returns byte for byte in every state of the kernel whose view of the disk is the image.
\<close>

theorem mkfs_image:
  assumes "length files \<le> 198" and "\<forall>f \<in> set files. 47 \<notin> set (fst f) \<and> length (file_bytes f) \<le> MAXFILE * 512" and "image_blocks files < 4096"
  shows "\<exists>t. mkfs_main files = Inr t \<and> decode_sb (img t 1) = mkfs_sb \<and>
    (\<forall>r < 4096. used mkfs_sb (img t) r \<longleftrightarrow> r < image_blocks files) \<and>
    (\<forall>y. i_type (loaded (img t) 1 y) = T_DIR \<and> (\<forall>j < length (root_dir files). fbyte (img t) (loaded (img t) 1 y) j = root_dir files ! j)) \<and>
    (\<forall>k < length files. \<forall>s n ip y. fs_rel s (img t) n {} \<longrightarrow> n < NBUF \<longrightarrow> disksize (fs_bio s) = 5000 \<longrightarrow> i_dev y = 1 \<longrightarrow>
       inodes s ip = loaded (img t) (2 + k) y \<longrightarrow> i_type (inodes s ip) = T_FILE \<and>
       (\<exists>u. readi ip 0 (i_size (inodes s ip)) s = Inr ((int (length (file_bytes (files ! k))), file_bytes (files ! k)), u)))"
proof -
  let ?r0 = "dirent 1 (bytes ''.'') @ dirent 1 (bytes ''..'')"
  obtain s0 where s0: "mkfs_root = Inr (1, s0)" "files_ok s0 [1 \<mapsto> (T_DIR, ?r0)]" "unat (freeblock s0) = 61" "freeinode s0 = 2"
    using mkfs_root_ok by blast
  have c32: "cost (nblk (length ?r0)) = 1" by (simp add: nblk_def cost_def)
  have "unat (freeblock s0) + cost (nblk (length ?r0 + 16 * length files)) + sum_list (map file_cost files) \<le> FSSIZE + cost (nblk (length ?r0))"
    using assms(3) s0(3) c32 by (simp add: image_blocks_def)
  then obtain s F where s: "foldE (mkfs_file 1) files s0 = Inr s" "files_ok s F" "F 1 = Some (T_DIR, ?r0 @ dirents 2 files)"
    "\<forall>k < length files. F (2 + k) = Some (T_FILE, file_bytes (files ! k))"
    "unat (freeblock s) + cost (nblk (length ?r0)) = 61 + cost (nblk (length ?r0 + 16 * length files)) + sum_list (map file_cost files)"
    using mkfs_files_ok [OF s0(2), of ?r0 files] assms(1,2) s0(3,4) by auto
  have r: "?r0 @ dirents 2 files = root_dir files" by (simp add: root_dir_def)
  have fb: "unat (freeblock s) = image_blocks files" using s(5) c32 by (simp add: image_blocks_def)
  let ?len = "length (root_dir files)"
  have rl: "?len = 32 + 16 * length files" by (simp add: root_dir_def)
  obtain t u where t: "winode 1 (put32 (dinode (img s) 1) 8 (of_nat ((?len div 512 + 1) * 512))) s = Inr t" "balloc_mk (unat (freeblock t)) t = Inr u"
    "img u 1 = img s 1" "\<forall>k. length (img u k) = 512" "\<forall>r < 4096. used mkfs_sb (img u) r \<longleftrightarrow> r < unat (freeblock s)"
    "\<forall>i f. F i = Some f \<longrightarrow> i \<noteq> 1 \<longrightarrow> file_at (img u) (unat (freeblock s)) i f"
    "content_ok (img u) (dinode (img u) 1) (root_dir files)" "get16 (dinode (img u) 1) 0 = T_DIR"
    using mkfs_finish [OF s(2,3)] fb assms(3) unfolding r by auto
  have rin: "rinode 1 s = Inr (dinode (img s) 1)" using rinode_ok [OF files_okD(1) [OF s(2)], of 1] by simp
  have "(of_nat ?len div 512 + 1) * 512 = (of_nat ((?len div 512 + 1) * 512) :: uint)"
    by (rule round_up) (use rl assms(1) in simp)
  then have run: "mkfs_main files = Inr u"
    using t(1,2) files_okD(7) [OF s(2,3)] unfolding r mkfs_main_def s0(1) bindE_simps prod.case s(1) rin Let_def xint by (simp add: add.commute)
  have rd: "i_type (inodes q ip) = T_FILE \<and>
      (\<exists>v. readi ip 0 (i_size (inodes q ip)) q = Inr ((int (length (file_bytes (files ! k))), file_bytes (files ! k)), v))"
    if "k < length files" and "fs_rel q (img u) n {}" "n < NBUF" "disksize (fs_bio q) = 5000" and "i_dev y = 1"
      and "inodes q ip = loaded (img u) (2 + k) y" for q n ip y k
    using that t(4,6) s(4) fb assms(1,3) by (intro file_read_back [of "img u" "unat (freeblock s)" "2 + k" _ _ q n y]) simp_all
  have "i_type (loaded (img u) 1 y) = T_DIR" "j < ?len \<Longrightarrow> fbyte (img u) (loaded (img u) 1 y) j = root_dir files ! j" for y j
    using loaded_fields(1) [of 1 "img u" y] loaded_block [of 1 "img u" y] t(4,7,8) by (simp_all add: fbyte_def content_ok_def)
  then show ?thesis using run t(3,5) files_okD(2) [OF s(2)] sb_image fb rd by (intro exI [of _ u]) auto
qed


text \<open>One file of three bytes: block 60 for the root directory and block 61 for the file.\<close>

theorem mkfs_image_witness:
  "\<exists>t. mkfs_main [(bytes ''_a'', [[1, 2], [3]])] = Inr t \<and> decode_sb (img t 1) = mkfs_sb \<and> used mkfs_sb (img t) 61 \<and> \<not> used mkfs_sb (img t) 62 \<and>
    fbyte (img t) (loaded (img t) 1 zero_inode) 32 = 2 \<and> fbyte (img t) (loaded (img t) 1 zero_inode) 34 = 97"
proof -
  let ?f = "[(bytes ''_a'', [[1, 2], [3]])]"
  have n: "image_blocks ?f = 62"
    by (simp add: image_blocks_def file_cost_def file_bytes_def nblk_def cost_def)
  have r: "length (root_dir ?f) = 48" "root_dir ?f ! 32 = 2" "root_dir ?f ! 34 = 97" by code_simp+
  have f: "\<forall>f \<in> set ?f. 47 \<notin> set (fst f) \<and> length (file_bytes f) \<le> MAXFILE * 512" by (simp add: bytes_def file_bytes_def)
  obtain t where t: "mkfs_main ?f = Inr t" "decode_sb (img t 1) = mkfs_sb" "\<forall>r < 4096. used mkfs_sb (img t) r \<longleftrightarrow> r < image_blocks ?f"
    "\<forall>y. i_type (loaded (img t) 1 y) = T_DIR \<and> (\<forall>j < length (root_dir ?f). fbyte (img t) (loaded (img t) 1 y) j = root_dir ?f ! j)"
    using mkfs_image [OF _ f] n by auto
  have "used mkfs_sb (img t) 61" "\<not> used mkfs_sb (img t) 62" using t(3) n by simp_all
  moreover have "fbyte (img t) (loaded (img t) 1 zero_inode) 32 = 2" "fbyte (img t) (loaded (img t) 1 zero_inode) 34 = 97" using t(4) r by simp_all
  ultimately show ?thesis using t(1,2) by blast
qed

end
