(* ===== verification/Spec2Isabelle.thy ===== *)
theory Spec2Isabelle
  imports Swapinv Spinlock Grep Sh Wc Ide Kbd Mp Mkfsimg
begin

text \<open>
  \<^bold>\<open>Verification of xv6 with swapping.\<close> The sources under \<^verbatim>\<open>src/\<close> are a teaching Unix for x86 multiprocessors: a kernel in C
  with demand paging to one swap file per process added (\<^verbatim>\<open>swap.c\<close>, \<^verbatim>\<open>swap.h\<close>, the end of \<^verbatim>\<open>fs.c\<close>), the program
  \<^verbatim>\<open>mkfs.c\<close> that makes the disk image, and user programs. This library models the C code function by function, under the names
  of the source, and proves what the parts promise each other.

  \<^bold>\<open>How C becomes HOL.\<close> \<open>uint\<close>, \<open>ushort\<close> and \<open>uchar\<close> are words of 32, 16 and 8 bits, so that arithmetic wraps
  as in C; \<open>int\<close> is a HOL integer where the values stay in range and a word where they may not. A pointer into a table of the
  kernel (buffers, inodes, open files, processes) is its index; a pointer to memory is an address in the byte memory of
  \<^verbatim>\<open>Memory\<close>, in which the free list of \<^verbatim>\<open>kalloc.c\<close>, page tables and user pages lie side by side. An operation takes the
  state and returns \<open>Inr\<close> of its value and the new state, or \<open>Inl\<close> of a \<open>kerror\<close>: \<open>Panic\<close> with the message, \<open>Sleep\<close> with
  the channel when the call has to wait, \<open>Hang\<close> when a loop does not end, \<open>Fault\<close> when the code would dereference a null
  pointer. The state of an upper layer contains that of the layer it calls: \<open>bio\<close> in \<open>logst\<close> in \<open>fsst\<close> in \<open>filest\<close> in
  \<open>kst\<close>. Names that occur in two programs carry a suffix: \<open>_u\<close> in the user library, \<open>_mk\<close> in \<^verbatim>\<open>mkfs.c\<close>, \<open>_ide\<close> in
  \<^verbatim>\<open>ide.c\<close>, \<open>_fifo\<close> for the functions that \<open>FIFO_SWAP\<close> compiles instead of those of \<open>NFU_SWAP\<close>.

  \<^bold>\<open>Ground.\<close>
  \<^item> \<^verbatim>\<open>Prelude\<close>: integer types, results, loops, the constants of \<^verbatim>\<open>param.h\<close>, \<^verbatim>\<open>mmu.h\<close> and \<^verbatim>\<open>memlayout.h\<close>, and the
    arithmetic of pages and flags.
  \<^item> \<^verbatim>\<open>Memory\<close>, \<^verbatim>\<open>Bytes\<close>: words in memory and fields in disk blocks. \<open>word_store\<close> is the interface of memory to linked
    structures.
  \<^item> \<^verbatim>\<open>Strings\<close> (\<^verbatim>\<open>string.c\<close>): \<open>memmove\<close> copies overlapping ranges right (C40), \<open>memset\<close> by words equals \<open>memset\<close> by
    bytes.
  \<^item> \<^verbatim>\<open>Ring\<close>: ring buffers with free-running indices as lists, for the console (128) and the pipes (512).

  \<^bold>\<open>Locks.\<close>
  \<^item> \<^verbatim>\<open>Spinlock\<close> (\<^verbatim>\<open>spinlock.c\<close>): \<open>acquire\<close> and \<open>release\<close> as sequences of atomic steps, interleaved over any number of
    processors with interrupts between them. Mutual exclusion, and that a holder has its interrupts off (C4). All other
    theories rely on this when they treat a section under a spin lock as one step.
  \<^item> \<^verbatim>\<open>Sleeplock\<close> (\<^verbatim>\<open>sleeplock.c\<close>): mutual exclusion, and no process sleeps on a free lock, because the wakeup of
    \<open>releasesleep\<close> reaches every sleeper (C5).

  \<^bold>\<open>Memory management.\<close>
  \<^item> \<^verbatim>\<open>Kalloc\<close> (\<^verbatim>\<open>kalloc.c\<close>): the free list as a list of pages behind the interface \<open>page_allocator\<close>; initialisation puts every
    page into it (C30); the counter of free pages is wrong after a failed allocation (C31).
  \<^item> \<^verbatim>\<open>Pgtable\<close> (\<open>walkpgdir\<close> and \<open>mappages\<close> of \<^verbatim>\<open>vm.c\<close>): \<open>mappages\<close> ends, and changes the entries of its range and no other
    (C6).
  \<^item> \<^verbatim>\<open>Vm\<close> (the rest of \<^verbatim>\<open>vm.c\<close>): address spaces; the loops over user addresses end.
  \<^item> \<^verbatim>\<open>Swap\<close>, \<^verbatim>\<open>Swapinv\<close> (\<^verbatim>\<open>swap.c\<close>, \<^verbatim>\<open>swap.h\<close>): no page of a process is lost or recorded twice when a page is linked or
    unlinked, and the limits hold (C9, C10); the victim of \<open>NFU_SWAP\<close> has the least counter (C13); the arrays of
    \<open>FIFO_SWAP\<close> refine a queue (C14, C15). Both policies are instances of the locale \<open>replacement\<close>.

  \<^bold>\<open>Disk and file system.\<close>
  \<^item> \<^verbatim>\<open>Bio\<close> (\<^verbatim>\<open>bio.c\<close>, \<^verbatim>\<open>memide.c\<close>): the linked list of buffers as a sequence, and the cache as the contents of every
    block behind the interface \<open>block_cache\<close>: reads are current, writes are read back, the victim is the least recently used
    buffer (C19, C20, C21).
  \<^item> \<^verbatim>\<open>Ide\<close> (\<^verbatim>\<open>ide.c\<close>): for any interleaving of requests and interrupts, the commands that the controller decodes from the
    port writes are the requests in the order of their submission, one at a time; the wakeups are those of the requests served, and none is
    lost (C8). The driver stands alone: the theories above the buffer cache run on the memory disk of \<^verbatim>\<open>memide.c\<close>, whose interrupt
    handler does nothing.
  \<^item> \<^verbatim>\<open>Log\<close> (\<^verbatim>\<open>log.c\<close>): a crash after any number of the disk writes of a commit leaves, after recovery, all of the
    transaction or none of it (C1); the last \<open>end_op\<close> commits (C18); an admitted operation does not overflow a log that has
    more than \<open>LOGSIZE\<close> blocks (C16), but can overflow the one that \<^verbatim>\<open>mkfs\<close> makes (C17).
  \<^item> \<^verbatim>\<open>Fs\<close>, \<^verbatim>\<open>Dirs\<close>, \<^verbatim>\<open>File\<close> (\<^verbatim>\<open>fs.c\<close>, \<^verbatim>\<open>sysfile.c\<close>, \<^verbatim>\<open>file.c\<close>): the code. \<^verbatim>\<open>Fsrel\<close>, \<^verbatim>\<open>Fsdata\<close> and \<^verbatim>\<open>Fsfile\<close> refine it to
    functions on block contents: allocation takes the lowest free block (C23), inodes are read back (C24), \<open>readi\<close> returns the
    bytes of the file (C22), and \<open>writei\<close> inside the file changes its range and nothing else (C3).
  \<^item> \<^verbatim>\<open>Mkfs\<close>, \<^verbatim>\<open>Mkfsimg\<close> (\<^verbatim>\<open>mkfs.c\<close>): the kernel reads back from the image every file that was put into it (C7).
  \<^item> \<^verbatim>\<open>Pipe\<close> (\<^verbatim>\<open>pipe.c\<close>): bytes come out in the order in which they went in (C29).

  \<^bold>\<open>Processes and devices.\<close>
  \<^item> \<^verbatim>\<open>Kernel\<close>, \<^verbatim>\<open>Proc\<close>, \<^verbatim>\<open>Procdump\<close>, \<^verbatim>\<open>Syscall\<close>, \<^verbatim>\<open>Sysfile\<close>, \<^verbatim>\<open>Exec\<close>, \<^verbatim>\<open>Trap\<close> (\<^verbatim>\<open>proc.h\<close>, \<^verbatim>\<open>proc.c\<close>, \<^verbatim>\<open>syscall.c\<close>,
    \<^verbatim>\<open>sysfile.c\<close>, \<^verbatim>\<open>exec.c\<close>, \<^verbatim>\<open>sysproc.c\<close>, \<^verbatim>\<open>trap.c\<close>): the kernel from \<open>trap\<close> down, with all system calls.
  \<^item> \<^verbatim>\<open>Frame\<close>, \<^verbatim>\<open>Kinv\<close>: an invariant of the process table that every trap keeps (C2) and under which the scheduler can run
    every runnable process safely (C12); the scheduler starves no process (C11); a sleeping process is woken through its
    channel and no other and goes on behind its \<open>sleep\<close> (C36); \<open>kill(0)\<close> marks free slots (C35).
  \<^item> \<^verbatim>\<open>Console\<close> (\<^verbatim>\<open>console.c\<close>): line editing never loses a committed line, reading returns it, the cursor stays on the
    screen (C32, C33, C34). \<^verbatim>\<open>Kbd\<close> (\<^verbatim>\<open>kbd.c\<close>, \<^verbatim>\<open>kbd.h\<close>, \<^verbatim>\<open>uart.c\<close>): what the letter keys give under the shift, control
    and capitals keys (C37). \<^verbatim>\<open>Mp\<close> (\<^verbatim>\<open>mp.c\<close>): what \<open>mpinit\<close> reads from well-formed tables, and that an unknown entry makes
    it loop forever.

  \<^bold>\<open>User programs.\<close> \<^verbatim>\<open>Ulib\<close> (\<^verbatim>\<open>ulib.c\<close>, \<^verbatim>\<open>printf.c\<close>): \<open>atoi\<close> reads back what \<open>printf\<close> prints (C38). \<^verbatim>\<open>Grep\<close>: the
  matcher decides the language of its pattern (C25), with its buffer of 1024 bytes \<open>grep\<close> prints the matching lines of a text file, and
  of other input whose pieces have newlines (C26), and a read without a newline makes it lose part of a line (C39). \<^verbatim>\<open>Sh\<close>: the parser ends on every input (C28) and the words it finds are the
  words of the line (C27). \<^verbatim>\<open>Wc\<close>: the counts do not depend on how reads cut the input.

  \<^bold>\<open>Loops.\<close> Loops are structural recursion, or recursion with a termination proof. Loops whose index may wrap (\<open>mappages\<close>,
  \<open>for_pages\<close>, the table entries of \<open>mpinit\<close>) and walks along linked lists (the buffers, the queue of the disk driver) are partial
  functions, whose value \<open>None\<close> becomes \<open>Hang\<close>, and the theorems show where they return. The digits of a number have as fuel
  the size of the C array that receives them. The parser of the shell has a fuel linear in the length of its input, and
  C28 shows that it is enough. The busy waits of \<^verbatim>\<open>ide.c\<close> recurse on the status bytes that the controller will return.

  \<^bold>\<open>Parameters.\<close> What is not C code under \<^verbatim>\<open>src/\<close> is an argument: the linker's symbols (\<open>kend\<close>, \<open>kdata\<close>), the bytes that
  devices deliver, the faulting address, frame pointers saved on kernel stacks, the host's files for \<^verbatim>\<open>mkfs\<close>.

  \<^bold>\<open>Not modelled.\<close> Boot and assembly code (\<^verbatim>\<open>bootasm.S\<close>, \<^verbatim>\<open>bootmain.c\<close>, \<^verbatim>\<open>entry.S\<close>, \<^verbatim>\<open>swtch.S\<close>, \<^verbatim>\<open>trapasm.S\<close>,
  \<^verbatim>\<open>main.c\<close>), the interrupt controllers (\<^verbatim>\<open>lapic.c\<close>, \<^verbatim>\<open>ioapic.c\<close>, \<^verbatim>\<open>picirq.c\<close>), segment and gate descriptors, since they
  program the processor and devices and hold no state that the rest of the kernel reads; \<^verbatim>\<open>umalloc.c\<close>, \<open>runcmd\<close> and the small
  user programs and tests. Kernel code runs from trap to sleep or return as one step: between these
  points processes interleave only in \<^verbatim>\<open>Spinlock\<close>, \<^verbatim>\<open>Sleeplock\<close>, \<^verbatim>\<open>Pipe\<close>, \<^verbatim>\<open>Log\<close> and \<^verbatim>\<open>Ide\<close>. A system call that has to sleep
  ends with the outcome \<open>Sleep\<close>; how it goes on is modelled for pipes, the console, \<open>iderw\<close> and \<open>sys_sleep\<close>.
\<close>

end
